(* ===== verification/BB_Prelude.thy ===== *)
theory BB_Prelude
  imports Main "HOL-Library.Word"
begin

text \<open>
  Shared vocabulary of the development: byte strings, the result type of a call that may
  crash or never return, reachable states of a step relation with the invariant rule every
  state machine below uses, and the list facts several components share.
\<close>

section \<open>Theorem collections\<close>

named_theorems run_simps \<open>evaluation of the result monad\<close>
named_theorems file_simps \<open>reading, writing and cutting a byte list by position\<close>
named_theorems string_simps \<open>C strings, printing and tokenising\<close>

section \<open>Bytes\<close>

type_synonym bytes = "char list"

abbreviation NUL :: char where "NUL \<equiv> CHR 0x00"
abbreviation TAB :: char where "TAB \<equiv> CHR 0x09"
abbreviation LF :: char where "LF \<equiv> CHR 0x0A"
abbreviation VT :: char where "VT \<equiv> CHR 0x0B"
abbreviation FF :: char where "FF \<equiv> CHR 0x0C"
abbreviation CR :: char where "CR \<equiv> CHR 0x0D"
abbreviation SP :: char where "SP \<equiv> CHR 0x20"
abbreviation SLASH :: char where "SLASH \<equiv> CHR 0x2F"

section \<open>Results of calls\<close>

text \<open>
  A call of the program ends in one of three ways: \<open>None\<close> when it never returns (it waits
  for a condition nobody will change, or loops for ever), \<open>Some (Inl f)\<close> when it takes the
  process down or leaves the defined behaviour of C++, \<open>Some (Inr x)\<close> when it returns \<open>x\<close>.
\<close>

datatype fault =
    Assertion_Failed      \<comment> \<open>\<open>assert(false)\<close>\<close>
  | Uncaught_Exception    \<comment> \<open>an exception no handler catches: \<open>std::terminate\<close>\<close>
  | Out_Of_Bounds         \<comment> \<open>an access outside an array or a vector\<close>
  | Uninitialised_Read    \<comment> \<open>the value of an automatic variable nothing was written to\<close>

type_synonym 'a run = "(fault + 'a) option"

abbreviation ret :: "'a \<Rightarrow> 'a run" where "ret x \<equiv> Some (Inr x)"
abbreviation crash :: "fault \<Rightarrow> 'a run" where "crash f \<equiv> Some (Inl f)"
abbreviation hang :: "'a run" where "hang \<equiv> None"

definition bind_run :: "'a run \<Rightarrow> ('a \<Rightarrow> 'b run) \<Rightarrow> 'b run" where
  "bind_run m k = (case m of None \<Rightarrow> None | Some (Inl f) \<Rightarrow> Some (Inl f) | Some (Inr x) \<Rightarrow> k x)"

definition returns :: "'a run \<Rightarrow> bool" where
  "returns m = (case m of Some (Inr _) \<Rightarrow> True | _ \<Rightarrow> False)"

lemma bind_run_simps [simp, run_simps]:
  "bind_run hang k = hang" "bind_run (crash f) k = crash f" "bind_run (ret x) k = k x"
  by (simp_all add: bind_run_def)

lemma bind_run_ret_iff [run_simps]:
  "bind_run m k = ret y \<longleftrightarrow> (\<exists>x. m = ret x \<and> k x = ret y)"
  by (auto simp: bind_run_def split: option.splits sum.splits)

lemma bind_run_crash_iff [run_simps]:
  "bind_run m k = crash f \<longleftrightarrow> m = crash f \<or> (\<exists>x. m = ret x \<and> k x = crash f)"
  by (auto simp: bind_run_def split: option.splits sum.splits)

lemma bind_run_hang_iff [run_simps]:
  "bind_run m k = hang \<longleftrightarrow> m = hang \<or> (\<exists>x. m = ret x \<and> k x = hang)"
  by (auto simp: bind_run_def split: option.splits sum.splits)

lemma bind_run_returns:
  "m \<noteq> hang \<Longrightarrow> (\<And>x. m = ret x \<Longrightarrow> k x \<noteq> hang) \<Longrightarrow> bind_run m k \<noteq> hang"
  by (auto simp: bind_run_hang_iff)

lemma bind_run_assoc: "bind_run (bind_run m k) l = bind_run m (\<lambda>x. bind_run (k x) l)"
  by (auto simp: bind_run_def split: option.splits sum.splits)

lemma returns_iff: "returns m \<longleftrightarrow> (\<exists>x. m = ret x)"
  by (auto simp: returns_def split: option.splits sum.splits)

section \<open>Reachable states and invariants\<close>

inductive reach :: "('s \<Rightarrow> bool) \<Rightarrow> ('s \<Rightarrow> 's \<Rightarrow> bool) \<Rightarrow> 's \<Rightarrow> bool"
  for init :: "'s \<Rightarrow> bool" and step :: "'s \<Rightarrow> 's \<Rightarrow> bool" where
  reach_init: "init s \<Longrightarrow> reach init step s"
| reach_step: "reach init step s \<Longrightarrow> step s t \<Longrightarrow> reach init step t"

text \<open>The contract of an inductive invariant, and what it gives.\<close>

locale inductive_invariant =
  fixes init :: "'s \<Rightarrow> bool"
    and step :: "'s \<Rightarrow> 's \<Rightarrow> bool"
    and inv :: "'s \<Rightarrow> bool"
  assumes inv_init: "init s \<Longrightarrow> inv s"
    and inv_step: "step s t \<Longrightarrow> inv s \<Longrightarrow> inv t"
begin

lemma inv_reach: "reach init step s \<Longrightarrow> inv s"
  by (induction rule: reach.induct) (auto intro: inv_init inv_step)

lemma inv_steps: "step\<^sup>*\<^sup>* s t \<Longrightarrow> inv s \<Longrightarrow> inv t"
  by (induction rule: rtranclp_induct) (auto intro: inv_step)

end

lemma reach_steps: "step\<^sup>*\<^sup>* s t \<Longrightarrow> reach init step s \<Longrightarrow> reach init step t"
  by (induction rule: rtranclp_induct) (auto intro: reach_step)

section \<open>Counting the threads of a list of threads\<close>

definition tally :: "('a \<Rightarrow> bool) \<Rightarrow> 'a list \<Rightarrow> nat" where
  "tally P xs = length (filter P xs)"

lemma tally_simps [simp]:
  "tally P [] = 0" "tally P (x # xs) = (if P x then Suc (tally P xs) else tally P xs)"
  by (simp_all add: tally_def)

lemma tally_append [simp]: "tally P (xs @ ys) = tally P xs + tally P ys"
  by (simp add: tally_def)

lemma tally_replicate [simp]: "tally P (replicate n x) = (if P x then n else 0)"
  by (induction n) auto

lemma tally_le_length: "tally P xs \<le> length xs"
  by (simp add: tally_def)

lemma tally_update:
  "i < length xs \<Longrightarrow>
   tally P (xs[i := x]) + (if P (xs ! i) then 1 else 0) = tally P xs + (if P x then 1 else 0)"
proof (induction xs arbitrary: i)
  case Nil
  then show ?case by simp
next
  case (Cons y ys)
  then show ?case by (cases i) auto
qed

lemma tally_eq_0_iff: "tally P xs = 0 \<longleftrightarrow> (\<forall>x \<in> set xs. \<not> P x)"
  by (induction xs) auto

lemma tally_pos_iff: "0 < tally P xs \<longleftrightarrow> (\<exists>x \<in> set xs. P x)"
  by (induction xs) auto

lemma tally_pos_nth: "i < length xs \<Longrightarrow> P (xs ! i) \<Longrightarrow> 0 < tally P xs"
  by (auto simp: tally_pos_iff)

lemma tally_list_update:
  "i < length xs \<Longrightarrow>
   tally P (xs[i := x]) = tally P xs - (if P (xs ! i) then 1 else 0) + (if P x then 1 else 0)"
  using tally_update [of i xs P x] tally_pos_nth [of i xs P] by (auto split: if_splits)

lemma tally_all_iff: "tally P xs = length xs \<longleftrightarrow> (\<forall>x \<in> set xs. P x)"
proof (induction xs)
  case Nil
  then show ?case by simp
next
  case (Cons x xs)
  have "tally P xs \<le> length xs" by (rule tally_le_length)
  with Cons show ?case by auto
qed

lemma tally_map: "tally P (map f xs) = tally (P \<circ> f) xs"
  by (induction xs) auto

lemma tally_cong: "(\<And>x. x \<in> set xs \<Longrightarrow> P x = Q x) \<Longrightarrow> tally P xs = tally Q xs"
  by (induction xs) auto

section \<open>Bytes by position\<close>

lemma takeWhile_all: "(\<And>x. x \<in> set xs \<Longrightarrow> P x) \<Longrightarrow> takeWhile P xs = xs"
  by (induction xs) auto

lemma takeWhile_stop: "(\<And>x. x \<in> set xs \<Longrightarrow> P x) \<Longrightarrow> \<not> P y \<Longrightarrow> takeWhile P (xs @ y # ys) = xs"
  by (induction xs) auto

lemma dropWhile_stop: "(\<And>x. x \<in> set xs \<Longrightarrow> P x) \<Longrightarrow> \<not> P y \<Longrightarrow> dropWhile P (xs @ y # ys) = y # ys"
  by (induction xs) auto

lemma dropWhile_none: "xs = [] \<or> \<not> P (hd xs) \<Longrightarrow> dropWhile P xs = xs"
  by (cases xs) auto

lemma take_Suc_snoc: "i < length xs \<Longrightarrow> take (Suc i) xs = take i xs @ [xs ! i]"
  by (rule take_Suc_conv_app_nth)

lemma drop_as_Cons: "i < length xs \<Longrightarrow> drop i xs = xs ! i # drop (Suc i) xs"
  by (rule Cons_nth_drop_Suc [symmetric])

end
