(* ===== verification/C_Strings.thy ===== *)
theory C_Strings
  imports BB_Prelude
begin

text \<open>
  The string helpers of \<open>utilities.cpp\<close> and the standard functions they rest on: NUL
  terminated strings, \<open>strtok_r\<close> and \<open>tokenize\<close>, \<open>trim\<close>, \<open>is_number\<close>, \<open>is_true\<close>,
  decimal printing and \<open>std::stoi\<close>, \<open>snprintf\<close> into a bounded buffer, and the two
  functions that build every line the servers send.
\<close>

section \<open>The words of the protocol\<close>

text \<open>The constants of \<open>utilities.h\<close>, under their names there.\<close>

abbreviation PRECOMMIT :: bytes where "PRECOMMIT \<equiv> ''PRECOMMIT''"
abbreviation READY :: bytes where "READY \<equiv> ''READY''"
abbreviation COMMIT :: bytes where "COMMIT \<equiv> ''COMMIT''"
abbreviation ABORT :: bytes where "ABORT \<equiv> ''ABORT''"
abbreviation SUCCESS_NOOP :: bytes where "SUCCESS_NOOP \<equiv> ''SUCCESS_NOOP''"
abbreviation UNSUCCESS_UNDO :: bytes where "UNSUCCESS_UNDO \<equiv> ''UNSUCCESS_UNDO''"
abbreviation READ :: bytes where "READ \<equiv> ''READ''"
abbreviation WRITE :: bytes where "WRITE \<equiv> ''WRITE''"
abbreviation REPLACE :: bytes where "REPLACE \<equiv> ''REPLACE''"
abbreviation COMMIT_SUCCESS :: bytes where "COMMIT_SUCCESS \<equiv> ''COMMIT_SUCCESS''"
abbreviation COMMIT_UNSUCCESS :: bytes where "COMMIT_UNSUCCESS \<equiv> ''COMMIT_UNSUCCESS''"
abbreviation ERROR :: bytes where "ERROR \<equiv> ''ERROR''"
abbreviation UNKNOWN :: bytes where "UNKNOWN \<equiv> ''UNKNOWN''"
abbreviation CONFIGURATION_FILE_BBFILE_KEY :: bytes where "CONFIGURATION_FILE_BBFILE_KEY \<equiv> ''BBFILE''"
abbreviation CONFIGURATION_FILE_DEBUG_KEY :: bytes where "CONFIGURATION_FILE_DEBUG_KEY \<equiv> ''DEBUG''"
abbreviation CONFIGURATION_FILE_SYNCPORT_KEY :: bytes where "CONFIGURATION_FILE_SYNCPORT_KEY \<equiv> ''SYNCPORT''"

section \<open>NUL-terminated strings\<close>

definition cstr :: "bytes \<Rightarrow> bytes" where
  \<comment> \<open>the C string at the start of a buffer\<close>
  "cstr b = takeWhile (\<lambda>c. c \<noteq> NUL) b"

definition convertStringToCharArray :: "bytes \<Rightarrow> bytes" where
  \<comment> \<open>\<open>strcpy\<close> of \<open>temp.c_str()\<close> into a new array\<close>
  "convertStringToCharArray temp = cstr temp @ [NUL]"

lemma cstr_id [simp]: "NUL \<notin> set s \<Longrightarrow> cstr s = s"
  unfolding cstr_def by (rule takeWhile_all) auto

lemma cstr_stop [simp]: "NUL \<notin> set s \<Longrightarrow> cstr (s @ NUL # t) = s"
  unfolding cstr_def by (rule takeWhile_stop) auto

lemma NUL_notin_cstr [simp]: "NUL \<notin> set (cstr s)"
  unfolding cstr_def by (auto dest: set_takeWhileD)

lemma set_cstr_subset: "set (cstr s) \<subseteq> set s"
  unfolding cstr_def by (auto dest: set_takeWhileD)

lemma length_cstr_le: "length (cstr s) \<le> length s"
  by (simp add: cstr_def length_takeWhile_le)

lemma cstr_Nil [simp]: "cstr [] = []"
  by (simp add: cstr_def)

lemma cstr_cstr [simp]: "cstr (cstr s) = cstr s"
  by simp

lemma cstr_convertStringToCharArray [simp]: "cstr (convertStringToCharArray s) = cstr s"
  by (simp add: convertStringToCharArray_def)

section \<open>Tokenising\<close>

definition strtok_r :: "bytes \<Rightarrow> bytes \<Rightarrow> (bytes \<times> bytes) option" where
  \<comment> \<open>the next token and the save pointer; \<open>None\<close> for the null pointer\<close>
  "strtok_r s delim =
     (let start = dropWhile (\<lambda>c. c \<in> set delim) s in
      if start = [] then None
      else Some (takeWhile (\<lambda>c. c \<notin> set delim) start,
                 drop 1 (dropWhile (\<lambda>c. c \<notin> set delim) start)))"

lemma strtok_r_shorter: "strtok_r s delim = Some (tok, rest) \<Longrightarrow> length rest < length s"
proof -
  assume a: "strtok_r s delim = Some (tok, rest)"
  define start where "start = dropWhile (\<lambda>c. c \<in> set delim) s"
  from a have ne: "start \<noteq> []" and rest: "rest = drop 1 (dropWhile (\<lambda>c. c \<notin> set delim) start)"
    by (auto simp: strtok_r_def start_def Let_def split: if_splits)
  have "length (dropWhile (\<lambda>c. c \<notin> set delim) start) \<le> length start"
    by (rule length_dropWhile_le)
  with ne rest have "length rest < length start" by (cases start) auto
  moreover have "length start \<le> length s"
    unfolding start_def by (rule length_dropWhile_le)
  ultimately show ?thesis by simp
qed

function tokenize_loop :: "bytes \<Rightarrow> bytes \<Rightarrow> bytes list" where
  "tokenize_loop s delim =
     (case strtok_r s delim of
        None \<Rightarrow> []
      | Some (token, saveptr) \<Rightarrow> token # tokenize_loop saveptr delim)"
  by pat_completeness auto
termination
  by (relation "measure (\<lambda>(s, delim). length s)") (auto dest: strtok_r_shorter)

declare tokenize_loop.simps [simp del]

definition tokenize :: "bytes \<Rightarrow> bytes \<Rightarrow> bytes list" where
  "tokenize str delim = tokenize_loop (cstr str) delim"

lemma strtok_r_filter:
  "strtok_r s delim = Some (tok, rest) \<Longrightarrow>
   filter (\<lambda>c. c \<notin> set delim) s = tok @ filter (\<lambda>c. c \<notin> set delim) rest"
proof -
  let ?d = "\<lambda>c. c \<in> set delim" and ?n = "\<lambda>c. c \<notin> set delim"
  assume "strtok_r s delim = Some (tok, rest)"
  then have tok: "tok = takeWhile ?n (dropWhile ?d s)"
    and rest: "rest = drop 1 (dropWhile ?n (dropWhile ?d s))"
    by (auto simp: strtok_r_def Let_def split: if_splits)
  have 1: "filter ?n s = filter ?n (dropWhile ?d s)"
    by (induction s) auto
  have 2: "filter ?n t = takeWhile ?n t @ filter ?n (drop 1 (dropWhile ?n t))" for t
    by (induction t) auto
  show ?thesis unfolding tok rest 1 by (rule 2)
qed

lemma strtok_r_token:
  "strtok_r s delim = Some (tok, rest) \<Longrightarrow> tok \<noteq> [] \<and> set tok \<inter> set delim = {}"
proof -
  assume a: "strtok_r s delim = Some (tok, rest)"
  define start where "start = dropWhile (\<lambda>c. c \<in> set delim) s"
  from a have ne: "start \<noteq> []" and tok: "tok = takeWhile (\<lambda>c. c \<notin> set delim) start"
    by (auto simp: strtok_r_def start_def Let_def split: if_splits)
  from ne have "hd start \<notin> set delim"
    unfolding start_def by (rule hd_dropWhile)
  with ne tok show ?thesis by (cases start) (auto dest: set_takeWhileD)
qed

lemma strtok_r_None: "strtok_r s delim = None \<Longrightarrow> filter (\<lambda>c. c \<notin> set delim) s = []"
  by (auto simp: strtok_r_def Let_def dropWhile_eq_Nil_conv filter_empty_conv split: if_splits)

lemma concat_tokenize_loop:
  "concat (tokenize_loop s delim) = filter (\<lambda>c. c \<notin> set delim) s"
proof (induction s delim rule: tokenize_loop.induct)
  case (1 s delim)
  show ?case
  proof (cases "strtok_r s delim")
    case None
    then show ?thesis by (simp add: tokenize_loop.simps [of s delim] strtok_r_None)
  next
    case (Some p)
    then obtain tok rest where p: "strtok_r s delim = Some (tok, rest)" by (cases p) auto
    with "1.IH" [OF p refl] show ?thesis
      by (simp add: tokenize_loop.simps [of s delim] strtok_r_filter)
  qed
qed

lemma tokenize_loop_tokens:
  "t \<in> set (tokenize_loop s delim) \<Longrightarrow> t \<noteq> [] \<and> set t \<inter> set delim = {}"
proof (induction s delim rule: tokenize_loop.induct)
  case (1 s delim)
  show ?case
  proof (cases "strtok_r s delim")
    case None
    with "1.prems" show ?thesis by (simp add: tokenize_loop.simps [of s delim])
  next
    case (Some p)
    then obtain tok rest where p: "strtok_r s delim = Some (tok, rest)" by (cases p) auto
    with "1.prems" consider "t = tok" | "t \<in> set (tokenize_loop rest delim)"
      by (auto simp: tokenize_loop.simps [of s delim])
    then show ?thesis
      using strtok_r_token [OF p] "1.IH" [OF p refl] by cases auto
  qed
qed

fun join :: "char \<Rightarrow> bytes list \<Rightarrow> bytes" where
  \<comment> \<open>the fields of a line with one separator between them\<close>
  "join d [] = []"
| "join d [t] = t"
| "join d (t # ts) = t @ d # join d ts"

lemma strtok_r_head:
  "t \<noteq> [] \<Longrightarrow> d \<notin> set t \<Longrightarrow> strtok_r (t @ d # rest) [d] = Some (t, rest)"
proof -
  assume t: "t \<noteq> []" "d \<notin> set t"
  then have "dropWhile (\<lambda>c. c \<in> set [d]) (t @ d # rest) = t @ d # rest"
    by (cases t) auto
  moreover from t have "takeWhile (\<lambda>c. c \<notin> set [d]) (t @ d # rest) = t"
    by (intro takeWhile_stop) auto
  moreover from t have "dropWhile (\<lambda>c. c \<notin> set [d]) (t @ d # rest) = d # rest"
    by (intro dropWhile_stop) auto
  ultimately show ?thesis by (simp add: strtok_r_def Let_def)
qed

lemma strtok_r_last: "t \<noteq> [] \<Longrightarrow> d \<notin> set t \<Longrightarrow> strtok_r t [d] = Some (t, [])"
proof -
  assume t: "t \<noteq> []" "d \<notin> set t"
  then have "dropWhile (\<lambda>c. c \<in> set [d]) t = t" by (cases t) auto
  moreover from t have "takeWhile (\<lambda>c. c \<notin> set [d]) t = t" by (intro takeWhile_all) auto
  moreover from t have "dropWhile (\<lambda>c. c \<notin> set [d]) t = []" by auto
  ultimately show ?thesis using t by (simp add: strtok_r_def Let_def del: dropWhile_eq_Nil_conv)
qed

lemma tokenize_loop_join:
  "(\<And>t. t \<in> set ts \<Longrightarrow> t \<noteq> [] \<and> d \<notin> set t) \<Longrightarrow> tokenize_loop (join d ts) [d] = ts"
proof (induction d ts rule: join.induct)
  case (1 d)
  then show ?case by (simp add: tokenize_loop.simps strtok_r_def)
next
  case (2 d t)
  then have "strtok_r t [d] = Some (t, [])" by (intro strtok_r_last) auto
  then show ?case
    by (simp add: tokenize_loop.simps [of t] tokenize_loop.simps [of "[]"]) (simp add: strtok_r_def)
next
  case (3 d t u us)
  then have "strtok_r (join d (t # u # us)) [d] = Some (t, join d (u # us))"
    by (simp add: strtok_r_head)
  moreover have "tokenize_loop (join d (u # us)) [d] = u # us"
    by (rule "3.IH") (use "3.prems" in auto)
  ultimately show ?case by (subst tokenize_loop.simps) simp
qed

lemma NUL_notin_join:
  "(\<And>t. t \<in> set ts \<Longrightarrow> NUL \<notin> set t) \<Longrightarrow> d \<noteq> NUL \<Longrightarrow> NUL \<notin> set (join d ts)"
  by (induction d ts rule: join.induct) auto

lemma tokenize_join_fields:
  assumes "\<And>t. t \<in> set ts \<Longrightarrow> t \<noteq> [] \<and> d \<notin> set t \<and> NUL \<notin> set t" and "d \<noteq> NUL"
  shows "tokenize (join d ts) [d] = ts"
proof -
  have "cstr (join d ts) = join d ts"
    using assms by (intro cstr_id NUL_notin_join) auto
  moreover have "tokenize_loop (join d ts) [d] = ts"
    using assms by (intro tokenize_loop_join) auto
  ultimately show ?thesis by (simp add: tokenize_def)
qed

lemmas tokenize_fields3 =
  tokenize_join_fields [of "[a, b, c]" for a b c, simplified]

lemmas tokenize_fields2 =
  tokenize_join_fields [of "[a, b]" for a b, simplified]

section \<open>Trimming\<close>

definition WHITESPACE :: bytes where
  "WHITESPACE = [SP, LF, CR, TAB, FF, VT]"

definition ltrim :: "bytes \<Rightarrow> bytes" where
  "ltrim s = dropWhile (\<lambda>c. c \<in> set WHITESPACE) s"

definition rtrim :: "bytes \<Rightarrow> bytes" where
  "rtrim s = rev (dropWhile (\<lambda>c. c \<in> set WHITESPACE) (rev s))"

definition trim :: "bytes \<Rightarrow> bytes" where
  "trim s = rtrim (ltrim s)"

lemma ltrim_split: "\<exists>w. s = w @ ltrim s \<and> set w \<subseteq> set WHITESPACE"
  by (rule exI [of _ "takeWhile (\<lambda>c. c \<in> set WHITESPACE) s"])
     (auto simp: ltrim_def dest: set_takeWhileD)

lemma rtrim_split: "\<exists>w. s = rtrim s @ w \<and> set w \<subseteq> set WHITESPACE"
proof -
  let ?P = "\<lambda>c. c \<in> set WHITESPACE"
  have "rev s = takeWhile ?P (rev s) @ dropWhile ?P (rev s)" by simp
  then have "s = rev (dropWhile ?P (rev s)) @ rev (takeWhile ?P (rev s))"
    by (metis rev_append rev_rev_ident)
  then show ?thesis
    by (intro exI [of _ "rev (takeWhile ?P (rev s))"]) (auto simp: rtrim_def dest: set_takeWhileD)
qed

lemma hd_ltrim: "ltrim s \<noteq> [] \<Longrightarrow> hd (ltrim s) \<notin> set WHITESPACE"
  unfolding ltrim_def by (rule hd_dropWhile)

lemma last_rtrim: "rtrim s \<noteq> [] \<Longrightarrow> last (rtrim s) \<notin> set WHITESPACE"
  unfolding rtrim_def by (metis hd_dropWhile last_rev rev_is_Nil_conv)

lemma trim_empty_iff: "trim s = [] \<longleftrightarrow> set s \<subseteq> set WHITESPACE"
proof -
  have "rtrim t = [] \<longleftrightarrow> set t \<subseteq> set WHITESPACE" for t
    by (auto simp: rtrim_def dropWhile_eq_Nil_conv)
  moreover have "set (ltrim s) \<subseteq> set WHITESPACE \<longleftrightarrow> set s \<subseteq> set WHITESPACE"
    using ltrim_split [of s] by (metis Un_subset_iff set_append)
  ultimately show ?thesis by (simp add: trim_def)
qed

section \<open>Decimal numbers\<close>

definition isdigit :: "char \<Rightarrow> bool" where
  "isdigit c \<longleftrightarrow> (48::nat) \<le> of_char c \<and> of_char c \<le> (57::nat)"

definition digit_value :: "char \<Rightarrow> nat" where
  "digit_value c = of_char c - 48"

definition digit_char :: "nat \<Rightarrow> char" where
  "digit_char d = char_of (48 + d)"

definition is_number :: "bytes \<Rightarrow> bool" where
  "is_number s \<longleftrightarrow> s \<noteq> [] \<and> dropWhile isdigit s = []"

fun nat_to_string :: "nat \<Rightarrow> bytes" where
  "nat_to_string n =
     (if n < 10 then [digit_char n] else nat_to_string (n div 10) @ [digit_char (n mod 10)])"

declare nat_to_string.simps [simp del]

definition to_string :: "int \<Rightarrow> bytes" where
  \<comment> \<open>\<open>std::to_string(int)\<close>, and \<open>%d\<close>\<close>
  "to_string n = (if n < 0 then CHR ''-'' # nat_to_string (nat (- n)) else nat_to_string (nat n))"

definition digits_value :: "bytes \<Rightarrow> nat" where
  "digits_value ds = foldl (\<lambda>v c. 10 * v + digit_value c) 0 ds"

definition INT_MAX :: int where "INT_MAX = 2147483647"
definition INT_MIN :: int where "INT_MIN = - 2147483648"

definition strtol10 :: "bytes \<Rightarrow> int option" where
  \<comment> \<open>the number \<open>strtol\<close> reads at the start of a string in base 10, if there is one\<close>
  "strtol10 s =
     (let s1 = ltrim s;
          neg = (s1 \<noteq> [] \<and> hd s1 = CHR ''-'');
          s2 = (if s1 \<noteq> [] \<and> (hd s1 = CHR ''-'' \<or> hd s1 = CHR ''+'') then tl s1 else s1);
          ds = takeWhile isdigit s2
      in if ds = [] then None
         else Some (if neg then - int (digits_value ds) else int (digits_value ds)))"

definition stoi :: "bytes \<Rightarrow> int run" where
  \<comment> \<open>throws \<open>invalid_argument\<close> or \<open>out_of_range\<close>; nothing in the program catches either\<close>
  "stoi s = (case strtol10 s of
       None \<Rightarrow> crash Uncaught_Exception
     | Some v \<Rightarrow> if INT_MIN \<le> v \<and> v \<le> INT_MAX then ret v else crash Uncaught_Exception)"

lemma isdigit_digit_char: "d < 10 \<Longrightarrow> isdigit (digit_char d)"
  by (simp add: isdigit_def digit_char_def)

lemma digit_value_digit_char: "d < 10 \<Longrightarrow> digit_value (digit_char d) = d"
  by (simp add: digit_value_def digit_char_def)

lemma nat_to_string_digits: "c \<in> set (nat_to_string n) \<Longrightarrow> isdigit c"
proof (induction n rule: nat_to_string.induct)
  case (1 n)
  then show ?case
    by (subst (asm) (2) nat_to_string.simps)
       (auto simp: isdigit_digit_char split: if_splits)
qed

lemma nat_to_string_nonempty [simp]: "nat_to_string n \<noteq> []"
  by (subst nat_to_string.simps) simp

lemma digits_value_snoc: "digits_value (ds @ [c]) = 10 * digits_value ds + digit_value c"
  by (simp add: digits_value_def)

lemma digits_value_nat_to_string: "digits_value (nat_to_string n) = n"
proof (induction n rule: nat_to_string.induct)
  case (1 n)
  show ?case
  proof (cases "n < 10")
    case True
    then show ?thesis
      by (subst nat_to_string.simps) (simp add: digits_value_def digit_value_digit_char)
  next
    case False
    with "1.IH" show ?thesis
      by (subst nat_to_string.simps) (simp add: digits_value_snoc digit_value_digit_char)
  qed
qed

lemma isdigit_not_special:
  assumes "isdigit c"
  shows "c \<notin> set WHITESPACE" "c \<noteq> CHR ''-''" "c \<noteq> CHR ''+''" "c \<noteq> SLASH" "c \<noteq> NUL"
    "c \<noteq> SP" "c \<noteq> LF" "c \<noteq> CR"
  using assms by (auto simp: isdigit_def WHITESPACE_def)

lemma is_number_iff: "is_number s \<longleftrightarrow> s \<noteq> [] \<and> (\<forall>c \<in> set s. isdigit c)"
  by (auto simp: is_number_def dropWhile_eq_Nil_conv)

lemma is_number_nat_to_string [simp]: "is_number (nat_to_string n)"
  by (simp add: is_number_iff nat_to_string_digits)

lemma strtol10_number: "is_number s \<Longrightarrow> strtol10 s = Some (int (digits_value s))"
proof -
  assume n: "is_number s"
  then have d: "\<And>c. c \<in> set s \<Longrightarrow> isdigit c" and ne: "s \<noteq> []"
    by (auto simp: is_number_iff)
  then have hd: "isdigit (hd s)" by simp
  have "ltrim s = s"
    unfolding ltrim_def by (rule dropWhile_none) (use isdigit_not_special [OF hd] in auto)
  moreover have "takeWhile isdigit s = s" by (rule takeWhile_all) (rule d)
  ultimately show ?thesis
    using ne isdigit_not_special [OF hd]
    by (simp add: strtol10_def Let_def del: takeWhile_eq_all_conv)
qed

lemma stoi_number:
  "is_number s \<Longrightarrow>
   stoi s = (if int (digits_value s) \<le> INT_MAX then ret (int (digits_value s))
             else crash Uncaught_Exception)"
  by (simp add: stoi_def strtol10_number INT_MIN_def)

lemma to_string_nonneg: "0 \<le> n \<Longrightarrow> to_string n = nat_to_string (nat n)"
  by (simp add: to_string_def)

lemma is_number_to_string [simp]: "0 \<le> n \<Longrightarrow> is_number (to_string n)"
  by (simp add: to_string_nonneg)

lemma to_string_nonempty [simp]: "to_string n \<noteq> []"
  by (simp add: to_string_def)

lemma to_string_chars: "c \<in> set (to_string n) \<Longrightarrow> isdigit c \<or> c = CHR ''-''"
  by (auto simp: to_string_def dest: nat_to_string_digits split: if_splits)

lemma to_string_plain [simp]:
  "SLASH \<notin> set (to_string n)" "NUL \<notin> set (to_string n)" "SP \<notin> set (to_string n)"
  "LF \<notin> set (to_string n)" "CR \<notin> set (to_string n)"
  by (auto dest!: to_string_chars simp: isdigit_def)

lemma strtol10_to_string: "strtol10 (to_string n) = Some n"
proof (cases "n < 0")
  case False
  then show ?thesis by (simp add: to_string_nonneg strtol10_number digits_value_nat_to_string)
next
  case True
  let ?ds = "nat_to_string (nat (- n))"
  have "ltrim (CHR ''-'' # ?ds) = CHR ''-'' # ?ds" by (simp add: ltrim_def WHITESPACE_def)
  moreover have "takeWhile isdigit ?ds = ?ds"
    by (rule takeWhile_all) (rule nat_to_string_digits)
  ultimately show ?thesis
    using True
    by (simp add: to_string_def strtol10_def Let_def digits_value_nat_to_string
             del: takeWhile_eq_all_conv)
qed

lemma stoi_to_string: "INT_MIN \<le> n \<Longrightarrow> n \<le> INT_MAX \<Longrightarrow> stoi (to_string n) = ret n"
  by (simp add: stoi_def strtol10_to_string)

section \<open>Searching\<close>

fun contains :: "bytes \<Rightarrow> bytes \<Rightarrow> bool" where
  \<comment> \<open>\<open>s.find(pat) != std::string::npos\<close>\<close>
  "contains pat [] = (pat = [])"
| "contains pat (c # s) = (take (length pat) (c # s) = pat \<or> contains pat s)"

lemma contains_iff: "contains pat s \<longleftrightarrow> (\<exists>p q. s = p @ pat @ q)"
proof (induction s)
  case Nil
  then show ?case by simp
next
  case (Cons c s)
  have "take (length pat) (c # s) = pat \<longleftrightarrow> (\<exists>q. c # s = pat @ q)"
    by (metis append_eq_conv_conj append_take_drop_id)
  with Cons show ?case
    by (auto simp: Cons_eq_append_conv)
qed

definition is_true :: "bytes \<Rightarrow> bool" where
  "is_true value \<longleftrightarrow> value \<in> set [''1'', ''true'']"

section \<open>Formatting into bounded buffers\<close>

definition snprintf :: "nat \<Rightarrow> bytes \<Rightarrow> bytes" where
  \<comment> \<open>the C string \<open>snprintf(buffer, sz, ...)\<close> leaves in the buffer when the whole
      formatted text is \<open>text\<close>: at most \<open>sz - 1\<close> bytes of it\<close>
  "snprintf sz text = take (sz - 1) text"

definition fmt_2_1f :: "nat \<Rightarrow> bytes" where
  \<comment> \<open>\<open>%2.1f\<close> of a reply code, given in tenths\<close>
  "fmt_2_1f tenths = nat_to_string (tenths div 10) @ CHR ''.'' # nat_to_string (tenths mod 10)"

definition createMessage :: "nat \<Rightarrow> bytes \<Rightarrow> bytes \<Rightarrow> bool \<Rightarrow> bytes" where
  "createMessage code responseText additionalInfo shouldTerminateWithNewline =
     snprintf 255 (fmt_2_1f code @ [SP] @ cstr responseText @ [SP] @ cstr additionalInfo @
                   (if shouldTerminateWithNewline then [LF] else []))"

definition sendMessageToSocket :: "nat \<Rightarrow> bytes \<Rightarrow> bytes \<Rightarrow> bytes" where
  \<comment> \<open>the bytes handed to \<open>send\<close>\<close>
  "sendMessageToSocket code responseText additionalInfo =
     snprintf 255 (fmt_2_1f code @ [SP] @ cstr responseText @ [SP] @ cstr additionalInfo @ [LF])"

definition joinTwoStringsWithDelimiter :: "bytes \<Rightarrow> bytes \<Rightarrow> char \<Rightarrow> bytes" where
  "joinTwoStringsWithDelimiter str1 str2 delimiter =
     snprintf 255 (cstr str1 @ [delimiter] @ cstr str2)"

lemma length_snprintf: "length (snprintf sz text) = min (sz - 1) (length text)"
  by (simp add: snprintf_def min.commute)

lemma snprintf_fits [simp]: "length text < sz \<Longrightarrow> snprintf sz text = text"
  by (simp add: snprintf_def)

lemma snprintf_cut: "sz - 1 \<le> length text \<Longrightarrow> length (snprintf sz text) = sz - 1"
  by (simp add: snprintf_def)

lemma sendMessageToSocket_createMessage:
  "sendMessageToSocket code r a = createMessage code r a True"
  by (simp add: sendMessageToSocket_def createMessage_def)

lemma length_createMessage: "length (createMessage code r a nl) \<le> 254"
  by (simp add: createMessage_def length_snprintf)

lemma createMessage_nonempty: "createMessage code r a nl \<noteq> []"
  by (simp add: createMessage_def snprintf_def fmt_2_1f_def)

section \<open>Properties\<close>

text \<open>\<open>tokenize\<close> inverts joining non-empty fields with the delimiter: this is how commands,
  board lines and addresses are taken apart.\<close>

theorem tokenize_inverts_join:
  assumes "\<forall>t \<in> set ts. t \<noteq> [] \<and> d \<notin> set t \<and> NUL \<notin> set t" "d \<noteq> NUL"
  shows "tokenize (join d ts) [d] = ts"
  using assms by (intro tokenize_join_fields) auto

theorem tokenize_inverts_join_witness:
  "tokenize (join SP [WRITE, ''hi'']) [SP] = [WRITE, ''hi'']"
  by (rule tokenize_inverts_join) simp_all

end
