(* ===== verification/Tcp_Utils.thy ===== *)
theory Tcp_Utils
  imports C_Strings
begin

text \<open>
  \<open>tcp-utils.cpp\<close>: descriptors as streams of what the kernel delivers, \<open>recv_nonblock\<close>,
  the line reader \<open>readlineFromSocket\<close> with its one-byte residue (\<open>readline\<close> of
  \<open>utilities.cpp\<close> is the same function on a descriptor of a file), and the set-up of
  listening and connected sockets with every error path.
\<close>

section \<open>Descriptors\<close>

datatype sock_event =
    Byte char     \<comment> \<open>a byte of the peer\<close>
  | Gap           \<comment> \<open>nothing has arrived yet: \<open>poll\<close> with timeout 0 reports no data, \<open>read\<close> waits\<close>
  | Sock_Error    \<comment> \<open>the next system call on the socket fails once (such as a reset by the peer)\<close>

datatype descriptor =
    File_In bytes               \<comment> \<open>an open regular file: the bytes after the offset\<close>
  | Sock_In "sock_event list"   \<comment> \<open>a connected socket; at the end of the list the peer has closed\<close>
  | Bad_Fd                      \<comment> \<open>the value -1 of a failed \<open>open\<close>\<close>

datatype read_result = Got char | End_Of_Input | Read_Failed

fun read_sock :: "sock_event list \<Rightarrow> read_result \<times> sock_event list" where
  "read_sock [] = (End_Of_Input, [])"
| "read_sock (Gap # es) = read_sock es"
| "read_sock (Byte c # es) = (Got c, es)"
| "read_sock (Sock_Error # es) = (Read_Failed, es)"

fun read1 :: "descriptor \<Rightarrow> read_result \<times> descriptor" where
  \<comment> \<open>\<open>read(fd, &tmp, 1)\<close>: 1, 0 or -1\<close>
  "read1 (File_In []) = (End_Of_Input, File_In [])"
| "read1 (File_In (c # cs)) = (Got c, File_In cs)"
| "read1 (Sock_In es) = (case read_sock es of (r, es') \<Rightarrow> (r, Sock_In es'))"
| "read1 Bad_Fd = (Read_Failed, Bad_Fd)"

section \<open>recv_nonblock\<close>

definition recv_nodata :: int where "recv_nodata = -2"

datatype recv_outcome = Received bytes | Recv_Error
datatype poll_outcome = Poll_Timeout | Poll_Error | Poll_Ready recv_outcome

definition recv_nonblock :: "poll_outcome \<Rightarrow> nat \<Rightarrow> int \<times> bytes" where
  \<comment> \<open>the result and the bytes put into the caller's buffer; a closed connection is
      \<open>Received []\<close>\<close>
  "recv_nonblock polled mx =
     (case polled of
        Poll_Timeout \<Rightarrow> (recv_nodata, [])
      | Poll_Error \<Rightarrow> (-1, [])
      | Poll_Ready Recv_Error \<Rightarrow> (-1, [])
      | Poll_Ready (Received bs) \<Rightarrow> (int (length (take mx bs)), take mx bs))"

fun poll_now :: "descriptor \<Rightarrow> poll_outcome \<times> descriptor" where
  \<comment> \<open>what a poll with timeout 0 and a one-byte \<open>recv\<close> meet: \<open>recv\<close> on a descriptor
      that is no socket fails with \<open>ENOTSOCK\<close>\<close>
  "poll_now (File_In cs) = (Poll_Ready Recv_Error, File_In cs)"
| "poll_now (Sock_In []) = (Poll_Ready (Received []), Sock_In [])"
| "poll_now (Sock_In (Gap # es)) = (Poll_Timeout, Sock_In (Gap # es))"
| "poll_now (Sock_In (Byte c # es)) = (Poll_Ready (Received [c]), Sock_In es)"
| "poll_now (Sock_In (Sock_Error # es)) = (Poll_Ready Recv_Error, Sock_In es)"
| "poll_now Bad_Fd = (Poll_Ready Recv_Error, Bad_Fd)"

fun pending_input :: "descriptor \<Rightarrow> nat" where
  "pending_input (Sock_In es) = length es"
| "pending_input (File_In cs) = length cs"
| "pending_input Bad_Fd = 0"

lemma poll_now_byte_shrinks:
  "(polled, d') = poll_now d \<Longrightarrow> (1, bs) = recv_nonblock polled (Suc 0) \<Longrightarrow>
   pending_input d' < pending_input d"
  by (induction d rule: poll_now.induct) (auto simp: recv_nonblock_def recv_nodata_def)

section \<open>readlineFromSocket\<close>

function drain_terminator :: "descriptor \<Rightarrow> char \<times> descriptor" where
  \<comment> \<open>the inner \<open>do\<close> loop: skips what is left of the line terminator and returns the
      residue, NUL when there is none\<close>
  "drain_terminator d =
     (case poll_now d of (polled, d') \<Rightarrow>
       (case recv_nonblock polled 1 of (next, temp2) \<Rightarrow>
          if next \<noteq> 1 then (NUL, d')
          else if hd temp2 = CR \<or> hd temp2 = LF then drain_terminator d'
          else (hd temp2, d')))"
  by pat_completeness auto
termination
  by (relation "measure pending_input") (auto dest: poll_now_byte_shrinks)

declare drain_terminator.simps [simp del]

type_synonym line_result = "(int \<times> bytes \<times> char \<times> descriptor) run"
  \<comment> \<open>return value, buffer, residue, descriptor\<close>

definition end_of_line :: "nat \<Rightarrow> bytes \<Rightarrow> char \<Rightarrow> descriptor \<Rightarrow> line_result" where
  \<comment> \<open>terminates the buffer and returns \<open>i\<close>\<close>
  "end_of_line i buf residue d =
     (if i < length buf then ret (int i, buf[i := NUL], residue, d) else crash Out_Of_Bounds)"

function readline_loop :: "nat \<Rightarrow> nat \<Rightarrow> bool \<Rightarrow> bytes \<Rightarrow> descriptor \<Rightarrow> line_result" where
  "readline_loop mx i beginning buf d =
     (if i < mx then
        (case read1 d of
           (Read_Failed, d') \<Rightarrow> ret (-1, buf, NUL, d')
         | (End_Of_Input, d') \<Rightarrow>
             if beginning then ret (recv_nodata, buf, NUL, d')
             else (case drain_terminator d' of (residue, d'') \<Rightarrow> end_of_line i buf residue d'')
         | (Got tmp, d') \<Rightarrow>
             if tmp = LF \<or> tmp = CR
             then (case drain_terminator d' of (residue, d'') \<Rightarrow> end_of_line i buf residue d'')
             else if i < length buf then readline_loop mx (Suc i) False (buf[i := tmp]) d'
             else crash Out_Of_Bounds)
      else end_of_line i buf NUL d)"
  by pat_completeness auto
termination
  by (relation "measure (\<lambda>(mx, i, beginning, buf, d). mx - i)") auto

declare readline_loop.simps [simp del]

definition readlineFromSocket :: "descriptor \<Rightarrow> bytes \<Rightarrow> nat \<Rightarrow> char \<Rightarrow> line_result" where
  "readlineFromSocket d buf mx residue =
     (if residue \<noteq> NUL
      then if 0 < length buf then readline_loop mx 1 True (buf[0 := residue]) d
           else crash Out_Of_Bounds
      else readline_loop mx 0 True buf d)"

definition readline :: "descriptor \<Rightarrow> bytes \<Rightarrow> nat \<Rightarrow> (int \<times> bytes \<times> descriptor) run" where
  \<comment> \<open>\<open>readline\<close> passes the shared variable of \<open>ref_ignore<char>\<close>, which is NUL whenever
      the descriptors read through it are files: a file leaves no residue
      (\<open>drain_terminator_file\<close>)\<close>
  "readline d buf mx =
     bind_run (readlineFromSocket d buf mx NUL) (\<lambda>(n, buf', residue, d'). ret (n, buf', d'))"

section \<open>Lines of a file\<close>

lemma drain_terminator_file [simp]: "drain_terminator (File_In cs) = (NUL, File_In cs)"
  by (simp add: drain_terminator.simps recv_nonblock_def)

text \<open>The bytes of a line: no terminator and no NUL.\<close>

definition plain :: "bytes \<Rightarrow> bool" where
  "plain l \<longleftrightarrow> LF \<notin> set l \<and> CR \<notin> set l \<and> NUL \<notin> set l"

lemma plain_simps [simp]:
  "plain []" "plain (c # l) \<longleftrightarrow> c \<noteq> LF \<and> c \<noteq> CR \<and> c \<noteq> NUL \<and> plain l"
  "plain (l @ l') \<longleftrightarrow> plain l \<and> plain l'"
  by (auto simp: plain_def)

lemma plain_to_string [simp]: "plain (to_string n)"
  by (simp add: plain_def)

lemma cstr_plain [simp]: "plain l \<Longrightarrow> cstr l = l"
  by (simp add: plain_def)

definition put_line :: "nat \<Rightarrow> bytes \<Rightarrow> bytes \<Rightarrow> bytes" where
  \<comment> \<open>the buffer after \<open>l\<close> was stored from position \<open>i\<close> on and terminated\<close>
  "put_line i buf l = take i buf @ l @ NUL # drop (Suc (i + length l)) buf"

lemma length_put_line: "i + length l < length buf \<Longrightarrow> length (put_line i buf l) = length buf"
  by (simp add: put_line_def)

lemma cstr_put_line [simp]: "NUL \<notin> set l \<Longrightarrow> cstr (put_line 0 buf l) = l"
  by (simp add: put_line_def)

lemma put_line_Nil: "i < length buf \<Longrightarrow> put_line i buf [] = buf[i := NUL]"
  by (simp add: put_line_def upd_conv_take_nth_drop)

lemma put_line_Cons:
  "i < length buf \<Longrightarrow> put_line (Suc i) (buf[i := c]) l = put_line i buf (c # l)"
  by (simp add: put_line_def upd_conv_take_nth_drop take_Suc_conv_app_nth min_def add.commute)

lemma readline_loop_file:
  assumes "LF \<notin> set l" "CR \<notin> set l"
    and "i + length l < mx" "i + length l < length buf" "b \<longrightarrow> cs \<noteq> [] \<or> l \<noteq> []"
    and "cs = [] \<or> hd cs = LF \<or> hd cs = CR"
  shows "readline_loop mx i b buf (File_In (l @ cs)) =
         ret (int (i + length l), put_line i buf l, NUL, File_In (drop 1 cs))"
  using assms
proof (induction l arbitrary: i b buf)
  case Nil
  then show ?case
    by (cases cs) (auto simp: readline_loop.simps end_of_line_def put_line_Nil)
next
  case (Cons c l)
  then have "readline_loop mx (Suc i) False (buf[i := c]) (File_In (l @ cs)) =
      ret (int (Suc i + length l), put_line (Suc i) (buf[i := c]) l, NUL, File_In (drop 1 cs))"
    by (intro Cons.IH) auto
  with Cons.prems show ?case
    by (auto simp add: readline_loop.simps [of mx i b buf] put_line_Cons)
qed

lemma readline_file:
  assumes "plain l" "length l < mx" "mx \<le> length buf"
  shows "readline (File_In (l @ LF # cs)) buf mx =
         ret (int (length l), put_line 0 buf l, File_In cs)"
proof -
  have "readline_loop mx 0 True buf (File_In (l @ LF # cs)) =
      ret (int (0 + length l), put_line 0 buf l, NUL, File_In (drop 1 (LF # cs)))"
    using assms by (intro readline_loop_file) (auto simp: plain_def)
  then show ?thesis by (simp add: readline_def readlineFromSocket_def)
qed

lemma readline_file_end: "0 < mx \<Longrightarrow> readline (File_In []) buf mx = ret (recv_nodata, buf, File_In [])"
  by (simp add: readline_def readlineFromSocket_def readline_loop.simps)

lemma readline_bad: "0 < mx \<Longrightarrow> readline Bad_Fd buf mx = ret (-1, buf, Bad_Fd)"
  by (simp add: readline_def readlineFromSocket_def readline_loop.simps)

section \<open>Lines of a socket\<close>

definition residue_prefix :: "char \<Rightarrow> bytes" where
  "residue_prefix residue = (if residue = NUL then [] else [residue])"

lemma drain_terminator_skip:
  "set t \<subseteq> {CR, LF} \<Longrightarrow>
   drain_terminator (Sock_In (map Byte t @ es)) = drain_terminator (Sock_In es)"
proof (induction t)
  case Nil
  then show ?case by simp
next
  case (Cons c t)
  then show ?case
    by (subst drain_terminator.simps) (auto simp: recv_nonblock_def)
qed

lemma drain_terminator_sock:
  "drain_terminator (Sock_In []) = (NUL, Sock_In [])"
  "drain_terminator (Sock_In (Gap # es)) = (NUL, Sock_In (Gap # es))"
  "drain_terminator (Sock_In (Sock_Error # es)) = (NUL, Sock_In es)"
  "c \<noteq> CR \<Longrightarrow> c \<noteq> LF \<Longrightarrow> drain_terminator (Sock_In (Byte c # es)) = (c, Sock_In es)"
  by (simp_all add: drain_terminator.simps recv_nonblock_def recv_nodata_def)

lemma readline_loop_sock:
  assumes "LF \<notin> set l" "CR \<notin> set l" "t = LF \<or> t = CR"
    and "i + length l < mx" "i + length l < length buf"
  shows "readline_loop mx i b buf (Sock_In (map Byte (l @ [t]) @ es)) =
         (case drain_terminator (Sock_In es) of (r, d) \<Rightarrow>
            ret (int (i + length l), put_line i buf l, r, d))"
  using assms
proof (induction l arbitrary: i b buf)
  case Nil
  then show ?case
    by (auto simp: readline_loop.simps end_of_line_def put_line_Nil split: prod.splits)
next
  case (Cons c l)
  have "readline_loop mx (Suc i) False (buf[i := c]) (Sock_In (map Byte (l @ [t]) @ es)) =
      (case drain_terminator (Sock_In es) of (r, d) \<Rightarrow>
        ret (int (Suc i + length l), put_line (Suc i) (buf[i := c]) l, r, d))"
    using Cons.prems by (intro Cons.IH) auto
  with Cons.prems show ?case
    by (auto simp: readline_loop.simps [of mx i b buf] put_line_Cons split: prod.splits)
qed

lemma readlineFromSocket_line:
  assumes "plain (residue_prefix r @ l)" "t \<noteq> []" "set t \<subseteq> {CR, LF}"
    and "Suc (length l) < mx" "mx \<le> length buf"
  shows "readlineFromSocket (Sock_In (map Byte (l @ t) @ es)) buf mx r =
         (case drain_terminator (Sock_In es) of (r', d) \<Rightarrow>
            ret (int (length (residue_prefix r @ l)),
                 put_line 0 buf (residue_prefix r @ l), r', d))"
proof -
  from assms(2,3) obtain t0 ts where t: "t = t0 # ts" "t0 = LF \<or> t0 = CR" "set ts \<subseteq> {CR, LF}"
    by (cases t) auto
  define es' where "es' = map Byte ts @ es"
  have eq: "map Byte (l @ t) @ es = map Byte (l @ [t0]) @ es'"
    by (simp add: t es'_def)
  have d: "drain_terminator (Sock_In es') = drain_terminator (Sock_In es)"
    unfolding es'_def by (rule drain_terminator_skip) (rule t)
  from assms(1) have l: "LF \<notin> set l" "CR \<notin> set l" by (auto simp: plain_def)
  have loop: "readline_loop mx i True b (Sock_In (map Byte (l @ [t0]) @ es')) =
      (case drain_terminator (Sock_In es) of (r, d) \<Rightarrow>
        ret (int (i + length l), put_line i b l, r, d))"
    if "i \<le> 1" "length b = length buf" for i b
    using that assms l t unfolding d [symmetric] by (intro readline_loop_sock) auto
  show ?thesis
    using loop [of 0 buf] loop [of 1 "buf[0 := r]"] assms(4,5) put_line_Cons [of 0 buf r l]
    unfolding eq by (auto simp: readlineFromSocket_def residue_prefix_def split: prod.splits)
qed

section \<open>Every call ends and consumes input\<close>

fun descriptor_kind :: "descriptor \<Rightarrow> nat" where
  "descriptor_kind (File_In cs) = 0"
| "descriptor_kind (Sock_In es) = 1"
| "descriptor_kind Bad_Fd = 2"

lemma descriptor_kind_bad: "descriptor_kind d = 2 \<longleftrightarrow> d = Bad_Fd"
  by (cases d) auto

lemma read_sock_length:
  "read_sock es = (r, es') \<Longrightarrow> length es' \<le> length es \<and> (r \<noteq> End_Of_Input \<longrightarrow> length es' < length es)"
  by (induction es rule: read_sock.induct) auto

lemma read1_consumes:
  "read1 d = (r, d') \<Longrightarrow> descriptor_kind d' = descriptor_kind d \<and> pending_input d' \<le> pending_input d \<and>
     (r \<noteq> End_Of_Input \<longrightarrow> d \<noteq> Bad_Fd \<longrightarrow> pending_input d' < pending_input d)"
  by (cases d rule: read1.cases) (auto split: prod.splits dest: read_sock_length)

lemma poll_now_kind:
  "poll_now d = (p, d') \<Longrightarrow> descriptor_kind d' = descriptor_kind d \<and> pending_input d' \<le> pending_input d"
  by (cases d rule: poll_now.cases) auto

lemma drain_terminator_kind:
  "drain_terminator d = (r, d') \<Longrightarrow> descriptor_kind d' = descriptor_kind d \<and> pending_input d' \<le> pending_input d"
proof (induction d arbitrary: r d' rule: drain_terminator.induct)
  case (1 d)
  obtain polled d1 where p: "poll_now d = (polled, d1)" by force
  obtain k bs where k: "recv_nonblock polled 1 = (k, bs)" by force
  show ?case
    using "1.prems" "1.IH" [OF p [symmetric] k [symmetric]] poll_now_kind [OF p] p k
    by (subst (asm) drain_terminator.simps) (force split: if_splits)
qed

lemma readline_loop_ends:
  "readline_loop mx i b buf d \<noteq> hang \<and>
   (readline_loop mx i b buf d = ret (n, buf', r, d') \<longrightarrow> d \<noteq> Bad_Fd \<longrightarrow>
      descriptor_kind d' = descriptor_kind d \<and> pending_input d' \<le> pending_input d \<and>
      (b \<longrightarrow> i < mx \<longrightarrow> n \<noteq> recv_nodata \<longrightarrow> pending_input d' < pending_input d))"
proof (induction mx i b buf d rule: readline_loop.induct)
  case (1 mx i b buf d)
  show ?case
  proof (cases "i < mx")
    case False
    then show ?thesis by (simp add: readline_loop.simps [of mx i b buf d] end_of_line_def)
  next
    case i: True
    obtain what d1 where rd: "read1 d = (what, d1)" by force
    note consumed = read1_consumes [OF rd]
    obtain q d2 where dr: "drain_terminator d1 = (q, d2)" by force
    note drained = drain_terminator_kind [OF dr]
    show ?thesis
    proof (cases what)
      case Read_Failed
      then show ?thesis
        using i rd consumed by (auto simp: readline_loop.simps [of mx i b buf d])
    next
      case End_Of_Input
      then show ?thesis
        using i rd consumed dr drained
        by (auto simp: readline_loop.simps [of mx i b buf d] end_of_line_def)
    next
      case (Got c)
      show ?thesis
      proof (cases "c = LF \<or> c = CR \<or> length buf \<le> i")
        case True
        then show ?thesis
          using i rd consumed dr drained Got
          by (auto simp: readline_loop.simps [of mx i b buf d] end_of_line_def)
      next
        case False
        then have "readline_loop mx i b buf d = readline_loop mx (Suc i) False (buf[i := c]) d1"
          using i rd Got by (simp add: readline_loop.simps [of mx i b buf d])
        moreover have "d \<noteq> Bad_Fd \<longrightarrow> d1 \<noteq> Bad_Fd" using consumed descriptor_kind_bad by metis
        ultimately show ?thesis
          using "1.IH" [OF i rd [symmetric] Got] False consumed Got by auto
      qed
    qed
  qed
qed

lemma readlineFromSocket_ends:
  "readlineFromSocket d buf mx r0 \<noteq> hang"
  "readlineFromSocket d buf mx r0 = ret (n, buf', r, d') \<Longrightarrow> d \<noteq> Bad_Fd \<Longrightarrow> 1 < mx \<Longrightarrow>
     descriptor_kind d' = descriptor_kind d \<and> (n \<noteq> recv_nodata \<longrightarrow> pending_input d' < pending_input d)"
  using readline_loop_ends [of mx 1 True "buf[0 := r0]" d n buf' r d']
    readline_loop_ends [of mx 0 True buf d n buf' r d']
  by (auto simp: readlineFromSocket_def split: if_splits)

lemma readline_loop_rest:
  "readline_loop mx i beginning buf (File_In cs) = ret (n, buf', r, d) \<Longrightarrow>
   \<exists>used rest. cs = used @ rest \<and> d = File_In rest"
proof (induction cs arbitrary: i beginning buf)
  case Nil
  then show ?case by (auto simp: readline_loop.simps [of mx i] end_of_line_def split: if_splits)
next
  case (Cons c cs)
  show ?case
  proof (cases "i < mx \<and> c \<noteq> LF \<and> c \<noteq> CR")
    case True
    then have "readline_loop mx (Suc i) False (buf[i := c]) (File_In cs) = ret (n, buf', r, d)"
      using Cons.prems by (auto simp: readline_loop.simps [of mx i] split: if_splits)
    from Cons.IH [OF this] show ?thesis by (metis append_Cons)
  next
    case False
    then have "d = File_In (c # cs) \<or> d = File_In cs"
      using Cons.prems by (auto simp: readline_loop.simps [of mx i] end_of_line_def split: if_splits)
    then show ?thesis by (metis append_Cons append_Nil)
  qed
qed

lemma readline_rest:
  assumes "readline (File_In (drop off cs)) buf mx = ret (len, buf', d)"
  shows "d = File_In (drop (length cs - pending_input d) cs)"
proof -
  from assms obtain r where "readlineFromSocket (File_In (drop off cs)) buf mx NUL = ret (len, buf', r, d)"
    by (auto simp: readline_def bind_run_ret_iff)
  then obtain used rest where u: "drop off cs = used @ rest" "d = File_In rest"
    using readline_loop_rest [of mx 0 True buf "drop off cs" len buf' r d]
    by (auto simp: readlineFromSocket_def)
  then have "cs = (take off cs @ used) @ rest" by (metis append_assoc append_take_drop_id)
  then have "drop (length cs - length rest) cs = rest" by (metis append_eq_conv_conj diff_add_inverse2 length_append)
  with u(2) show ?thesis by simp
qed

section \<open>Opening connections\<close>

text \<open>
  The host's network calls are the fields of \<open>net\<close>: name resolution, the descriptor a
  fresh \<open>socket\<close> gets (negative on failure), the result of \<open>connect\<close> and \<open>bind\<close> for the
  port as it is put into the address (network byte order) and of \<open>listen\<close>. Every function
  returns its result with the descriptors it closed.
\<close>

record net =
  resolves :: "bytes \<Rightarrow> bool"
  service_port :: "bytes \<Rightarrow> 16 word option"
  new_socket :: int
  connect_rc :: "bytes \<Rightarrow> 16 word \<Rightarrow> int"
  bind_rc :: "nat \<Rightarrow> 16 word \<Rightarrow> int"
  listen_rc :: "int \<Rightarrow> int"

definition err_host :: int where "err_host = -1"
definition err_sock :: int where "err_sock = -2"
definition err_connect :: int where "err_connect = -3"
definition err_proto :: int where "err_proto = -4"
definition err_bind :: int where "err_bind = -5"
definition err_listen :: int where "err_listen = -6"

definition htons :: "16 word \<Rightarrow> 16 word" where
  \<comment> \<open>on a little-endian host: the two bytes exchanged\<close>
  "htons w = push_bit 8 w + drop_bit 8 w"

definition atoi :: "bytes \<Rightarrow> int" where
  "atoi s = (case strtol10 s of None \<Rightarrow> 0 | Some v \<Rightarrow> v)"

definition port_of :: "int \<Rightarrow> 16 word" where
  \<comment> \<open>the conversion to \<open>unsigned short\<close>\<close>
  "port_of p = word_of_int p"

definition connectbyportint :: "net \<Rightarrow> bytes \<Rightarrow> 16 word \<Rightarrow> int \<times> int list" where
  "connectbyportint w host port =
     (if \<not> resolves w host then (err_host, [])
      else let sin_port = htons port; sd = new_socket w in
        if sd < 0 then (err_sock, [])
        else if connect_rc w host sin_port < 0 then (err_connect, [sd])
        else (sd, []))"

definition connectbyport :: "net \<Rightarrow> bytes \<Rightarrow> bytes \<Rightarrow> int \<times> int list" where
  "connectbyport w host port = connectbyportint w host (port_of (atoi port))"

definition connectbyservice :: "net \<Rightarrow> bytes \<Rightarrow> bytes \<Rightarrow> int \<times> int list" where
  "connectbyservice w host service =
     (case service_port w service of
        None \<Rightarrow> (err_proto, [])
      | Some s_port \<Rightarrow> connectbyportint w host s_port)"

definition INADDR_ANY :: nat where "INADDR_ANY = 0"
definition INADDR_LOOPBACK :: nat where "INADDR_LOOPBACK = 2130706433"

definition passivesockaux :: "net \<Rightarrow> 16 word \<Rightarrow> int \<Rightarrow> nat \<Rightarrow> int \<times> int list" where
  "passivesockaux w port backlog ip_addr =
     (let sin_port = htons port; sd = new_socket w in
      if sd < 0 then (err_sock, [])
      else if bind_rc w ip_addr sin_port < 0 then (err_bind, [sd])
      else if listen_rc w backlog < 0 then (err_listen, [sd])
      else (sd, []))"

definition passivesocket :: "net \<Rightarrow> 16 word \<Rightarrow> int \<Rightarrow> int \<times> int list" where
  "passivesocket w port backlog = passivesockaux w port backlog INADDR_ANY"

definition controlsocket :: "net \<Rightarrow> 16 word \<Rightarrow> int \<Rightarrow> int \<times> int list" where
  "controlsocket w port backlog = passivesockaux w port backlog INADDR_LOOPBACK"

definition passivesocketstr :: "net \<Rightarrow> bytes \<Rightarrow> int \<Rightarrow> int \<times> int list" where
  "passivesocketstr w port backlog = passivesocket w (port_of (atoi port)) backlog"

definition passivesocketserv :: "net \<Rightarrow> bytes \<Rightarrow> int \<Rightarrow> int \<times> int list" where
  "passivesocketserv w service backlog =
     (case service_port w service of
        None \<Rightarrow> (err_proto, [])
      | Some s_port \<Rightarrow> passivesocket w s_port backlog)"

definition createMasterSocket :: "net \<Rightarrow> int \<Rightarrow> int" where
  \<comment> \<open>\<open>utilities.cpp\<close>: the port is narrowed to 16 bits at the call\<close>
  "createMasterSocket w port =
     (let sd = fst (passivesocket w (port_of port) 32) in if sd < 0 then 1 else sd)"

definition createSocket :: "net \<Rightarrow> bytes \<Rightarrow> bytes \<Rightarrow> int" where
  \<comment> \<open>\<open>peer-communication.cpp\<close>\<close>
  "createSocket w peerHost peerPort =
     (let socketId = fst (connectbyport w peerHost peerPort) in
      if socketId = err_host then -1 else if socketId < 0 then -1 else socketId)"

lemmas err_defs =
  err_host_def err_sock_def err_connect_def err_proto_def err_bind_def err_listen_def

lemmas socket_setup_defs =
  connectbyportint_def connectbyport_def connectbyservice_def passivesockaux_def
  passivesocket_def controlsocket_def passivesocketstr_def passivesocketserv_def

section \<open>Properties\<close>

text \<open>\<open>readlineFromSocket\<close> returns the line, with the byte kept back by the previous call in
  front, whatever mixture of carriage returns and line feeds ends it; a byte that follows the
  terminator at once is kept back for the next call, and nothing else is consumed.\<close>

theorem readline_any_terminator:
  assumes "plain (residue_prefix r @ l)" "t \<noteq> []" "set t \<subseteq> {CR, LF}"
    and "Suc (length l) < mx" "mx \<le> length buf"
    and "c \<noteq> CR" "c \<noteq> LF"
  shows "readlineFromSocket (Sock_In (map Byte (l @ t) @ Byte c # es)) buf mx r =
      ret (int (length (residue_prefix r @ l)), put_line 0 buf (residue_prefix r @ l), c, Sock_In es) \<and>
    readlineFromSocket (Sock_In (map Byte (l @ t) @ Gap # es)) buf mx r =
      ret (int (length (residue_prefix r @ l)), put_line 0 buf (residue_prefix r @ l), NUL, Sock_In (Gap # es))"
  using readlineFromSocket_line [OF assms(1-5), of "Byte c # es"]
    readlineFromSocket_line [OF assms(1-5), of "Gap # es"] assms(6,7)
  by (simp add: drain_terminator_sock)

theorem readline_any_terminator_witness:
  "readlineFromSocket (Sock_In (map Byte (''EAD 1'' @ [CR, LF, LF]) @ Byte (CHR ''Q'') # [Byte (CHR ''U'')]))
     (replicate 256 NUL) 255 (CHR ''R'') =
   ret (6, put_line 0 (replicate 256 NUL) ''READ 1'', CHR ''Q'', Sock_In [Byte (CHR ''U'')])"
  using readline_any_terminator [of "CHR ''R''" "''EAD 1''" "[CR, LF, LF]" 255 "replicate 256 NUL"
      "CHR ''Q''" "[Byte (CHR ''U'')]"]
  by (simp add: residue_prefix_def)

text \<open>No descriptor leaks while a connection is opened: each function closes exactly the socket
  it made when a later step fails, and none when it succeeds.\<close>

theorem socket_setup_closes_on_failure:
  assumes "0 \<le> new_socket w"
  shows "(case connectbyport w host port of (r, closed) \<Rightarrow>
      if 0 \<le> r then r = new_socket w \<and> closed = []
      else closed = (if resolves w host then [new_socket w] else [])) \<and>
    (case passivesocket w p backlog of (r, closed) \<Rightarrow>
      if 0 \<le> r then r = new_socket w \<and> closed = [] else closed = [new_socket w])"
  using assms
  by (auto simp: socket_setup_defs err_defs Let_def)

theorem socket_setup_closes_on_failure_witness:
  "passivesocket \<lparr>resolves = \<lambda>_. True, service_port = \<lambda>_. None, new_socket = 5, connect_rc = \<lambda>_ _. 0,
     bind_rc = \<lambda>_ _. -1, listen_rc = \<lambda>_. 0\<rparr> 9000 32 = (err_bind, [5])"
  using socket_setup_closes_on_failure [of "\<lparr>resolves = \<lambda>_. True, service_port = \<lambda>_. None, new_socket = 5,
     connect_rc = \<lambda>_ _. 0, bind_rc = \<lambda>_ _. -1, listen_rc = \<lambda>_. 0\<rparr>" "[]" "[]" 9000 32]
  by (simp add: socket_setup_defs err_defs)

end
