(* ===== verification/Posix_Files.thy ===== *)
theory Posix_Files
  imports Tcp_Utils
begin

text \<open>
  Regular files as the program uses them: a byte list with the access rights of the process,
  and the effect of \<open>read\<close>, \<open>write\<close>, \<open>lseek\<close> and \<open>ftruncate\<close> at a file offset. Writing past
  the end fills the hole with zero bytes; a seek to a negative offset fails and leaves the
  offset alone. Local files are read and written completely, as POSIX promises for regular files.
\<close>

record disk_file =
  content :: bytes
  readable :: bool
  writable :: bool

definition open_read :: "disk_file \<Rightarrow> descriptor" where
  \<comment> \<open>\<open>open(file, O_RDONLY, ...)\<close>\<close>
  "open_read f = (if readable f then File_In (content f) else Bad_Fd)"

definition pread :: "bytes \<Rightarrow> nat \<Rightarrow> nat \<Rightarrow> bytes" where
  "pread f pos n = take n (drop pos f)"

definition pwrite :: "bytes \<Rightarrow> nat \<Rightarrow> bytes \<Rightarrow> bytes" where
  "pwrite f pos bs =
     (if bs = [] then f
      else take pos (f @ replicate (pos - length f) NUL) @ bs @ drop (pos + length bs) f)"

definition ftruncate :: "bytes \<Rightarrow> int \<Rightarrow> bytes" where
  \<comment> \<open>a negative length is \<open>EINVAL\<close> and changes nothing\<close>
  "ftruncate f n =
     (if n < 0 then f else take (nat n) f @ replicate (nat n - length f) NUL)"

datatype whence = SEEK_SET | SEEK_CUR | SEEK_END

definition lseek :: "bytes \<Rightarrow> nat \<Rightarrow> int \<Rightarrow> whence \<Rightarrow> int \<times> nat" where
  \<comment> \<open>the result of the call and the offset after it\<close>
  "lseek f pos offset wh =
     (let target = (case wh of SEEK_SET \<Rightarrow> 0 | SEEK_CUR \<Rightarrow> int pos | SEEK_END \<Rightarrow> int (length f)) + offset
      in if target < 0 then (-1, pos) else (target, nat target))"

lemma length_pwrite [file_simps]:
  "length (pwrite f pos bs) = (if bs = [] then length f else max (length f) (pos + length bs))"
  by (auto simp: pwrite_def min_def max_def)

lemma nth_pwrite [file_simps]:
  "i < length (pwrite f pos bs) \<Longrightarrow>
   pwrite f pos bs ! i =
     (if pos \<le> i \<and> i < pos + length bs then bs ! (i - pos)
      else if i < length f then f ! i else NUL)"
  by (auto simp: pwrite_def nth_append min_def split: if_splits)

lemma pwrite_at_end: "pwrite f (length f) bs = f @ bs"
  by (simp add: pwrite_def)

lemma pwrite_inside:
  "pos + length bs \<le> length f \<Longrightarrow> pwrite f pos bs = take pos f @ bs @ drop (pos + length bs) f"
  by (auto simp: pwrite_def)

lemma pwrite_before:
  "pwrite (pwrite f (pos + length bs) cs) pos bs = pwrite f pos (bs @ cs)"
  by (rule nth_equalityI) (auto simp: file_simps nth_append)

lemma ftruncate_shorter: "n \<le> length f \<Longrightarrow> ftruncate f (int n) = take n f"
  by (simp add: ftruncate_def)

lemma ftruncate_append [simp]: "ftruncate (f @ g) (int (length f)) = f"
  by (simp add: ftruncate_def)

section \<open>Text files\<close>

definition lines_text :: "bytes list \<Rightarrow> bytes" where
  "lines_text ls = concat (map (\<lambda>l. l @ [LF]) ls)"

lemma lines_text_simps [simp]:
  "lines_text [] = []" "lines_text (l # ls) = l @ LF # lines_text ls"
  by (simp_all add: lines_text_def)

lemma lines_text_append [simp]: "lines_text (ls @ ls') = lines_text ls @ lines_text ls'"
  by (simp add: lines_text_def)

lemma lines_text_split:
  "k < length ls \<Longrightarrow>
   lines_text ls = lines_text (take k ls) @ ls ! k @ LF # lines_text (drop (Suc k) ls)"
  by (metis id_take_nth_drop lines_text_append lines_text_simps(2))

end
