(* ===== verification/Line_Scanning.thy ===== *)
theory Line_Scanning
  imports Posix_Files
begin

text \<open>
  Four loops of \<open>file-operations.cpp\<close> read the bulletin board file line by line until
  \<open>readline\<close> reports \<open>recv_nodata\<close> and leave early at the line they look for. The locale
  states their common shape; its lemmas say what such a loop does on a file made of lines,
  and each loop is an interpretation in the theory that defines it.
\<close>

definition readable_line :: "bytes \<Rightarrow> bool" where
  \<comment> \<open>what \<open>readline\<close> returns in one piece with a buffer of 256 bytes\<close>
  "readable_line l \<longleftrightarrow> plain l \<and> length l < 255"

lemma readline_line:
  "readable_line l \<Longrightarrow> length buf = 256 \<Longrightarrow>
   readline (File_In (l @ LF # cs)) buf 255 = ret (int (length l), put_line 0 buf l, File_In cs)"
  by (simp add: readable_line_def readline_file)

lemma length_put_readable: "readable_line l \<Longrightarrow> length buf = 256 \<Longrightarrow> length (put_line 0 buf l) = 256"
  by (simp add: readable_line_def length_put_line)

lemma cstr_put_readable: "readable_line l \<Longrightarrow> cstr (put_line 0 buf l) = l"
  by (simp add: readable_line_def plain_def)

locale line_scan =
  fixes scan :: "descriptor \<Rightarrow> bytes \<Rightarrow> 's \<Rightarrow> 'r run"
    and on_line :: "'s \<Rightarrow> int \<Rightarrow> bytes \<Rightarrow> 'r run + 's"
    and on_end :: "'s \<Rightarrow> 'r run"
  assumes scan_eq: "scan d buf s =
    (case readline d buf 255 of
       None \<Rightarrow> None
     | Some (Inl f) \<Rightarrow> Some (Inl f)
     | Some (Inr (n, buf', d')) \<Rightarrow>
         if n = recv_nodata then on_end s
         else (case on_line s n buf' of Inl r \<Rightarrow> r | Inr s' \<Rightarrow> scan d' buf' s'))"
begin

lemma scan_end: "scan (File_In (lines_text [])) buf s = on_end s"
  by (subst scan_eq) (simp add: readline_file_end)

lemma scan_line:
  "readable_line l \<Longrightarrow> length buf = 256 \<Longrightarrow>
   scan (File_In (lines_text (l # ls))) buf s =
     (case on_line s (int (length l)) (put_line 0 buf l) of
        Inl r \<Rightarrow> r
      | Inr s' \<Rightarrow> scan (File_In (lines_text ls)) (put_line 0 buf l) s')"
  by (subst scan_eq) (simp add: readline_line recv_nodata_def)

lemma scan_skip:
  assumes "\<And>l. l \<in> set ls \<Longrightarrow> readable_line l" and "length buf = 256" and "k \<le> length ls" and "P 0 s"
    and "\<And>i s b. i < k \<Longrightarrow> P i s \<Longrightarrow> cstr b = ls ! i \<Longrightarrow>
           \<exists>s'. on_line s (int (length (ls ! i))) b = Inr s' \<and> P (Suc i) s'"
  shows "\<exists>buf' s'. length buf' = 256 \<and> P k s' \<and>
           scan (File_In (lines_text ls)) buf s = scan (File_In (lines_text (drop k ls))) buf' s'"
  using assms
proof (induction k arbitrary: ls buf s P)
  case 0
  then show ?case by auto
next
  case (Suc k)
  from Suc.prems(3) obtain l ls' where ls: "ls = l # ls'" by (cases ls) auto
  then have l: "readable_line l" using Suc.prems(1) by simp
  let ?buf = "put_line 0 buf l"
  have "cstr ?buf = ls ! 0" using l by (simp add: cstr_put_readable ls)
  then obtain s1 where s1: "on_line s (int (length l)) ?buf = Inr s1" "P (Suc 0) s1"
    using Suc.prems(5) [of 0 s ?buf] Suc.prems(4) ls by auto
  have "\<exists>buf' s'. length buf' = 256 \<and> P (Suc k) s' \<and>
      scan (File_In (lines_text ls')) ?buf s1 = scan (File_In (lines_text (drop k ls'))) buf' s'"
  proof (rule Suc.IH [where P = "\<lambda>i. P (Suc i)"])
    show "\<And>l. l \<in> set ls' \<Longrightarrow> readable_line l" using Suc.prems(1) ls by simp
    show "length ?buf = 256" using l Suc.prems(2) by (rule length_put_readable)
    show "k \<le> length ls'" using Suc.prems(3) ls by simp
    show "P (Suc 0) s1" by (rule s1)
    fix i s b
    assume "i < k" "P (Suc i) s" "cstr b = ls' ! i"
    then show "\<exists>s'. on_line s (int (length (ls' ! i))) b = Inr s' \<and> P (Suc (Suc i)) s'"
      using Suc.prems(5) [of "Suc i" s b] ls by auto
  qed
  then show ?case using scan_line [OF l Suc.prems(2)] s1 by (simp add: ls)
qed

text \<open>A loop over any file ends.\<close>

lemma scan_ends:
  assumes line: "\<And>s n b r. on_line s n b = Inl r \<Longrightarrow> r \<noteq> hang" and "\<And>s. on_end s \<noteq> hang"
  shows "scan (File_In cs) buf s \<noteq> hang"
proof (induction cs arbitrary: buf s rule: length_induct)
  case (1 cs)
  show ?case
  proof (cases "readlineFromSocket (File_In cs) buf 255 NUL")
    case None
    then show ?thesis using readlineFromSocket_ends(1) by blast
  next
    case (Some o')
    show ?thesis
    proof (cases o')
      case (Inl f)
      with Some show ?thesis by (subst scan_eq) (simp add: readline_def)
    next
      case (Inr t)
      obtain n buf' r d' where t: "t = (n, buf', r, d')" by (cases t) auto
      have rd: "readline (File_In cs) buf 255 = ret (n, buf', d')"
        using Some Inr t by (simp add: readline_def)
      have d': "descriptor_kind d' = 0" "n \<noteq> recv_nodata \<longrightarrow> pending_input d' < length cs"
        using readlineFromSocket_ends(2) [of "File_In cs" buf 255 NUL n buf' r d'] Some Inr t by auto
      then obtain cs' where cs': "d' = File_In cs'" by (cases d') auto
      show ?thesis
        using "1.IH" d'(2) assms cs' line
        by (subst scan_eq) (auto simp: rd split: sum.splits)
    qed
  qed
qed

text \<open>A loop that stops at line \<open>k\<close>, and one that reaches the end.\<close>

lemma scan_finds:
  assumes "\<And>l. l \<in> set ls \<Longrightarrow> readable_line l" "length buf = 256" "k < length ls" "P 0 s"
    and "\<And>i s b. i < k \<Longrightarrow> P i s \<Longrightarrow> cstr b = ls ! i \<Longrightarrow>
           \<exists>s'. on_line s (int (length (ls ! i))) b = Inr s' \<and> P (Suc i) s'"
    and "\<And>s b. P k s \<Longrightarrow> cstr b = ls ! k \<Longrightarrow> on_line s (int (length (ls ! k))) b = Inl (r b)"
  obtains b where "cstr b = ls ! k" "scan (File_In (lines_text ls)) buf s = r b"
proof -
  obtain buf' s' where b: "length buf' = 256" "P k s'"
      "scan (File_In (lines_text ls)) buf s = scan (File_In (lines_text (drop k ls))) buf' s'"
    using scan_skip [OF assms(1,2) _ assms(4,5)] assms(3) by (metis less_imp_le)
  have l: "readable_line (ls ! k)" using assms(1,3) by simp
  let ?b = "put_line 0 buf' (ls ! k)"
  have "cstr ?b = ls ! k" using l by (rule cstr_put_readable)
  moreover have "scan (File_In (lines_text ls)) buf s = r ?b"
    using scan_line [OF l b(1)] assms(6) [OF b(2) calculation]
    unfolding b(3) drop_as_Cons [OF assms(3)] by simp
  ultimately show ?thesis by (rule that)
qed

lemma scan_exhausts:
  assumes "\<And>l. l \<in> set ls \<Longrightarrow> readable_line l" "length buf = 256" "P 0 s"
    and "\<And>i s b. i < length ls \<Longrightarrow> P i s \<Longrightarrow> cstr b = ls ! i \<Longrightarrow>
           \<exists>s'. on_line s (int (length (ls ! i))) b = Inr s' \<and> P (Suc i) s'"
  obtains s' where "P (length ls) s'" "scan (File_In (lines_text ls)) buf s = on_end s'"
proof -
  have "\<exists>buf' s'. length buf' = 256 \<and> P (length ls) s' \<and>
      scan (File_In (lines_text ls)) buf s = scan (File_In (lines_text (drop (length ls) ls))) buf' s'"
    by (rule scan_skip) (use assms in auto)
  then show ?thesis using that scan_end by auto
qed

end

end
