(* ===== verification/Replace_Algorithm.thy ===== *)
theory Replace_Algorithm
  imports Line_Scanning
begin

text \<open>
  \<open>optimalReplaceAlgorithm\<close> of \<open>file-operations.cpp\<close>: one line of the bulletin board file is
  replaced in place, byte by byte, through two descriptors on the same file. The three cases
  of the code (same length, shift backward and truncate, shift forward) are shown to be one
  specification, \<open>splice\<close>.
\<close>

section \<open>Finding the line\<close>

partial_function (option) obtain_length_loop ::
    "descriptor \<Rightarrow> bytes \<Rightarrow> int \<Rightarrow> int \<Rightarrow> int \<Rightarrow> (int \<times> int) run" where
  \<comment> \<open>the loop of \<open>obtainLengthOfLineToBeReplaced\<close>: line counter \<open>l\<close> and the bytes before
      the line; \<open>assert(false)\<close> at the end of the file\<close>
  "obtain_length_loop d textLine messageNumberToReplace l before =
     (case readline d textLine 255 of
        None \<Rightarrow> None
      | Some (Inl f) \<Rightarrow> Some (Inl f)
      | Some (Inr (n, textLine', d')) \<Rightarrow>
          if n = recv_nodata then crash Assertion_Failed
          else if l = messageNumberToReplace then ret (n + 1, before)
          else obtain_length_loop d' textLine' messageNumberToReplace (l + 1)
                 (if l < messageNumberToReplace then before + (n + 1) else before))"

definition obtainLengthOfLineToBeReplaced :: "disk_file \<Rightarrow> int \<Rightarrow> int \<Rightarrow> (int \<times> int) run" where
  \<comment> \<open>the length of the line and the new value of \<open>totalBytesBeforeLineToReplace\<close>\<close>
  "obtainLengthOfLineToBeReplaced f messageNumberToReplace totalBytesBeforeLineToReplace =
     obtain_length_loop (open_read f) (replicate 256 NUL) messageNumberToReplace 0
       totalBytesBeforeLineToReplace"

section \<open>Rewriting the file\<close>

function shift_backward :: "int \<Rightarrow> bytes \<Rightarrow> nat \<Rightarrow> nat \<Rightarrow> bytes" where
  \<comment> \<open>case 2: copies one byte at a time from the reader's offset to the writer's until the
      file has its new size; a read at the end leaves the zeroed buffer\<close>
  "shift_backward fileSizeAfterReplacement f rd currentWriterPosition =
     (if int currentWriterPosition < fileSizeAfterReplacement then
        let got = pread f rd 1;
            readOutput = (if got = [] then NUL else hd got);
            f' = pwrite f currentWriterPosition [readOutput]
        in shift_backward fileSizeAfterReplacement f' (rd + length got) (currentWriterPosition + 1)
      else f)"
  by pat_completeness auto
termination
  by (relation "measure (\<lambda>(n, f, rd, wr). nat (n - int wr))") auto

declare shift_backward.simps [simp del]

function shift_forward :: "nat \<Rightarrow> bytes \<Rightarrow> nat \<Rightarrow> int \<Rightarrow> nat \<Rightarrow> bytes" where
  \<comment> \<open>case 3: copies one byte at a time backwards from the end of the file; \<open>rd\<close> and \<open>wr\<close>
      are the offsets of the two descriptors, \<open>currentReaderPosition\<close> the last result of
      \<open>lseek\<close> on the reader\<close>
  "shift_forward temp f rd currentReaderPosition wr =
     (if int temp \<le> currentReaderPosition then
        let got = pread f rd 1;
            readOutput = (if got = [] then NUL else hd got);
            f' = pwrite f wr [readOutput];
            (currentReaderPosition', rd') = lseek f' (rd + length got) (-2) SEEK_CUR;
            (_, wr') = lseek f' (wr + 1) (-2) SEEK_CUR
        in shift_forward temp f' rd' currentReaderPosition' wr'
      else f)"
  by pat_completeness auto
termination
  by (relation "measure (\<lambda>(temp, f, rd, cur, wr). if cur < 0 then 0 else Suc rd)")
     (auto simp: lseek_def pread_def Let_def split: if_splits)

declare shift_forward.simps [simp del]

definition rewrite_line :: "bytes \<Rightarrow> nat \<Rightarrow> nat \<Rightarrow> bytes \<Rightarrow> bytes" where
  \<comment> \<open>the body of \<open>optimalReplaceAlgorithm\<close> on a writable file, once the position and the
      length of the old line are known\<close>
  "rewrite_line f totalBytesBeforeLineToReplace lengthOfLineToBeReplaced lineToStore =
     (if lengthOfLineToBeReplaced = length lineToStore then
        pwrite f totalBytesBeforeLineToReplace lineToStore
      else
        let differenceInLength = int (length lineToStore) - int lengthOfLineToBeReplaced in
        if differenceInLength < 0 then
          let rd = totalBytesBeforeLineToReplace + lengthOfLineToBeReplaced;
              f1 = pwrite f totalBytesBeforeLineToReplace lineToStore;
              currentWriterPosition = totalBytesBeforeLineToReplace + length lineToStore;
              fileSizeAfterReplacement = int (length f1) + differenceInLength;
              f2 = shift_backward fileSizeAfterReplacement f1 rd currentWriterPosition
          in ftruncate f2 fileSizeAfterReplacement
        else
          let (currentReaderPosition, rd) = lseek f 0 (-1) SEEK_END;
              (_, wr) = lseek f 0 (differenceInLength - 1) SEEK_END;
              temp = totalBytesBeforeLineToReplace + lengthOfLineToBeReplaced;
              f1 = shift_forward temp f rd currentReaderPosition wr
          in pwrite f1 totalBytesBeforeLineToReplace lineToStore)"

definition optimalReplaceAlgorithm ::
    "disk_file \<Rightarrow> bytes \<Rightarrow> int \<Rightarrow> bytes \<Rightarrow> disk_file run" where
  \<comment> \<open>with no write access every write fails; the shrinking case then reads the size of the
      file from a \<open>stat\<close> buffer nothing was written to\<close>
  "optimalReplaceAlgorithm f newUser messageNumberToReplace new_message =
     (let lineToStore =
        snprintf 4096 (to_string messageNumberToReplace @ [SLASH] @ cstr newUser @ [SLASH] @
                       cstr new_message @ [LF])
      in bind_run (obtainLengthOfLineToBeReplaced f messageNumberToReplace 0)
        (\<lambda>(lengthOfLineToBeReplaced, totalBytesBeforeLineToReplace).
          if writable f then
            ret (f\<lparr>content := rewrite_line (content f) (nat totalBytesBeforeLineToReplace)
                                (nat lengthOfLineToBeReplaced) lineToStore\<rparr>)
          else if int (length lineToStore) < lengthOfLineToBeReplaced
          then crash Uninitialised_Read
          else ret f))"

section \<open>What the rewriting computes\<close>

definition splice :: "bytes \<Rightarrow> nat \<Rightarrow> nat \<Rightarrow> bytes \<Rightarrow> bytes" where
  "splice f off len line = take off f @ line @ drop (off + len) f"

lemma pread_one: "rd < length f \<Longrightarrow> pread f rd 1 = [f ! rd]"
  by (simp add: pread_def take_Suc hd_drop_conv_nth drop_Suc [symmetric])

lemma shift_backward_moves:
  "wr \<le> rd \<Longrightarrow> rd + k = length f \<Longrightarrow>
   shift_backward (int (wr + k)) f rd wr = take wr f @ drop rd f @ drop (wr + k) f"
proof (induction k arbitrary: f rd wr)
  case 0
  then show ?case by (simp add: shift_backward.simps)
next
  case (Suc k)
  let ?f' = "pwrite f wr [f ! rd]"
  have f': "?f' = take wr f @ [f ! rd] @ drop (Suc wr) f"
    using Suc.prems by (subst pwrite_inside) auto
  have "shift_backward (int (wr + Suc k)) f rd wr = shift_backward (int (Suc wr + k)) ?f' (Suc rd) (Suc wr)"
    using Suc.prems by (subst shift_backward.simps) (simp add: pread_one [simplified])
  also have "\<dots> = take (Suc wr) ?f' @ drop (Suc rd) ?f' @ drop (Suc wr + k) ?f'"
    using Suc.prems by (intro Suc.IH) (auto simp: file_simps)
  also have "\<dots> = take wr f @ drop rd f @ drop (wr + Suc k) f"
    using Suc.prems drop_as_Cons [of rd f] by (simp add: f' Suc_diff_le ac_simps)
  finally show ?case .
qed

lemma lseek_back2:
  "lseek f (Suc p) (-2) SEEK_CUR = (if p = 0 then (-1, 1) else (int (p - 1), p - 1))"
  by (auto simp: lseek_def Let_def)

lemma shift_forward_moves:
  "temp + m \<le> length f \<Longrightarrow> 0 < d \<Longrightarrow>
   (if m = 0 then cur < int temp else cur = int rd \<and> Suc rd = temp + m \<and> wr = rd + d) \<Longrightarrow>
   shift_forward temp f rd cur wr = pwrite f (temp + d) (take m (drop temp f))"
proof (induction m arbitrary: f rd cur wr)
  case 0
  then show ?case by (simp add: shift_forward.simps pwrite_def)
next
  case (Suc m)
  then have rd: "rd = temp + m" "cur = int rd" "wr = temp + m + d" and lt: "temp + m < length f"
    by auto
  let ?c = "f ! (temp + m)"
  let ?f' = "pwrite f (temp + m + d) [?c]"
  let ?cur' = "if temp + m = 0 then -1 else int (temp + m - 1)"
  have "shift_forward temp f rd cur wr = shift_forward temp ?f' (if temp + m = 0 then 1 else temp + m - 1) ?cur'
      (temp + m + d - 1)"
    using Suc.prems(2) lt unfolding rd
    by (subst shift_forward.simps) (auto simp: pread_one [simplified] lseek_back2)
  also have "\<dots> = pwrite ?f' (temp + d) (take m (drop temp ?f'))"
    using Suc.prems(1,2) by (intro Suc.IH) (auto simp: file_simps)
  also have "take m (drop temp ?f') = take m (drop temp f)"
    using Suc.prems(1,2) by (intro nth_equalityI) (auto simp: file_simps)
  also have "pwrite ?f' (temp + d) (take m (drop temp f)) =
      pwrite f (temp + d) (take m (drop temp f) @ [?c])"
    using pwrite_before [of f "temp + d" "take m (drop temp f)" "[?c]"] lt
    by (simp add: ac_simps)
  also have "take m (drop temp f) @ [?c] = take (Suc m) (drop temp f)"
    using lt by (simp add: take_Suc_conv_app_nth)
  finally show ?case .
qed

lemma pwrite_around:
  assumes "off + len \<le> length f" "len < length line"
  shows "pwrite (pwrite f (off + length line) (drop (off + len) f)) off line = splice f off len line"
proof -
  let ?tail = "drop (off + len) f"
  have "pwrite (pwrite f (off + length line) ?tail) off line = pwrite f off (line @ ?tail)"
    by (rule pwrite_before)
  also have "\<dots> = splice f off len line"
    using assms by (auto simp: pwrite_def splice_def)
  finally show ?thesis .
qed

lemma rewrite_line_splice:
  assumes "off + len \<le> length f" and "line \<noteq> []"
  shows "rewrite_line f off len line = splice f off len line"
proof -
  consider (same) "len = length line" | (shorter) "length line < len" | (longer) "len < length line"
    by linarith
  then show ?thesis
  proof cases
    case same
    with assms show ?thesis by (simp add: rewrite_line_def pwrite_inside splice_def)
  next
    case shorter
    let ?f1 = "pwrite f off line"
    let ?k = "length f - (off + len)"
    have f1: "?f1 = take off f @ line @ drop (off + length line) f"
      using assms shorter by (intro pwrite_inside) auto
    then have len1: "length ?f1 = length f" using assms shorter by simp
    have size: "int (length ?f1) + (int (length line) - int len) = int (off + length line + ?k)"
      using assms shorter len1 by simp
    have "shift_backward (int (off + length line + ?k)) ?f1 (off + len) (off + length line) =
        take (off + length line) ?f1 @ drop (off + len) ?f1 @ drop (off + length line + ?k) ?f1"
      using assms shorter len1 by (intro shift_backward_moves) auto
    moreover have "take (off + length line) ?f1 = take off f @ line"
      using assms shorter by (simp add: f1)
    moreover have "drop (off + len) ?f1 = drop (off + len) f"
      using assms shorter by (simp add: f1 add.commute)
    ultimately have "ftruncate (shift_backward (int (off + length line + ?k)) ?f1 (off + len) (off + length line))
        (int (off + length line + ?k)) = take off f @ line @ drop (off + len) f"
      using assms shorter by (subst ftruncate_shorter) auto
    then show ?thesis
      unfolding size [symmetric] using shorter by (simp add: rewrite_line_def splice_def Let_def)
  next
    case longer
    let ?d = "length line - len"
    let ?temp = "off + len"
    let ?m = "length f - ?temp"
    obtain cur rd where cr: "lseek f 0 (-1) SEEK_END = (cur, rd)" by force
    have d: "0 < ?d" using longer by simp
    define wr where "wr = length f + ?d - 1"
    have wr: "lseek f 0 (int (length line) - int len - 1) SEEK_END = (int wr, wr)"
        "Suc wr = length f + ?d"
      using longer by (auto simp: lseek_def Let_def wr_def)
    have "shift_forward ?temp f rd cur wr = pwrite f (?temp + ?d) (take ?m (drop ?temp f))"
      using assms(1) d cr wr(2)
      by (intro shift_forward_moves) (auto simp: lseek_def Let_def split: if_splits)
    moreover have "?temp + ?d = off + length line" using longer by simp
    ultimately have "pwrite (shift_forward ?temp f rd cur wr) off line = splice f off len line"
      using pwrite_around [OF assms(1) longer] by simp
    with longer show ?thesis by (simp add: rewrite_line_def Let_def wr(1) cr)
  qed
qed

section \<open>Files made of lines\<close>

definition obtain_on_line :: "int \<Rightarrow> int \<times> int \<Rightarrow> int \<Rightarrow> bytes \<Rightarrow> (int \<times> int) run + int \<times> int" where
  "obtain_on_line target s n buf =
     (case s of (l, before) \<Rightarrow>
        if l = target then Inl (ret (n + 1, before))
        else Inr (l + 1, if l < target then before + (n + 1) else before))"

interpretation obtain_length: line_scan
  "\<lambda>d buf s. obtain_length_loop d buf target (fst s) (snd s)" "obtain_on_line target"
  "\<lambda>s. crash Assertion_Failed" for target
  by unfold_locales
     (subst obtain_length_loop.simps,
      simp add: obtain_on_line_def split: option.splits sum.splits prod.splits)

lemma obtain_length_loop_finds:
  assumes "\<And>l. l \<in> set ls \<Longrightarrow> readable_line l" "length buf = 256" "k < length ls"
  shows "obtain_length_loop (File_In (lines_text ls)) buf (int k) 0 before =
         ret (int (length (ls ! k)) + 1, before + int (length (lines_text (take k ls))))"
proof -
  let ?P = "\<lambda>i s. s = (int i, before + int (length (lines_text (take i ls))))"
  have skip: "\<exists>s'. obtain_on_line (int k) s (int (length (ls ! i))) b = Inr s' \<and> ?P (Suc i) s'"
    if "i < k" "?P i s" for i s b
    using that assms(3) by (simp add: obtain_on_line_def take_Suc_conv_app_nth)
  show ?thesis
    by (rule obtain_length.scan_finds [OF assms(1,2,3), where P = ?P and s = "(0, before)"
          and target = "int k"
          and r = "\<lambda>b. ret (int (length (ls ! k)) + 1, before + int (length (lines_text (take k ls))))"])
       (use skip in \<open>auto simp: obtain_on_line_def\<close>)
qed

lemma obtain_length_loop_missing:
  assumes "\<And>l. l \<in> set ls \<Longrightarrow> readable_line l" "length buf = 256" "n < 0 \<or> length ls \<le> nat n"
  shows "obtain_length_loop (File_In (lines_text ls)) buf n 0 before = crash Assertion_Failed"
proof -
  have skip: "\<exists>s'. obtain_on_line n s (int (length (ls ! i))) b = Inr s' \<and> fst s' = int (Suc i)"
    if "i < length ls" "fst s = int i" for i s b
    using that assms(3) by (cases s) (auto simp: obtain_on_line_def)
  show ?thesis
    by (rule obtain_length.scan_exhausts [OF assms(1,2), where P = "\<lambda>i s. fst s = int i"
          and s = "(0, before)" and target = n])
       (use skip in auto)
qed

lemma splice_lines:
  "k < length ls \<Longrightarrow>
   splice (lines_text ls) (length (lines_text (take k ls))) (Suc (length (ls ! k))) (l @ [LF]) =
   lines_text (ls[k := l])"
proof -
  assume k: "k < length ls"
  let ?a = "lines_text (take k ls)" and ?b = "lines_text (drop (Suc k) ls)"
  have "lines_text ls = ?a @ (ls ! k @ [LF]) @ ?b"
    using lines_text_split [OF k] by simp
  moreover have "lines_text (ls[k := l]) = ?a @ (l @ [LF]) @ ?b"
    using k by (simp add: upd_conv_take_nth_drop)
  ultimately show ?thesis by (simp add: splice_def)
qed

lemma rewrite_line_lines:
  assumes "k < length ls"
  shows "rewrite_line (lines_text ls) (length (lines_text (take k ls))) (Suc (length (ls ! k)))
           (l @ [LF]) = lines_text (ls[k := l])"
proof -
  have "length (lines_text (take k ls)) + Suc (length (ls ! k)) \<le> length (lines_text ls)"
    unfolding lines_text_split [OF assms] by simp
  then show ?thesis using splice_lines [OF assms] by (simp add: rewrite_line_splice)
qed

text \<open>The line \<open>n/user/message\<close> of the file, without its newline.\<close>

definition line_of :: "int \<Rightarrow> bytes \<Rightarrow> bytes \<Rightarrow> bytes" where
  "line_of n user message = to_string n @ [SLASH] @ user @ [SLASH] @ message"

lemma optimalReplaceAlgorithm_lines:
  assumes "\<And>l. l \<in> set ls \<Longrightarrow> readable_line l" and "content f = lines_text ls"
    and "readable f" "writable f" and "0 \<le> n" "nat n < length ls"
    and "length (line_of n (cstr u) (cstr m)) < 4095"
  shows "optimalReplaceAlgorithm f u n m =
         ret (f\<lparr>content := lines_text (ls[nat n := line_of n (cstr u) (cstr m)])\<rparr>)"
proof -
  have "obtainLengthOfLineToBeReplaced f n 0 =
      ret (int (length (ls ! nat n)) + 1, int (length (lines_text (take (nat n) ls))))"
    using assms obtain_length_loop_finds [of ls "replicate 256 NUL" "nat n" 0]
    by (simp add: obtainLengthOfLineToBeReplaced_def open_read_def)
  moreover have "nat (int (length (ls ! nat n)) + 1) = Suc (length (ls ! nat n))" by simp
  ultimately show ?thesis
    using assms rewrite_line_lines [of "nat n" ls "line_of n (cstr u) (cstr m)"]
    by (simp add: optimalReplaceAlgorithm_def line_of_def)
qed

lemma optimalReplaceAlgorithm_missing:
  assumes "\<And>l. l \<in> set ls \<Longrightarrow> readable_line l" and "content f = lines_text ls"
    and "readable f" and "n < 0 \<or> length ls \<le> nat n"
  shows "optimalReplaceAlgorithm f u n m = crash Assertion_Failed"
  using assms obtain_length_loop_missing [of ls "replicate 256 NUL" n 0]
  by (simp add: optimalReplaceAlgorithm_def obtainLengthOfLineToBeReplaced_def open_read_def)

lemma obtain_length_loop_ends: "obtain_length_loop (File_In cs) buf n l k \<noteq> hang"
proof -
  have "(\<lambda>d b s. obtain_length_loop d b n (fst s) (snd s)) (File_In cs) buf (l, k) \<noteq> hang"
    by (rule obtain_length.scan_ends) (auto simp: obtain_on_line_def split: if_splits prod.splits)
  then show ?thesis by simp
qed

lemma optimalReplaceAlgorithm_ends: "readable f \<Longrightarrow> optimalReplaceAlgorithm f u n m \<noteq> hang"
  unfolding optimalReplaceAlgorithm_def obtainLengthOfLineToBeReplaced_def open_read_def Let_def
  by (rule bind_run_returns) (auto simp: obtain_length_loop_ends split: prod.splits iff del: not_None_eq)

lemma optimalReplaceAlgorithm_access:
  "optimalReplaceAlgorithm f u n m = ret f' \<Longrightarrow> readable f' = readable f \<and> writable f' = writable f"
  by (auto simp: optimalReplaceAlgorithm_def Let_def bind_run_ret_iff split: if_splits)

section \<open>Properties\<close>

text \<open>C14: the in-place rewriting of the file (overwrite, shift the rest towards the front and truncate,
  or shift the rest towards the end byte by byte from the back) is the replacement of one
  segment by the new line, whatever the lengths.\<close>

theorem rewrite_in_place_is_splice:
  assumes "off + len \<le> length f" "line \<noteq> []"
  shows "rewrite_line f off len line = take off f @ line @ drop (off + len) f"
  using rewrite_line_splice [OF assms] by (simp add: splice_def)

theorem rewrite_in_place_is_splice_witness:
  "rewrite_line ''aabbbcc'' 2 3 ''XY'' = ''aaXYcc''"
  using rewrite_in_place_is_splice [of 2 3 "''aabbbcc''" "''XY''"] by simp

text \<open>On a file of lines, \<open>optimalReplaceAlgorithm\<close> finds the line by counting, replaces it and
  leaves every other line as it is; a number that is not in the file trips its assertion.\<close>

theorem replace_algorithm_on_lines:
  assumes "\<forall>l \<in> set ls. readable_line l" "content f = lines_text ls" "readable f" "writable f"
    and "length (line_of n (cstr u) (cstr m)) < 4095"
  shows "optimalReplaceAlgorithm f u n m =
    (if 0 \<le> n \<and> n < int (length ls)
     then ret (f\<lparr>content := lines_text (ls[nat n := line_of n (cstr u) (cstr m)])\<rparr>)
     else crash Assertion_Failed)"
proof (cases "0 \<le> n \<and> n < int (length ls)")
  case True
  then have "nat n < length ls" by linarith
  with True assms show ?thesis
    using optimalReplaceAlgorithm_lines [of ls f n u m] by simp
next
  case False
  then have "n < 0 \<or> length ls \<le> nat n" by linarith
  with False assms show ?thesis
    using optimalReplaceAlgorithm_missing [of ls f n u m] by simp
qed

theorem replace_algorithm_on_lines_witness:
  "optimalReplaceAlgorithm \<lparr>content = lines_text [''0/a/x'', ''1/b/y''], readable = True, writable = True\<rparr>
     ''b'' 2 ''z'' = crash Assertion_Failed"
proof -
  have "length (line_of 2 (cstr ''b'') (cstr ''z'')) < 4095" "\<forall>l \<in> set [''0/a/x'', ''1/b/y'']. readable_line l"
    by (code_simp, simp add: readable_line_def)
  then show ?thesis
    using replace_algorithm_on_lines [of "[''0/a/x'', ''1/b/y'']"
        "\<lparr>content = lines_text [''0/a/x'', ''1/b/y''], readable = True, writable = True\<rparr>" 2 "''b''" "''z''"]
    by simp
qed

end
