(* ===== verification/Access_Lock.thy ===== *)
theory Access_Lock
  imports BB_Prelude
begin

text \<open>
  The write-preferring readers-writer lock of \<open>file-operations.cpp\<close>: the shared counters
  \<open>AccessData\<close>, the critical sections that test and change them, and the threads that run
  them. Every access to the counters happens under the mutex \<open>mut\<close> and every critical
  section ends with an unlock or with \<open>pthread_cond_wait\<close>, which releases the mutex, so one
  critical section is one step. A waiting thread is asleep until a broadcast (or a spurious
  wake-up, which POSIX allows) makes it runnable; it then tests its condition again.
\<close>

section \<open>The counters\<close>

record access_data =
  num_readers_active :: int
  num_writers_waiting :: int
  writer_active :: bool

definition initial_access :: access_data where
  "initial_access = \<lparr>num_readers_active = 0, num_writers_waiting = 0, writer_active = False\<rparr>"

definition writer_must_wait :: "access_data \<Rightarrow> bool" where
  "writer_must_wait d \<longleftrightarrow> num_readers_active d > 0 \<or> writer_active d"

definition reader_must_wait :: "access_data \<Rightarrow> bool" where
  "reader_must_wait d \<longleftrightarrow> num_writers_waiting d > 0 \<or> writer_active d"

definition announce_writer :: "access_data \<Rightarrow> access_data" where
  "announce_writer d = d\<lparr>num_writers_waiting := num_writers_waiting d + 1\<rparr>"

definition grant_writer :: "access_data \<Rightarrow> access_data" where
  "grant_writer d = d\<lparr>num_writers_waiting := num_writers_waiting d - 1, writer_active := True\<rparr>"

definition retire_writer :: "access_data \<Rightarrow> access_data" where
  "retire_writer d = d\<lparr>writer_active := False\<rparr>"

definition grant_reader :: "access_data \<Rightarrow> access_data" where
  "grant_reader d = d\<lparr>num_readers_active := num_readers_active d + 1\<rparr>"

definition retire_reader :: "access_data \<Rightarrow> access_data" where
  "retire_reader d = d\<lparr>num_readers_active := num_readers_active d - 1\<rparr>"

lemmas access_defs =
  writer_must_wait_def reader_must_wait_def announce_writer_def grant_writer_def
  retire_writer_def grant_reader_def retire_reader_def

text \<open>
  The calls as one thread sees them while no other thread runs: a lock that is not free is
  never granted.
\<close>

definition acquireWriteLock :: "access_data \<Rightarrow> access_data run" where
  "acquireWriteLock d =
     (let d1 = announce_writer d in
      if writer_must_wait d1 then hang else ret (grant_writer d1))"

definition releaseWriteLock :: "access_data \<Rightarrow> access_data" where
  "releaseWriteLock d = retire_writer d"

definition acquire_read :: "access_data \<Rightarrow> access_data run" where
  \<comment> \<open>the entry of \<open>readMessageFromFile\<close>\<close>
  "acquire_read d = (if reader_must_wait d then hang else ret (grant_reader d))"

section \<open>Threads\<close>

datatype lock_pc =
    Idle                  \<comment> \<open>outside the lock\<close>
  | W_Asleep | W_Awake    \<comment> \<open>a writer in \<open>pthread_cond_wait\<close>, before and after the wake-up\<close>
  | Writing
  | R_Asleep | R_Awake
  | Reading

record lock_state =
  shared :: access_data
  pcs :: "lock_pc list"

fun wake :: "lock_pc \<Rightarrow> lock_pc" where
  "wake W_Asleep = W_Awake"
| "wake R_Asleep = R_Awake"
| "wake p = p"

definition broadcast :: "lock_pc list \<Rightarrow> lock_pc list" where
  "broadcast ps = map wake ps"

definition writer_test :: "nat \<Rightarrow> lock_state \<Rightarrow> lock_state" where
  \<comment> \<open>the \<open>while\<close> test of \<open>acquireWriteLock\<close> and what follows it\<close>
  "writer_test t s =
     (if writer_must_wait (shared s) then s\<lparr>pcs := (pcs s)[t := W_Asleep]\<rparr>
      else s\<lparr>shared := grant_writer (shared s), pcs := (pcs s)[t := Writing]\<rparr>)"

definition writer_arrives :: "nat \<Rightarrow> lock_state \<Rightarrow> lock_state" where
  "writer_arrives t s = writer_test t (s\<lparr>shared := announce_writer (shared s)\<rparr>)"

definition writer_leaves :: "nat \<Rightarrow> lock_state \<Rightarrow> lock_state" where
  \<comment> \<open>\<open>releaseWriteLock\<close>\<close>
  "writer_leaves t s =
     s\<lparr>shared := retire_writer (shared s), pcs := broadcast ((pcs s)[t := Idle])\<rparr>"

definition reader_test :: "nat \<Rightarrow> lock_state \<Rightarrow> lock_state" where
  "reader_test t s =
     (if reader_must_wait (shared s) then s\<lparr>pcs := (pcs s)[t := R_Asleep]\<rparr>
      else s\<lparr>shared := grant_reader (shared s), pcs := (pcs s)[t := Reading]\<rparr>)"

definition reader_leaves :: "nat \<Rightarrow> lock_state \<Rightarrow> lock_state" where
  "reader_leaves t s =
     (let d = retire_reader (shared s); ps = (pcs s)[t := Idle]
      in s\<lparr>shared := d, pcs := (if num_readers_active d = 0 then broadcast ps else ps)\<rparr>)"

inductive lock_step :: "lock_state \<Rightarrow> lock_state \<Rightarrow> bool" where
  write_arrive: "t < length (pcs s) \<Longrightarrow> pcs s ! t = Idle \<Longrightarrow> lock_step s (writer_arrives t s)"
| write_retry: "t < length (pcs s) \<Longrightarrow> pcs s ! t = W_Awake \<Longrightarrow> lock_step s (writer_test t s)"
| write_leave: "t < length (pcs s) \<Longrightarrow> pcs s ! t = Writing \<Longrightarrow> lock_step s (writer_leaves t s)"
| read_arrive: "t < length (pcs s) \<Longrightarrow> pcs s ! t = Idle \<Longrightarrow> lock_step s (reader_test t s)"
| read_retry: "t < length (pcs s) \<Longrightarrow> pcs s ! t = R_Awake \<Longrightarrow> lock_step s (reader_test t s)"
| read_leave: "t < length (pcs s) \<Longrightarrow> pcs s ! t = Reading \<Longrightarrow> lock_step s (reader_leaves t s)"
| spurious: "t < length (pcs s) \<Longrightarrow> pcs s ! t = W_Asleep \<or> pcs s ! t = R_Asleep \<Longrightarrow>
     lock_step s (s\<lparr>pcs := (pcs s)[t := wake (pcs s ! t)]\<rparr>)"

inductive_cases lock_stepE: "lock_step s t"

definition lock_init :: "nat \<Rightarrow> lock_state \<Rightarrow> bool" where
  "lock_init n s \<longleftrightarrow> s = \<lparr>shared = initial_access, pcs = replicate n Idle\<rparr>"

section \<open>The invariant\<close>

abbreviation is_waiting_writer :: "lock_pc \<Rightarrow> bool" where
  "is_waiting_writer p \<equiv> p = W_Asleep \<or> p = W_Awake"

definition lock_inv :: "lock_state \<Rightarrow> bool" where
  "lock_inv s \<longleftrightarrow>
     num_readers_active (shared s) = int (tally (\<lambda>p. p = Reading) (pcs s)) \<and>
     num_writers_waiting (shared s) = int (tally is_waiting_writer (pcs s)) \<and>
     tally (\<lambda>p. p = Writing) (pcs s) = (if writer_active (shared s) then 1 else 0) \<and>
     (writer_active (shared s) \<longrightarrow> num_readers_active (shared s) = 0) \<and>
     (W_Asleep \<in> set (pcs s) \<longrightarrow> writer_must_wait (shared s)) \<and>
     (R_Asleep \<in> set (pcs s) \<longrightarrow> reader_must_wait (shared s))"

lemma length_broadcast [simp]: "length (broadcast ps) = length ps"
  by (simp add: broadcast_def)

lemma tally_broadcast [simp]:
  "tally (\<lambda>p. p = Reading) (broadcast ps) = tally (\<lambda>p. p = Reading) ps"
  "tally (\<lambda>p. p = Writing) (broadcast ps) = tally (\<lambda>p. p = Writing) ps"
  "tally is_waiting_writer (broadcast ps) = tally is_waiting_writer ps"
proof -
  have "(wake p = Reading) = (p = Reading)" "(wake p = Writing) = (p = Writing)"
    "is_waiting_writer (wake p) = is_waiting_writer p" for p
    by (cases p; simp)+
  then show
    "tally (\<lambda>p. p = Reading) (broadcast ps) = tally (\<lambda>p. p = Reading) ps"
    "tally (\<lambda>p. p = Writing) (broadcast ps) = tally (\<lambda>p. p = Writing) ps"
    "tally is_waiting_writer (broadcast ps) = tally is_waiting_writer ps"
    unfolding broadcast_def tally_map comp_def by simp_all
qed

lemma asleep_broadcast [simp]: "W_Asleep \<notin> set (broadcast ps)" "R_Asleep \<notin> set (broadcast ps)"
proof -
  have "wake p \<noteq> W_Asleep" "wake p \<noteq> R_Asleep" for p
    by (cases p; simp)+
  then show "W_Asleep \<notin> set (broadcast ps)" "R_Asleep \<notin> set (broadcast ps)"
    by (auto simp: broadcast_def) metis+
qed

lemma set_update_other: "x \<in> set (ps[t := y]) \<Longrightarrow> x \<noteq> y \<Longrightarrow> x \<in> set ps"
  using set_update_subset_insert [of ps t y] by auto

lemma lock_inv_init: "lock_init n s \<Longrightarrow> lock_inv s"
  by (auto simp: lock_inv_def lock_init_def initial_access_def)

lemma writer_test_inv:
  assumes "lock_inv s" "t < length (pcs s)" "pcs s ! t = W_Awake"
  shows "lock_inv (writer_test t s)"
  using assms tally_pos_nth [of t "pcs s" is_waiting_writer]
  by (auto simp: lock_inv_def writer_test_def access_defs tally_list_update
           dest!: set_update_other split: if_splits)

lemma writer_arrives_inv:
  assumes "lock_inv s" "t < length (pcs s)" "pcs s ! t = Idle"
  shows "lock_inv (writer_arrives t s)"
  using assms
  by (auto simp: lock_inv_def writer_arrives_def writer_test_def access_defs tally_list_update
           dest!: set_update_other split: if_splits)

lemma writer_leaves_inv:
  assumes "lock_inv s" "t < length (pcs s)" "pcs s ! t = Writing"
  shows "lock_inv (writer_leaves t s)"
  using assms tally_pos_nth [of t "pcs s" "\<lambda>p. p = Writing"]
  by (auto simp: lock_inv_def writer_leaves_def access_defs tally_list_update split: if_splits)

lemma reader_test_inv:
  assumes "lock_inv s" "t < length (pcs s)" "pcs s ! t = Idle \<or> pcs s ! t = R_Awake"
  shows "lock_inv (reader_test t s)"
  using assms
  by (auto simp: lock_inv_def reader_test_def access_defs tally_list_update
           dest!: set_update_other split: if_splits)

lemma reader_leaves_inv:
  assumes "lock_inv s" "t < length (pcs s)" "pcs s ! t = Reading"
  shows "lock_inv (reader_leaves t s)"
  using assms tally_pos_nth [of t "pcs s" "\<lambda>p. p = Reading"]
  by (auto simp: lock_inv_def reader_leaves_def access_defs tally_list_update Let_def
           dest!: set_update_other)

lemma spurious_inv:
  assumes "lock_inv s" "t < length (pcs s)" "pcs s ! t = W_Asleep \<or> pcs s ! t = R_Asleep"
  shows "lock_inv (s\<lparr>pcs := (pcs s)[t := wake (pcs s ! t)]\<rparr>)"
  using assms tally_pos_nth [of t "pcs s" is_waiting_writer]
  by (auto simp: lock_inv_def tally_list_update dest!: set_update_other)

lemma lock_step_inv: "lock_step s t \<Longrightarrow> lock_inv s \<Longrightarrow> lock_inv t"
  by (erule lock_stepE)
     (auto intro: writer_test_inv writer_arrives_inv writer_leaves_inv reader_test_inv
        reader_leaves_inv spurious_inv simp del: wake.simps)

interpretation lock: inductive_invariant "lock_init n" lock_step lock_inv for n
  by unfold_locales (auto intro: lock_inv_init lock_step_inv)

section \<open>Consequences\<close>

text \<open>Two threads that are inside the lock at the same time are both readers.\<close>

lemma lock_inv_exclusive:
  assumes "lock_inv s" "i < length (pcs s)" "j < length (pcs s)" "i \<noteq> j" "pcs s ! i = Writing"
  shows "pcs s ! j \<noteq> Writing \<and> pcs s ! j \<noteq> Reading"
proof -
  let ?W = "\<lambda>p. p = Writing"
  have "0 < tally ?W (pcs s)" using assms by (intro tally_pos_nth) auto
  with assms(1) have one: "tally ?W (pcs s) = 1" and "tally (\<lambda>p. p = Reading) (pcs s) = 0"
    by (auto simp: lock_inv_def split: if_splits)
  then have "pcs s ! j \<noteq> Reading" using assms(3) by (auto simp: tally_eq_0_iff)
  moreover have "tally ?W ((pcs s)[i := Idle]) = 0"
    using assms one by (simp add: tally_list_update)
  then have "(pcs s)[i := Idle] ! j \<noteq> Writing"
    using assms(3) by (auto simp: tally_eq_0_iff)
  then have "pcs s ! j \<noteq> Writing" using assms by simp
  ultimately show ?thesis by simp
qed

text \<open>A thread that sleeps is waiting for one that is not.\<close>

definition runnable :: "lock_pc \<Rightarrow> bool" where
  "runnable p \<longleftrightarrow> p = W_Awake \<or> p = R_Awake \<or> p = Writing \<or> p = Reading"

lemma lock_inv_no_lost_wakeup:
  assumes "lock_inv s" "W_Asleep \<in> set (pcs s) \<or> R_Asleep \<in> set (pcs s)"
  shows "\<exists>p \<in> set (pcs s). runnable p"
proof -
  have active: "\<exists>p \<in> set (pcs s). runnable p" if "writer_must_wait (shared s)"
  proof -
    from that assms(1) have "0 < tally (\<lambda>p. p = Reading) (pcs s) \<or> 0 < tally (\<lambda>p. p = Writing) (pcs s)"
      by (auto simp: writer_must_wait_def lock_inv_def)
    then show ?thesis by (auto simp: tally_pos_iff runnable_def)
  qed
  show ?thesis
  proof (cases "W_Asleep \<in> set (pcs s)")
    case True
    with assms(1) active show ?thesis by (simp add: lock_inv_def)
  next
    case False
    with assms have "reader_must_wait (shared s)" by (simp add: lock_inv_def)
    then consider "writer_active (shared s)" | "0 < tally is_waiting_writer (pcs s)"
      using assms(1) by (auto simp: reader_must_wait_def lock_inv_def)
    then show ?thesis
    proof cases
      case 1
      then show ?thesis by (intro active) (simp add: writer_must_wait_def)
    next
      case 2
      with False have "W_Awake \<in> set (pcs s)" by (auto simp: tally_pos_iff)
      then show ?thesis by (auto simp: runnable_def)
    qed
  qed
qed

text \<open>
  Every waiting writer can be served: the threads inside the lock leave one after the other,
  the last of them wakes the writer, and its next test succeeds.
\<close>

definition inside :: "lock_pc \<Rightarrow> bool" where
  "inside p \<longleftrightarrow> p = Writing \<or> p = Reading"

lemma wake_waiting: "is_waiting_writer p \<Longrightarrow> is_waiting_writer (wake p)"
  by (cases p) auto

lemma inside_wake [simp]: "inside (wake p) = inside p"
  by (cases p) (auto simp: inside_def)

lemma leave_step:
  assumes "k < length (pcs s)" "inside (pcs s ! k)"
  obtains s' where "lock_step s s'" "tally inside (pcs s') < tally inside (pcs s)"
    "length (pcs s') = length (pcs s)"
    "\<And>t. t < length (pcs s) \<Longrightarrow> is_waiting_writer (pcs s ! t) \<Longrightarrow> is_waiting_writer (pcs s' ! t)"
proof -
  let ?ps = "(pcs s)[k := Idle]"
  have less: "tally inside ?ps < tally inside (pcs s)"
    using assms tally_pos_nth [of k "pcs s" inside] by (simp add: tally_list_update inside_def)
  have bc: "tally inside (broadcast ?ps) = tally inside ?ps"
    unfolding broadcast_def tally_map comp_def by simp
  have wait: "is_waiting_writer (?ps ! t) \<and> is_waiting_writer (broadcast ?ps ! t)"
    if "t < length (pcs s)" "is_waiting_writer (pcs s ! t)" for t
    using that assms by (cases "t = k") (auto simp: inside_def broadcast_def)
  show ?thesis
  proof (cases "pcs s ! k = Writing")
    case True
    then have "lock_step s (writer_leaves k s)" using assms(1) by (intro lock_step.write_leave)
    then show ?thesis
      by (rule that) (use less bc wait in \<open>simp_all add: writer_leaves_def\<close>)
  next
    case False
    with assms have "lock_step s (reader_leaves k s)"
      by (intro lock_step.read_leave) (auto simp: inside_def)
    then show ?thesis
      by (rule that) (use less bc wait in \<open>simp_all add: reader_leaves_def Let_def\<close>)
  qed
qed

lemma drain_inside:
  "t < length (pcs s) \<Longrightarrow> is_waiting_writer (pcs s ! t) \<Longrightarrow>
   \<exists>s'. lock_step\<^sup>*\<^sup>* s s' \<and> tally inside (pcs s') = 0 \<and> length (pcs s') = length (pcs s) \<and>
        is_waiting_writer (pcs s' ! t)"
proof (induction "tally inside (pcs s)" arbitrary: s rule: less_induct)
  case less
  show ?case
  proof (cases "tally inside (pcs s) = 0")
    case True
    with less.prems show ?thesis by blast
  next
    case False
    then obtain k where "k < length (pcs s)" "inside (pcs s ! k)"
      by (auto simp: tally_eq_0_iff in_set_conv_nth)
    then obtain s1 where s1: "lock_step s s1" "tally inside (pcs s1) < tally inside (pcs s)"
        "length (pcs s1) = length (pcs s)" "is_waiting_writer (pcs s1 ! t)"
      using less.prems by (metis leave_step)
    then obtain s' where "lock_step\<^sup>*\<^sup>* s1 s'" "tally inside (pcs s') = 0"
        "length (pcs s') = length (pcs s1)" "is_waiting_writer (pcs s' ! t)"
      using less.hyps [of s1] less.prems(1) by auto
    with s1 show ?thesis by (metis converse_rtranclp_into_rtranclp)
  qed
qed

lemma lock_inv_writer_served:
  assumes inv: "lock_inv s" and t: "t < length (pcs s)" "is_waiting_writer (pcs s ! t)"
  shows "\<exists>s'. lock_step\<^sup>*\<^sup>* s s' \<and> pcs s' ! t = Writing"
proof -
  obtain s1 where s1: "lock_step\<^sup>*\<^sup>* s s1" "tally inside (pcs s1) = 0"
      "length (pcs s1) = length (pcs s)" "is_waiting_writer (pcs s1 ! t)"
    using drain_inside [OF t] by blast
  have inv1: "lock_inv s1" by (rule lock.inv_steps [OF s1(1) inv])
  have "tally (\<lambda>p. p = Reading) (pcs s1) = 0" "tally (\<lambda>p. p = Writing) (pcs s1) = 0"
    using s1(2) by (auto simp: tally_eq_0_iff inside_def)
  with inv1 have free: "\<not> writer_must_wait (shared s1)"
    by (auto simp: lock_inv_def writer_must_wait_def split: if_splits)
  with inv1 have "W_Asleep \<notin> set (pcs s1)" by (auto simp: lock_inv_def)
  with s1 t have "pcs s1 ! t = W_Awake" by (metis nth_mem)
  then have "lock_step s1 (writer_test t s1)"
    using s1 t by (intro lock_step.write_retry) simp_all
  moreover have "pcs (writer_test t s1) ! t = Writing"
    using free s1 t by (simp add: writer_test_def)
  ultimately show ?thesis using s1(1) by (meson rtranclp.rtrancl_into_rtrancl)
qed

text \<open>The lock prefers writers: while one waits or writes, no reader gets in.\<close>

lemma lock_inv_writer_preference:
  assumes "lock_inv s" "is_waiting_writer p \<or> p = Writing" "p \<in> set (pcs s)"
  shows "reader_must_wait (shared s)"
  using assms by (auto simp: lock_inv_def reader_must_wait_def tally_pos_iff split: if_splits)
    (metis (mono_tags, lifting) One_nat_def tally_eq_0_iff)+

lemma lock_step_length: "lock_step s t \<Longrightarrow> length (pcs t) = length (pcs s)"
  by (induction rule: lock_step.induct)
     (simp_all add: writer_arrives_def writer_test_def writer_leaves_def reader_test_def reader_leaves_def Let_def)

lemma lock_threads: "reach (lock_init n) lock_step s \<Longrightarrow> length (pcs s) = n"
  by (induction rule: reach.induct) (simp_all add: lock_init_def lock_step_length)

lemma wake_reading [simp]: "wake p = Reading \<longleftrightarrow> p = Reading"
  by (cases p rule: wake.cases) auto

section \<open>Properties\<close>

text \<open>C16: mutual exclusion. In every reachable state of any number of threads, a writer is alone.\<close>

theorem writer_excludes_everyone:
  assumes "reach (lock_init n) lock_step s" "i < n" "j < n" "i \<noteq> j" "pcs s ! i = Writing"
  shows "pcs s ! j \<noteq> Writing \<and> pcs s ! j \<noteq> Reading"
proof -
  have "length (pcs s) = n" using assms(1) by (rule lock_threads)
  then show ?thesis
    using lock_inv_exclusive [OF lock.inv_reach [OF assms(1)]] assms(2-) by simp
qed

text \<open>A run for the examples: thread 0 writes, thread 1 waits to write.\<close>

definition example_lock :: lock_state where
  "example_lock = \<lparr>shared = \<lparr>num_readers_active = 0, num_writers_waiting = 1, writer_active = True\<rparr>,
     pcs = [Writing, W_Asleep]\<rparr>"

lemma example_lock_reachable: "reach (lock_init 2) lock_step example_lock"
proof -
  have "reach (lock_init 2) lock_step \<lparr>shared = initial_access, pcs = [Idle, Idle]\<rparr>"
    by (rule reach_init) (simp add: lock_init_def numeral_2_eq_2)
  from reach_step [OF this lock_step.write_arrive [of 0]]
  have "reach (lock_init 2) lock_step
      \<lparr>shared = \<lparr>num_readers_active = 0, num_writers_waiting = 0, writer_active = True\<rparr>, pcs = [Writing, Idle]\<rparr>"
    by (simp add: writer_arrives_def writer_test_def access_defs initial_access_def)
  from reach_step [OF this lock_step.write_arrive [of 1]]
  show ?thesis
    by (simp add: writer_arrives_def writer_test_def access_defs example_lock_def)
qed

theorem writer_excludes_everyone_witness: "pcs example_lock ! 1 \<noteq> Writing \<and> pcs example_lock ! 1 \<noteq> Reading"
  using writer_excludes_everyone [OF example_lock_reachable, of 0 1] by (simp add: example_lock_def)



text \<open>The lock prefers writers. While a writer waits or writes, no step lets a reader in.\<close>

theorem no_reader_passes_a_writer:
  assumes "reach (lock_init n) lock_step s" "t < n" "pcs s ! t \<in> {W_Asleep, W_Awake, Writing}"
    and "lock_step s s'" "i < n" "pcs s ! i \<noteq> Reading"
  shows "pcs s' ! i \<noteq> Reading"
proof -
  have len: "length (pcs s) = n" using assms(1) by (rule lock_threads)
  then have "pcs s ! t \<in> set (pcs s)" using assms(2) by simp
  then have "reader_must_wait (shared s)"
    using lock_inv_writer_preference [OF lock.inv_reach [OF assms(1)], of "pcs s ! t"] assms(3) by auto
  with assms(4) show ?thesis
    using assms(5,6) len
    by cases (auto simp: writer_arrives_def writer_test_def writer_leaves_def reader_test_def
        reader_leaves_def Let_def broadcast_def nth_list_update wake_reading split: if_splits)
qed

theorem no_reader_passes_a_writer_witness:
  "pcs (writer_leaves 0 example_lock) ! 0 \<noteq> Reading"
  by (rule no_reader_passes_a_writer [OF example_lock_reachable, of 1])
     (simp_all add: lock_step.write_leave example_lock_def)

end
