(* ===== verification/File_Operations.thy ===== *)
theory File_Operations
  imports Replace_Algorithm Access_Lock
begin

text \<open>
  \<open>file-operations.cpp\<close>: the state of a node (the name of the bulletin board file, the
  files on disk, the message counter, the readers-writer lock) and the operations on it:
  counting the messages at start-up, \<open>writeOperation\<close>, \<open>readMessageFromFile\<close>,
  \<open>areReplaceArgumentsValid\<close>, \<open>replaceOperation\<close>, and the undo actions the two writers
  hand out, as data instead of closures.
\<close>

section \<open>State\<close>

record store =
  bulletinBoardFile :: bytes
  disk :: "bytes \<Rightarrow> disk_file option"
  can_create :: bool            \<comment> \<open>whether \<open>O_CREAT\<close> may create a missing file\<close>
  message_number :: int
  access_control :: access_data

abbreviation getBulletinBoardFile :: "store \<Rightarrow> bytes" where
  "getBulletinBoardFile \<equiv> bulletinBoardFile"

definition no_file :: disk_file where
  \<comment> \<open>what \<open>access\<close> and \<open>open\<close> see of a file that does not exist\<close>
  "no_file = \<lparr>content = [], readable = False, writable = False\<rparr>"

definition board_file :: "store \<Rightarrow> disk_file" where
  "board_file st = (case disk st (bulletinBoardFile st) of None \<Rightarrow> no_file | Some f \<Rightarrow> f)"

definition put_board_file :: "disk_file \<Rightarrow> store \<Rightarrow> store" where
  "put_board_file f st = st\<lparr>disk := (disk st)(bulletinBoardFile st \<mapsto> f)\<rparr>"

definition edit_board :: "(bytes \<Rightarrow> bytes) \<Rightarrow> store \<Rightarrow> store" where
  "edit_board g st = put_board_file ((board_file st)\<lparr>content := g (content (board_file st))\<rparr>) st"

definition vector_at :: "'a list \<Rightarrow> nat \<Rightarrow> 'a run" where
  \<comment> \<open>\<open>operator[]\<close> of a vector\<close>
  "vector_at xs i = (if i < length xs then ret (xs ! i) else crash Out_Of_Bounds)"

section \<open>Start-up\<close>

partial_function (option) count_lines_loop :: "descriptor \<Rightarrow> bytes \<Rightarrow> int \<Rightarrow> int run" where
  "count_lines_loop d req l =
     (case readline d req 255 of
        None \<Rightarrow> None
      | Some (Inl f) \<Rightarrow> Some (Inl f)
      | Some (Inr (n, req', d')) \<Rightarrow>
          if n = recv_nodata then ret l else count_lines_loop d' req' (l + 1))"

definition open_or_create :: "store \<Rightarrow> descriptor \<times> store" where
  \<comment> \<open>\<open>open(file, O_CREAT | O_RDONLY, ...)\<close>\<close>
  "open_or_create st =
     (case disk st (bulletinBoardFile st) of
        Some f \<Rightarrow> (open_read f, st)
      | None \<Rightarrow>
          if can_create st
          then (File_In [], put_board_file \<lparr>content = [], readable = True, writable = True\<rparr> st)
          else (Bad_Fd, st))"

definition set_initial_message_number :: "store \<Rightarrow> store run" where
  "set_initial_message_number st =
     (case open_or_create st of (fd, st1) \<Rightarrow>
        bind_run (count_lines_loop fd (replicate 256 NUL) 0) (\<lambda>l. ret (st1\<lparr>message_number := l\<rparr>)))"

definition setBulletinBoardFile :: "bytes \<Rightarrow> store \<Rightarrow> store run" where
  "setBulletinBoardFile file st = set_initial_message_number (st\<lparr>bulletinBoardFile := file\<rparr>)"

definition getBulletinBoardFileSize :: "store \<Rightarrow> int" where
  \<comment> \<open>\<open>lseek\<close> to the end; -1 when the file cannot be opened for reading\<close>
  "getBulletinBoardFileSize st =
     (if readable (board_file st) then int (length (content (board_file st))) else -1)"

section \<open>Undo actions\<close>

datatype undo =
    Undo_Nothing
  | Undo_Write int                \<comment> \<open>the captured \<open>fileSizeBeforeWrite\<close>\<close>
  | Undo_Replace bytes int bytes  \<comment> \<open>the captured old user, message number, old message\<close>

definition run_undo :: "undo \<Rightarrow> store \<Rightarrow> store run" where
  "run_undo u st =
     (case u of
        Undo_Nothing \<Rightarrow> ret st
      | Undo_Write fileSizeBeforeWrite \<Rightarrow>
          (let st1 = (if writable (board_file st)
                      then edit_board (\<lambda>c. ftruncate c fileSizeBeforeWrite) st else st)
           in ret (st1\<lparr>message_number := message_number st1 - 1\<rparr>))
      | Undo_Replace oldUser n oldMessage \<Rightarrow>
          bind_run (optimalReplaceAlgorithm (board_file st) oldUser n oldMessage)
            (\<lambda>f. ret (put_board_file f st)))"

section \<open>WRITE\<close>

definition message_line :: "int \<Rightarrow> bytes \<Rightarrow> bytes \<Rightarrow> bytes" where
  \<comment> \<open>the buffer of 255 bytes \<open>writeOperation\<close> formats the line into\<close>
  "message_line n user message =
     snprintf 255 (to_string n @ [SLASH] @ cstr user @ [SLASH] @ cstr message @ [LF])"

definition set_access :: "access_data \<Rightarrow> store \<Rightarrow> store" where
  "set_access a st = st\<lparr>access_control := a\<rparr>"

definition release_unless_held :: "bool \<Rightarrow> store \<Rightarrow> store" where
  "release_unless_held holdLock st =
     (if holdLock then st else set_access (releaseWriteLock (access_control st)) st)"

definition writeOperation ::
    "bytes \<Rightarrow> bytes \<Rightarrow> bool \<Rightarrow> undo \<Rightarrow> store \<Rightarrow> (bytes \<times> undo \<times> store) run" where
  "writeOperation user message holdLock undoWrite st =
     (if \<not> writable (board_file st) then
        ret (createMessage 32 ''ERROR WRITE'' ''bbfile currently unavailable'' (\<not> holdLock),
             undoWrite, st)
      else
        bind_run (acquireWriteLock (access_control st)) (\<lambda>a.
          let st1 = set_access a st;
              fileSizeBeforeWrite = getBulletinBoardFileSize st1;
              st2 = edit_board (\<lambda>c. c @ message_line (message_number st1) user message) st1;
              response = createMessage 30 ''WROTE'' (to_string (message_number st2)) (\<not> holdLock);
              st3 = st2\<lparr>message_number := message_number st2 + 1\<rparr>
          in ret (response, Undo_Write fileSizeBeforeWrite, release_unless_held holdLock st3)))"

section \<open>READ\<close>

partial_function (option) read_loop ::
    "descriptor \<Rightarrow> bytes \<Rightarrow> bytes option \<Rightarrow> int \<Rightarrow> int \<Rightarrow> bytes option run" where
  \<comment> \<open>\<open>temp\<close> with a copy that is \<open>None\<close> until a line was stored in it\<close>
  "read_loop d temp stored messageNumberToRead k =
     (case readline d temp 255 of
        None \<Rightarrow> None
      | Some (Inl f) \<Rightarrow> Some (Inl f)
      | Some (Inr (n, temp', d')) \<Rightarrow>
          if n = recv_nodata then ret stored
          else if k = messageNumberToRead then ret (if 0 \<le> n then Some temp' else stored)
          else read_loop d' temp' (if 0 \<le> n then Some temp' else stored) messageNumberToRead (k + 1))"

fun blank_first_slash :: "bytes \<Rightarrow> bytes" where
  \<comment> \<open>the \<open>for\<close> loop over the C string \<open>temp\<close>\<close>
  "blank_first_slash [] = []"
| "blank_first_slash (c # cs) = (if c = SLASH then SP # cs else c # blank_first_slash cs)"

definition readMessageFromFile :: "int \<Rightarrow> store \<Rightarrow> (bytes \<times> store) run" where
  \<comment> \<open>the bytes sent to the client\<close>
  "readMessageFromFile messageNumberToRead st =
     (if \<not> (messageNumberToRead < message_number st \<and> messageNumberToRead \<ge> 0) then
        ret (sendMessageToSocket 21 UNKNOWN
               (snprintf 255 (to_string messageNumberToRead @ [SP] @
                              ''The given message-number does not exist.'')), st)
      else if \<not> readable (board_file st) then
        ret (sendMessageToSocket 22 ''ERROR READ'' ''bbfile currently unavailable'', st)
      else
        bind_run (acquire_read (access_control st)) (\<lambda>a.
          bind_run (read_loop (open_read (board_file st)) (replicate 256 NUL) None messageNumberToRead 0)
            (\<lambda>stored.
              case stored of
                None \<Rightarrow> crash Uninitialised_Read
              | Some temp \<Rightarrow>
                  ret (sendMessageToSocket 20 ''MESSAGE'' (blank_first_slash (cstr temp)),
                       set_access (retire_reader a) st))))"

section \<open>REPLACE\<close>

partial_function (option) message_info_loop ::
    "descriptor \<Rightarrow> bytes \<Rightarrow> int \<Rightarrow> int \<Rightarrow> (bytes \<times> bytes) run" where
  "message_info_loop d textLine messageNumber l =
     (case readline d textLine 255 of
        None \<Rightarrow> None
      | Some (Inl f) \<Rightarrow> Some (Inl f)
      | Some (Inr (n, textLine', d')) \<Rightarrow>
          if n = recv_nodata then crash Assertion_Failed
          else if l = messageNumber then
            (if n < 0 then crash Uninitialised_Read
             else bind_run (vector_at (tokenize textLine' [SLASH]) 1) (\<lambda>user.
                    bind_run (vector_at (tokenize textLine' [SLASH]) 2) (\<lambda>message.
                      ret (user, message))))
          else message_info_loop d' textLine' messageNumber (l + 1))"

definition getMessageNumberInfo :: "disk_file \<Rightarrow> int \<Rightarrow> (bytes \<times> bytes) run" where
  "getMessageNumberInfo f messageNumber =
     message_info_loop (open_read f) (replicate 256 NUL) messageNumber 0"

definition areReplaceArgumentsValid :: "bytes \<Rightarrow> store \<Rightarrow> (bool \<times> bytes) run" where
  "areReplaceArgumentsValid messageNumberAndMessage st =
     (let replaceArguments = tokenize (convertStringToCharArray messageNumberAndMessage) [SLASH] in
      if length replaceArguments \<noteq> 2 \<or> \<not> is_number (replaceArguments ! 0) \<or>
         replaceArguments ! 1 = [] \<or> length (filter (\<lambda>c. c = SLASH) messageNumberAndMessage) \<noteq> 1
      then ret (False, createMessage 32 ''ERROR WRITE''
                  ''Incorrect format. Argument must be of the form msgNum/message.'' True)
      else bind_run (stoi (replaceArguments ! 0)) (\<lambda>messageNumberToReplace.
        if messageNumberToReplace \<ge> message_number st \<or> messageNumberToReplace < 0
        then ret (False, createMessage 31 UNKNOWN (to_string messageNumberToReplace) True)
        else ret (True, [])))"

definition replaceOperation ::
    "bytes \<Rightarrow> bytes \<Rightarrow> bool \<Rightarrow> undo \<Rightarrow> store \<Rightarrow> (bytes \<times> undo \<times> store) run" where
  "replaceOperation user messageNumberAndMessage holdLock undoReplace st =
     (if \<not> (readable (board_file st) \<and> writable (board_file st)) then
        ret (createMessage 32 ''ERROR WRITE'' ''bbfile is currently unavailable'' (\<not> holdLock),
             undoReplace, st)
      else
        bind_run (acquireWriteLock (access_control st)) (\<lambda>a.
          let st1 = set_access a st;
              replaceArguments = tokenize (convertStringToCharArray messageNumberAndMessage) [SLASH]
          in bind_run (bind_run (vector_at replaceArguments 0) stoi) (\<lambda>messageNumberToReplace.
             bind_run (vector_at replaceArguments 1) (\<lambda>new_message.
             bind_run (getMessageNumberInfo (board_file st1) messageNumberToReplace)
               (\<lambda>(oldUser, oldMessage).
             bind_run (optimalReplaceAlgorithm (board_file st1) user messageNumberToReplace new_message)
               (\<lambda>f.
             let response = createMessage 30 ''WROTE'' (to_string messageNumberToReplace) (\<not> holdLock)
             in ret (response, Undo_Replace oldUser messageNumberToReplace oldMessage,
                     release_unless_held holdLock (put_board_file f st1))))))))"

definition perform_operation ::
    "bytes \<Rightarrow> bytes \<Rightarrow> bytes \<Rightarrow> bool \<Rightarrow> undo \<Rightarrow> store \<Rightarrow> (bytes \<times> undo \<times> store) run" where
  \<comment> \<open>\<open>command == WRITE ? writeOperation : replaceOperation\<close>, called\<close>
  "perform_operation command user argument holdLock undo st =
     (if command = WRITE then writeOperation user argument holdLock undo st
      else replaceOperation user argument holdLock undo st)"

section \<open>The loops on a file made of lines\<close>

interpretation count_lines: line_scan count_lines_loop "\<lambda>l n buf. Inr (l + 1)" ret
  by unfold_locales
     (subst count_lines_loop.simps, simp split: option.splits sum.splits prod.splits)

lemma count_lines_loop_lines:
  assumes "\<And>l. l \<in> set ls \<Longrightarrow> readable_line l" "length buf = 256"
  shows "count_lines_loop (File_In (lines_text ls)) buf 0 = ret (int (length ls))"
  by (rule count_lines.scan_exhausts [OF assms, where P = "\<lambda>i l. l = int i"]) auto

lemma count_lines_loop_bad: "count_lines_loop Bad_Fd buf l = hang"
proof -
  have "d \<noteq> Bad_Fd" if "count_lines_loop d buf l = Some y" for d buf l y
  proof (rule count_lines_loop.raw_induct [where P = "\<lambda>d buf l y. d \<noteq> Bad_Fd", OF _ that])
    fix loop :: "descriptor \<Rightarrow> bytes \<Rightarrow> int \<Rightarrow> int run" and d req l y
    assume IH: "\<And>d req l y. loop d req l = Some y \<Longrightarrow> d \<noteq> Bad_Fd"
      and eq: "(case readline d req 255 of None \<Rightarrow> None | Some (Inl f) \<Rightarrow> crash f
        | Some (Inr (n, req', d')) \<Rightarrow>
            if n = recv_nodata then ret l else loop d' req' (l + 1)) = Some y"
    show "d \<noteq> Bad_Fd"
    proof
      assume "d = Bad_Fd"
      with eq have "loop Bad_Fd req (l + 1) = Some y"
        by (simp add: readline_bad recv_nodata_def)
      then show False using IH by blast
    qed
  qed
  then show ?thesis by (cases "count_lines_loop Bad_Fd buf l") auto
qed

definition read_on_line ::
    "int \<Rightarrow> bytes option \<times> int \<Rightarrow> int \<Rightarrow> bytes \<Rightarrow> bytes option run + bytes option \<times> int" where
  "read_on_line target s n buf =
     (case s of (stored, k) \<Rightarrow>
        if k = target then Inl (ret (if 0 \<le> n then Some buf else stored))
        else Inr (if 0 \<le> n then Some buf else stored, k + 1))"

interpretation read_scan: line_scan
  "\<lambda>d buf s. read_loop d buf (fst s) target (snd s)" "read_on_line target" "\<lambda>s. ret (fst s)" for target
  by unfold_locales
     (subst read_loop.simps, simp add: read_on_line_def split: option.splits sum.splits prod.splits)

lemma read_loop_finds:
  assumes "\<And>l. l \<in> set ls \<Longrightarrow> readable_line l" "length buf = 256" "k < length ls"
  obtains b where "cstr b = ls ! k"
    "read_loop (File_In (lines_text ls)) buf None (int k) 0 = ret (Some b)"
proof -
  have skip: "\<exists>s'. read_on_line (int k) s (int (length (ls ! i))) b = Inr s' \<and> snd s' = int (Suc i)"
    if "i < k" "snd s = int i" for i s b
    using that by (cases s) (auto simp: read_on_line_def)
  show ?thesis
    by (rule read_scan.scan_finds [OF assms(1,2,3), where P = "\<lambda>i s. snd s = int i"
          and s = "(None, 0)" and target = "int k" and r = "\<lambda>b. ret (Some b)"])
       (use skip that in \<open>auto simp: read_on_line_def\<close>)
qed

definition info_result :: "bytes \<Rightarrow> (bytes \<times> bytes) run" where
  "info_result line =
     bind_run (vector_at (tokenize line [SLASH]) 1) (\<lambda>user.
       bind_run (vector_at (tokenize line [SLASH]) 2) (\<lambda>message. ret (user, message)))"

definition info_on_line :: "int \<Rightarrow> int \<Rightarrow> int \<Rightarrow> bytes \<Rightarrow> (bytes \<times> bytes) run + int" where
  "info_on_line target l n buf =
     (if l = target then Inl (if n < 0 then crash Uninitialised_Read else info_result buf)
      else Inr (l + 1))"

interpretation info_scan: line_scan
  "\<lambda>d buf l. message_info_loop d buf target l" "info_on_line target" "\<lambda>l. crash Assertion_Failed"
  for target
  by unfold_locales
     (subst message_info_loop.simps,
      simp add: info_on_line_def info_result_def split: option.splits sum.splits prod.splits)

lemma tokenize_cstr: "tokenize (cstr b) delim = tokenize b delim"
  by (simp add: tokenize_def)

lemma message_info_loop_finds:
  assumes "\<And>l. l \<in> set ls \<Longrightarrow> readable_line l" "length buf = 256" "k < length ls"
  shows "message_info_loop (File_In (lines_text ls)) buf (int k) 0 = info_result (ls ! k)"
proof -
  have skip: "\<exists>s'. info_on_line (int k) l (int (length (ls ! i))) b = Inr s' \<and> s' = int (Suc i)"
    if "i < k" "l = int i" for i l b
    using that by (auto simp: info_on_line_def)
  obtain b where "cstr b = ls ! k"
    "message_info_loop (File_In (lines_text ls)) buf (int k) 0 = info_result b"
    by (rule info_scan.scan_finds [OF assms(1,2,3), where P = "\<lambda>i l. l = int i"
          and s = 0 and target = "int k" and r = info_result])
       (use skip in \<open>auto simp: info_on_line_def\<close>)
  then show ?thesis by (metis info_result_def tokenize_cstr)
qed

lemma message_info_loop_missing:
  assumes "\<And>l. l \<in> set ls \<Longrightarrow> readable_line l" "length buf = 256" "n < 0 \<or> length ls \<le> nat n"
  shows "message_info_loop (File_In (lines_text ls)) buf n 0 = crash Assertion_Failed"
proof -
  have skip: "\<exists>s'. info_on_line n l (int (length (ls ! i))) b = Inr s' \<and> s' = int (Suc i)"
    if "i < length ls" "l = int i" for i l b
    using that assms(3) by (auto simp: info_on_line_def)
  show ?thesis
    by (rule info_scan.scan_exhausts [OF assms(1,2), where P = "\<lambda>i l. l = int i"
          and s = 0 and target = n])
       (use skip in auto)
qed

section \<open>Frame facts\<close>

lemma board_file_put [simp]: "board_file (put_board_file f st) = f"
  by (simp add: board_file_def put_board_file_def)

lemma put_board_file_fields [simp]:
  "message_number (put_board_file f st) = message_number st"
  "access_control (put_board_file f st) = access_control st"
  "bulletinBoardFile (put_board_file f st) = bulletinBoardFile st"
  by (simp_all add: put_board_file_def)

lemma put_board_file_twice [simp]: "put_board_file f (put_board_file g st) = put_board_file f st"
  by (simp add: put_board_file_def)

lemma put_board_file_self: "writable (board_file st) \<Longrightarrow> put_board_file (board_file st) st = st"
  by (auto simp: put_board_file_def board_file_def no_file_def fun_upd_idem split: option.splits)

lemma board_file_updates [simp]:
  "board_file (st\<lparr>message_number := n\<rparr>) = board_file st"
  "board_file (set_access a st) = board_file st"
  by (simp_all add: board_file_def set_access_def)

lemma set_access_fields [simp]:
  "message_number (set_access a st) = message_number st"
  "access_control (set_access a st) = a"
  "set_access b (set_access a st) = set_access b st"
  "set_access (access_control st) st = st"
  by (simp_all add: set_access_def)

lemma set_access_same [simp]: "access_control st = a \<Longrightarrow> set_access a st = st"
  by (simp add: set_access_def)

lemma access_commutes:
  "put_board_file f (set_access a st) = set_access a (put_board_file f st)"
  "(set_access a st)\<lparr>message_number := n\<rparr> = set_access a (st\<lparr>message_number := n\<rparr>)"
  "(put_board_file f st)\<lparr>message_number := n\<rparr> = put_board_file f (st\<lparr>message_number := n\<rparr>)"
  by (simp_all add: put_board_file_def set_access_def)

definition held :: "store \<Rightarrow> store" where
  \<comment> \<open>the state with the write lock taken\<close>
  "held st = set_access ((access_control st)\<lparr>writer_active := True\<rparr>) st"

definition write_lock_free :: "store \<Rightarrow> bool" where
  "write_lock_free st \<longleftrightarrow> \<not> writer_must_wait (access_control st)"

lemma acquireWriteLock_free:
  "write_lock_free st \<Longrightarrow>
   acquireWriteLock (access_control st) = ret ((access_control st)\<lparr>writer_active := True\<rparr>)"
  by (simp add: acquireWriteLock_def write_lock_free_def access_defs)

lemma acquireWriteLock_taken:
  "\<not> write_lock_free st \<Longrightarrow> acquireWriteLock (access_control st) = hang"
  by (auto simp: acquireWriteLock_def write_lock_free_def access_defs)

lemma release_held:
  "write_lock_free st \<Longrightarrow> releaseWriteLock ((access_control st)\<lparr>writer_active := True\<rparr>) = access_control st"
  by (simp add: releaseWriteLock_def write_lock_free_def access_defs)

lemma board_file_held [simp]: "board_file (held st) = board_file st"
  and message_number_held [simp]: "message_number (held st) = message_number st"
  by (simp_all add: held_def)

section \<open>Every operation ends\<close>

lemma vector_at_ends [simp]: "vector_at xs i \<noteq> hang"
  by (simp add: vector_at_def)

lemma stoi_ends [simp]: "stoi s \<noteq> hang"
  by (simp add: stoi_def split: option.split)

lemma read_loop_ends: "read_loop (File_In cs) buf stored target k \<noteq> hang"
proof -
  have "(\<lambda>d b s. read_loop d b (fst s) target (snd s)) (File_In cs) buf (stored, k) \<noteq> hang"
    by (rule read_scan.scan_ends) (auto simp: read_on_line_def split: if_splits prod.splits)
  then show ?thesis by simp
qed

lemma info_result_ends: "info_result buf \<noteq> hang"
  unfolding info_result_def by (intro bind_run_returns) (auto iff del: not_None_eq)

lemma message_info_loop_ends: "message_info_loop (File_In cs) buf target l \<noteq> hang"
proof (rule info_scan.scan_ends)
  show "r \<noteq> hang" if "info_on_line target s n b = Inl r" for s n b r
    using that info_result_ends by (auto simp: info_on_line_def split: if_splits iff del: not_None_eq)
qed simp

lemma count_lines_loop_ends: "count_lines_loop (File_In cs) buf l \<noteq> hang"
  by (rule count_lines.scan_ends) auto

lemma acquire_read_ends: "\<not> reader_must_wait a \<Longrightarrow> acquire_read a \<noteq> hang"
  by (simp add: acquire_read_def)

lemma readMessageFromFile_ends:
  "\<not> reader_must_wait (access_control st) \<Longrightarrow> readMessageFromFile n st \<noteq> hang"
  unfolding readMessageFromFile_def
  by (auto simp: open_read_def acquire_read_ends read_loop_ends bind_run_hang_iff
      split: option.split iff del: not_None_eq)

lemma areReplaceArgumentsValid_ends: "areReplaceArgumentsValid a st \<noteq> hang"
  unfolding areReplaceArgumentsValid_def Let_def
  by (auto simp: bind_run_hang_iff iff del: not_None_eq)

lemma writeOperation_ends: "write_lock_free st \<Longrightarrow> writeOperation u a hold un st \<noteq> hang"
  by (simp add: writeOperation_def acquireWriteLock_free Let_def)

lemma replaceOperation_ends: "write_lock_free st \<Longrightarrow> replaceOperation u a hold un st \<noteq> hang"
  unfolding replaceOperation_def getMessageNumberInfo_def
  by (auto simp: acquireWriteLock_free Let_def open_read_def message_info_loop_ends
      optimalReplaceAlgorithm_ends bind_run_hang_iff split: prod.split iff del: not_None_eq)

lemma perform_operation_ends:
  "write_lock_free st \<Longrightarrow> perform_operation c u a hold un st \<noteq> hang"
  by (simp add: perform_operation_def writeOperation_ends replaceOperation_ends del: not_None_eq)

section \<open>Properties\<close>


end
