(* ===== verification/Board_Refinement.thy ===== *)
theory Board_Refinement
  imports File_Operations
begin

text \<open>
  What the bulletin board file stands for: a list of (user, message) entries, entry \<open>i\<close> kept
  as the line \<open>i/user/message\<close>. The operations of \<open>File_Operations\<close> are shown to implement
  the obvious operations on that list, and the undo actions to restore the state exactly. The
  contract the synchronisation code relies on is the locale \<open>undoable_operation\<close>, which both
  writers are shown to satisfy.
\<close>

section \<open>The abstract board\<close>

type_synonym board = "(bytes \<times> bytes) list"

definition board_lines :: "board \<Rightarrow> bytes list" where
  "board_lines b = map (\<lambda>i. line_of (int i) (fst (b ! i)) (snd (b ! i))) [0..<length b]"

fun good_entry :: "bytes \<times> bytes \<Rightarrow> bool" where
  \<comment> \<open>what the board server lets through: no line terminators, a user without \<open>/\<close>\<close>
  "good_entry (u, m) \<longleftrightarrow> u \<noteq> [] \<and> m \<noteq> [] \<and> plain u \<and> plain m \<and> SLASH \<notin> set u"

definition good_board :: "board \<Rightarrow> bool" where
  "good_board b \<longleftrightarrow> list_all good_entry b \<and> list_all (\<lambda>l. length l < 255) (board_lines b)"

definition represents :: "store \<Rightarrow> board \<Rightarrow> bool" where
  "represents st b \<longleftrightarrow>
     content (board_file st) = lines_text (board_lines b) \<and>
     message_number st = int (length b) \<and> good_board b"

definition available :: "store \<Rightarrow> bool" where
  "available st \<longleftrightarrow> readable (board_file st) \<and> writable (board_file st)"

lemma length_board_lines [simp]: "length (board_lines b) = length b"
  by (simp add: board_lines_def)

lemma nth_board_lines [simp]:
  "i < length b \<Longrightarrow> board_lines b ! i = line_of (int i) (fst (b ! i)) (snd (b ! i))"
  by (simp add: board_lines_def)

lemma board_lines_snoc:
  "board_lines (b @ [(u, m)]) = board_lines b @ [line_of (int (length b)) u m]"
  by (rule nth_equalityI) (auto simp: nth_append less_Suc_eq)

lemma board_lines_update:
  "n < length b \<Longrightarrow> board_lines (b[n := (u, m)]) = (board_lines b)[n := line_of (int n) u m]"
  by (rule nth_equalityI) (auto simp: nth_list_update)

lemma plain_line_of: "plain u \<Longrightarrow> plain m \<Longrightarrow> plain (line_of n u m)"
  by (simp add: line_of_def)

lemma good_board_readable:
  assumes "good_board b" "l \<in> set (board_lines b)"
  shows "readable_line l"
proof -
  from assms(2) obtain i where i: "i < length b" "l = line_of (int i) (fst (b ! i)) (snd (b ! i))"
    by (auto simp: in_set_conv_nth)
  with assms(1) have "good_entry (b ! i)" by (simp add: good_board_def list_all_length)
  then have "plain (fst (b ! i))" "plain (snd (b ! i))" by (cases "b ! i"; simp)+
  with i assms show ?thesis
    by (auto simp: readable_line_def good_board_def list_all_iff intro: plain_line_of)
qed

lemma good_board_snoc:
  "good_board (b @ [(u, m)]) \<longleftrightarrow>
   good_board b \<and> good_entry (u, m) \<and> length (line_of (int (length b)) u m) < 255"
  by (auto simp: good_board_def board_lines_snoc)

lemma good_board_update:
  assumes "good_board b" "n < length b" "good_entry (u, m)" "length (line_of (int n) u m) < 255"
  shows "good_board (b[n := (u, m)])"
  using assms
  by (auto simp: good_board_def board_lines_update list_all_length nth_list_update)

section \<open>Counting the messages at start-up\<close>

lemma set_initial_message_number_lines:
  assumes "disk st (bulletinBoardFile st) = Some f" "readable f" "content f = lines_text ls"
    and "\<And>l. l \<in> set ls \<Longrightarrow> readable_line l"
  shows "set_initial_message_number st = ret (st\<lparr>message_number := int (length ls)\<rparr>)"
  using assms count_lines_loop_lines [of ls "replicate 256 NUL"]
  by (simp add: set_initial_message_number_def open_or_create_def open_read_def)

section \<open>WRITE\<close>

definition posted :: "bytes \<Rightarrow> bytes \<Rightarrow> store \<Rightarrow> store" where
  "posted u m st =
     (edit_board (\<lambda>c. c @ message_line (message_number st) u m) st)
       \<lparr>message_number := message_number st + 1\<rparr>"

lemma board_file_posted [simp]:
  "board_file (posted u m st) =
     (board_file st)\<lparr>content := content (board_file st) @ message_line (message_number st) u m\<rparr>"
  "message_number (posted u m st) = message_number st + 1"
  "access_control (posted u m st) = access_control st"
  by (simp_all add: posted_def edit_board_def)

lemma posted_held: "posted u m (held st) = held (posted u m st)"
  by (simp add: posted_def held_def edit_board_def access_commutes)

lemma writeOperation_done:
  assumes "writable (board_file st)" "write_lock_free st"
  shows "writeOperation u m hold un st =
     ret (createMessage 30 ''WROTE'' (to_string (message_number st)) (\<not> hold),
          Undo_Write (getBulletinBoardFileSize st),
          if hold then held (posted u m st) else posted u m st)"
proof -
  have size: "getBulletinBoardFileSize (set_access a st) = getBulletinBoardFileSize st" for a
    by (simp add: getBulletinBoardFileSize_def)
  show ?thesis
    using assms acquireWriteLock_free [OF assms(2)] release_held [OF assms(2)]
    by (simp add: writeOperation_def Let_def size release_unless_held_def posted_def held_def
          edit_board_def access_commutes)
qed

lemma message_line_fits:
  "plain u \<Longrightarrow> plain m \<Longrightarrow> length (line_of n u m) < 254 \<Longrightarrow> message_line n u m = line_of n u m @ [LF]"
  by (simp add: message_line_def line_of_def)

lemma represents_posted:
  assumes "represents st b" "good_entry (u, m)" "length (line_of (int (length b)) u m) < 254"
  shows "represents (posted u m st) (b @ [(u, m)])"
  using assms by (simp add: represents_def good_board_snoc board_lines_snoc message_line_fits)

lemma undo_write_restores:
  assumes "readable (board_file st)" "writable (board_file st)"
  shows "run_undo (Undo_Write (getBulletinBoardFileSize st)) (held (posted u m st)) = ret (held st)"
proof -
  have "put_board_file (board_file st) st = st"
    using assms(2) by (rule put_board_file_self)
  then show ?thesis
    using assms
    by (simp add: run_undo_def edit_board_def getBulletinBoardFileSize_def held_def posted_def
          access_commutes Let_def)
qed

section \<open>READ\<close>

lemma blank_first_slash_line:
  "SLASH \<notin> set a \<Longrightarrow> blank_first_slash (a @ SLASH # r) = a @ SP # r"
  by (induction a) auto

lemma acquire_read_free:
  "\<not> reader_must_wait d \<Longrightarrow> acquire_read d = ret (grant_reader d)"
  by (simp add: acquire_read_def)

lemma retire_grant_reader [simp]: "retire_reader (grant_reader d) = d"
  by (simp add: access_defs)

lemma readMessageFromFile_site:
  "readMessageFromFile n st = ret (msg, st') \<Longrightarrow> st' = st"
  by (auto simp: readMessageFromFile_def bind_run_ret_iff acquire_read_def split: if_splits option.splits)

lemma readMessageFromFile_finds:
  assumes "represents st b" "readable (board_file st)" "\<not> reader_must_wait (access_control st)"
    and "n < length b"
  shows "readMessageFromFile (int n) st =
    ret (sendMessageToSocket 20 ''MESSAGE''
           (to_string (int n) @ [SP] @ fst (b ! n) @ [SLASH] @ snd (b ! n)), st)"
proof -
  obtain buf where "cstr buf = board_lines b ! n"
    "read_loop (File_In (lines_text (board_lines b))) (replicate 256 NUL) None (int n) 0 = ret (Some buf)"
    by (rule read_loop_finds [of "board_lines b" "replicate 256 NUL" n])
       (use assms good_board_readable in \<open>auto simp: represents_def\<close>)
  then show ?thesis
    using assms
    by (simp add: readMessageFromFile_def represents_def open_read_def acquire_read_free
          line_of_def blank_first_slash_line)
qed

lemma readMessageFromFile_board:
  assumes "represents st b" "readable (board_file st)" "\<not> reader_must_wait (access_control st)"
  shows "readMessageFromFile n st =
    ret (if 0 \<le> n \<and> n < int (length b)
         then sendMessageToSocket 20 ''MESSAGE''
                (to_string n @ [SP] @ fst (b ! nat n) @ [SLASH] @ snd (b ! nat n))
         else sendMessageToSocket 21 UNKNOWN
                (snprintf 255 (to_string n @ [SP] @ ''The given message-number does not exist.'')), st)"
proof (cases "0 \<le> n \<and> n < int (length b)")
  case True
  then have "nat n < length b" by linarith
  with True show ?thesis using readMessageFromFile_finds [OF assms, of "nat n"] by simp
next
  case False
  with assms(1) show ?thesis by (auto simp: readMessageFromFile_def represents_def)
qed

section \<open>REPLACE\<close>

lemma info_result_line:
  assumes "good_entry (u, m)" "SLASH \<notin> set m"
  shows "info_result (line_of n u m) = ret (u, m)"
proof -
  have "tokenize (join SLASH [to_string n, u, m]) [SLASH] = [to_string n, u, m]"
    using assms by (intro tokenize_join_fields) (auto simp: plain_def)
  then show ?thesis by (simp add: info_result_def line_of_def vector_at_def)
qed

definition replaced :: "board \<Rightarrow> store \<Rightarrow> store" where
  \<comment> \<open>the state with the file rewritten to hold the board \<open>b\<close>\<close>
  "replaced b st = edit_board (\<lambda>_. lines_text (board_lines b)) st"

lemma board_file_replaced [simp]:
  "board_file (replaced b st) = (board_file st)\<lparr>content := lines_text (board_lines b)\<rparr>"
  "message_number (replaced b st) = message_number st"
  "access_control (replaced b st) = access_control st"
  by (simp_all add: replaced_def edit_board_def)

lemma replaced_held: "replaced b (held st) = held (replaced b st)"
  by (simp add: replaced_def held_def edit_board_def access_commutes)

lemma represents_replaced:
  assumes "represents st b" "n < length b" "good_entry (u, m)" "length (line_of (int n) u m) < 255"
  shows "represents (replaced (b[n := (u, m)]) st) (b[n := (u, m)])"
  using assms by (simp add: represents_def good_board_update)

lemma replace_arguments:
  assumes "is_number d" "m \<noteq> []" "SLASH \<notin> set m" "NUL \<notin> set m"
  shows "tokenize (convertStringToCharArray (d @ SLASH # m)) [SLASH] = [d, m]"
proof -
  have d: "SLASH \<notin> set d" "NUL \<notin> set d" "d \<noteq> []"
    using assms(1) by (auto simp: is_number_iff dest: isdigit_not_special)
  have "tokenize (join SLASH [d, m]) [SLASH] = [d, m]"
    using assms d by (intro tokenize_join_fields) auto
  then show ?thesis
    using d by (simp add: tokenize_def)
qed

lemma replace_algorithm_board:
  assumes "represents st b" "available st" "n < length b" "plain u" "plain m"
    and "length (line_of (int n) u m) < 255"
  shows "optimalReplaceAlgorithm (board_file st) u (int n) m =
         ret ((board_file st)\<lparr>content := lines_text (board_lines (b[n := (u, m)]))\<rparr>)"
  using assms optimalReplaceAlgorithm_lines [of "board_lines b" "board_file st" "int n" u m]
    good_board_readable [of b]
  by (simp add: represents_def available_def board_lines_update)

lemma replaceOperation_runs:
  assumes rep: "represents st b" "available st" "write_lock_free st"
    and n: "is_number d" "stoi d = ret (int n)" "n < length b"
    and new: "good_entry (u, m)" "SLASH \<notin> set m" "length (line_of (int n) u m) < 255"
  shows "replaceOperation u (d @ SLASH # m) hold un st =
     bind_run (info_result (board_lines b ! n)) (\<lambda>(ou, om).
       ret (createMessage 30 ''WROTE'' (to_string (int n)) (\<not> hold), Undo_Replace ou (int n) om,
            if hold then held (replaced (b[n := (u, m)]) st) else replaced (b[n := (u, m)]) st))"
proof -
  have args: "tokenize (convertStringToCharArray (d @ SLASH # m)) [SLASH] = [d, m]"
    using n(1) new by (intro replace_arguments) (auto simp: plain_def)
  have info: "getMessageNumberInfo (board_file st) (int n) = info_result (board_lines b ! n)"
    using message_info_loop_finds [of "board_lines b" "replicate 256 NUL" n]
      good_board_readable [of b] rep n(3)
    by (simp add: getMessageNumberInfo_def represents_def available_def open_read_def)
  have alg: "optimalReplaceAlgorithm (board_file st) u (int n) m =
      ret ((board_file st)\<lparr>content := lines_text (board_lines (b[n := (u, m)]))\<rparr>)"
    using rep n(3) new by (intro replace_algorithm_board) auto
  show ?thesis
    using rep(2) acquireWriteLock_free [OF rep(3)] release_held [OF rep(3)]
    by (simp add: replaceOperation_def available_def args n(2) info alg vector_at_def Let_def
          release_unless_held_def replaced_def held_def edit_board_def access_commutes
          case_prod_unfold)
qed

lemma replaceOperation_done:
  assumes rep: "represents st b" "available st" "write_lock_free st"
    and n: "is_number d" "stoi d = ret (int n)" "n < length b"
    and new: "good_entry (u, m)" "SLASH \<notin> set m" "length (line_of (int n) u m) < 255"
    and old: "SLASH \<notin> set (snd (b ! n))"
  shows "replaceOperation u (d @ SLASH # m) hold un st =
     ret (createMessage 30 ''WROTE'' (to_string (int n)) (\<not> hold),
          Undo_Replace (fst (b ! n)) (int n) (snd (b ! n)),
          if hold then held (replaced (b[n := (u, m)]) st) else replaced (b[n := (u, m)]) st)"
proof -
  have "good_entry (b ! n)"
    using rep(1) n(3) by (simp add: represents_def good_board_def list_all_length)
  then have "info_result (board_lines b ! n) = ret (fst (b ! n), snd (b ! n))"
    using info_result_line [of "fst (b ! n)" "snd (b ! n)"] n(3) old by simp
  then show ?thesis using replaceOperation_runs [OF rep n new] by (simp add: case_prod_unfold)
qed

lemma undo_replace_restores:
  assumes rep: "represents st b" "available st" and n: "n < length b"
    and new: "good_entry (u, m)" "length (line_of (int n) u m) < 255"
  shows "run_undo (Undo_Replace (fst (b ! n)) (int n) (snd (b ! n)))
           (held (replaced (b[n := (u, m)]) st)) = ret (held st)"
proof -
  let ?b' = "b[n := (u, m)]"
  have ge: "good_entry (b ! n)" "length (line_of (int n) (fst (b ! n)) (snd (b ! n))) < 255"
    using rep(1) n by (auto simp: represents_def good_board_def list_all_length)
  then have pl: "plain (fst (b ! n))" "plain (snd (b ! n))" by (cases "b ! n"; simp)+
  have "represents (held (replaced ?b' st)) ?b'"
    using represents_replaced [OF rep(1) n new] by (simp add: represents_def)
  moreover have "available (held (replaced ?b' st))"
    using rep(2) by (simp add: available_def)
  ultimately have "optimalReplaceAlgorithm (board_file (held (replaced ?b' st))) (fst (b ! n))
      (int n) (snd (b ! n)) =
      ret ((board_file (held (replaced ?b' st)))
             \<lparr>content := lines_text (board_lines (?b'[n := (fst (b ! n), snd (b ! n))]))\<rparr>)"
    using n ge pl by (intro replace_algorithm_board) auto
  moreover have "(board_file (held (replaced ?b' st)))
      \<lparr>content := lines_text (board_lines (?b'[n := (fst (b ! n), snd (b ! n))]))\<rparr> = board_file st"
    using rep(1) n by (simp add: represents_def)
  moreover have "put_board_file (board_file st) (held (replaced ?b' st)) = held st"
    using put_board_file_self [of st] rep(2)
    by (simp add: available_def held_def replaced_def edit_board_def access_commutes)
  ultimately show ?thesis by (simp add: run_undo_def)
qed

section \<open>A concrete node\<close>

text \<open>A node whose file holds a given board; the examples below and in the other theories use it.\<close>

definition example_node :: "board \<Rightarrow> store" where
  "example_node b = \<lparr>bulletinBoardFile = ''board'',
     disk = [''board'' \<mapsto> \<lparr>content = lines_text (board_lines b), readable = True, writable = True\<rparr>],
     can_create = True, message_number = int (length b), access_control = initial_access\<rparr>"

lemma board_file_example [simp]:
  "board_file (example_node b) = \<lparr>content = lines_text (board_lines b), readable = True, writable = True\<rparr>"
  by (simp add: board_file_def example_node_def)

lemma example_node_available [simp]: "available (example_node b)"
  by (simp add: available_def)

lemma example_node_ready [simp]:
  "write_lock_free (example_node b)"
  "\<not> reader_must_wait (access_control (example_node b))"
  "message_number (example_node b) = int (length b)"
  by (simp_all add: write_lock_free_def writer_must_wait_def reader_must_wait_def
      example_node_def initial_access_def)

lemma example_node_represents: "good_board b \<Longrightarrow> represents (example_node b) b"
  by (simp add: represents_def)

definition example_board :: board where
  "example_board = [(''ann'', ''hello''), (''bob'', ''hi'')]"

lemma example_board_good [simp]: "good_board example_board" "length example_board = 2"
  by (code_simp, code_simp)

lemma example_represents [simp]: "represents (example_node example_board) example_board"
  by (simp add: example_node_represents)

section \<open>Properties\<close>

text \<open>C19: WRITE appends. On a node that holds a board and whose lock is free, \<open>writeOperation\<close>
  answers with the number of messages there were, adds the entry at the end, and releases or
  keeps the lock as it is told.\<close>

theorem write_appends:
  assumes "represents st b" "available st" "write_lock_free st"
    and "good_entry (u, m)" "length (line_of (int (length b)) u m) < 254"
  shows "\<exists>st'. writeOperation u m holdLock un st =
      ret (createMessage 30 ''WROTE'' (to_string (int (length b))) (\<not> holdLock),
           Undo_Write (int (length (content (board_file st)))), if holdLock then held st' else st') \<and>
    represents st' (b @ [(u, m)]) \<and> access_control st' = access_control st"
  using assms represents_posted [OF assms(1,4,5)]
  by (intro exI [of _ "posted u m st"])
     (simp add: writeOperation_done available_def represents_def getBulletinBoardFileSize_def)

theorem write_appends_witness:
  "\<exists>st'. writeOperation ''eve'' ''yo'' False Undo_Nothing (example_node example_board) =
      ret (createMessage 30 ''WROTE'' (to_string 2) True, Undo_Write 21, st') \<and>
    represents st' (example_board @ [(''eve'', ''yo'')])"
proof -
  have "length (content (board_file (example_node example_board))) = 21"
    "length (line_of 2 ''eve'' ''yo'') < 254"
    by (simp, code_simp, code_simp)
  then show ?thesis
    using write_appends [of "example_node example_board" example_board "''eve''" "''yo''" False Undo_Nothing]
    by auto
qed

text \<open>C21: READ looks up. A number below the number of messages is answered with that entry, any other
  number with \<open>UNKNOWN\<close>, and the state does not change.\<close>

theorem read_looks_up:
  assumes "represents st b" "readable (board_file st)" "\<not> reader_must_wait (access_control st)"
  shows "readMessageFromFile n st =
    ret (if 0 \<le> n \<and> n < int (length b)
         then sendMessageToSocket 20 ''MESSAGE''
                (to_string n @ [SP] @ fst (b ! nat n) @ [SLASH] @ snd (b ! nat n))
         else sendMessageToSocket 21 UNKNOWN
                (snprintf 255 (to_string n @ [SP] @ ''The given message-number does not exist.'')), st)"
  using assms by (rule readMessageFromFile_board)

theorem read_looks_up_witness:
  "readMessageFromFile 1 (example_node example_board) =
     ret (sendMessageToSocket 20 ''MESSAGE'' ''1 bob/hi'', example_node example_board)"
proof -
  have "to_string 1 = ''1''" "example_board ! 1 = (''bob'', ''hi'')"
    by (code_simp, simp add: example_board_def)
  then show ?thesis
    using read_looks_up [of "example_node example_board" example_board 1] by simp
qed

text \<open>C20: REPLACE updates. On a node that holds a board and whose lock is free, \<open>replaceOperation\<close>
  rewrites the entry it names and no other.\<close>

theorem replace_updates:
  assumes "represents st b" "available st" "write_lock_free st"
    and "is_number d" "stoi d = ret (int n)" "n < length b"
    and "good_entry (u, m)" "SLASH \<notin> set m" "length (line_of (int n) u m) < 255"
    and "SLASH \<notin> set (snd (b ! n))"
  shows "\<exists>st'. replaceOperation u (d @ SLASH # m) holdLock un st =
      ret (createMessage 30 ''WROTE'' (to_string (int n)) (\<not> holdLock),
           Undo_Replace (fst (b ! n)) (int n) (snd (b ! n)), if holdLock then held st' else st') \<and>
    represents st' (b[n := (u, m)]) \<and> access_control st' = access_control st"
  using replaceOperation_done [OF assms] represents_replaced [OF assms(1,6,7,9)] by auto

theorem replace_updates_witness:
  "\<exists>st'. replaceOperation ''eve'' ''0/yo'' False Undo_Nothing (example_node example_board) =
      ret (createMessage 30 ''WROTE'' (to_string 0) True, Undo_Replace ''ann'' 0 ''hello'', st') \<and>
    represents st' [(''eve'', ''yo''), (''bob'', ''hi'')]"
proof -
  have "is_number ''0''" "stoi ''0'' = ret 0" "length (line_of 0 ''eve'' ''yo'') < 255"
    by (code_simp, code_simp, code_simp)
  then show ?thesis
    using replace_updates [of "example_node example_board" example_board "''0''" 0 "''eve''" "''yo''"
        False Undo_Nothing]
    by (auto simp: example_board_def example_node_represents [of example_board, unfolded example_board_def]
        example_board_good [unfolded example_board_def])
qed

text \<open>C22: the undo of a WRITE under a held lock restores the state the write found, exactly.\<close>

theorem undo_of_write_restores:
  assumes "available st" "write_lock_free st" "writeOperation u m True un st = ret (r, un', st')"
  shows "run_undo un' st' = ret (held st)"
  using assms undo_write_restores [of st u m] by (auto simp: writeOperation_done available_def)

theorem undo_of_write_restores_witness:
  "run_undo (Undo_Write 21) (held (posted ''eve'' ''yo'' (example_node example_board))) =
     ret (held (example_node example_board))"
proof -
  have "length (content (board_file (example_node example_board))) = 21" by (simp, code_simp)
  then have "getBulletinBoardFileSize (example_node example_board) = 21"
    by (simp add: getBulletinBoardFileSize_def)
  then show ?thesis
    using undo_of_write_restores [of "example_node example_board" "''eve''" "''yo''"] by (simp add: writeOperation_done)
qed



text \<open>A restart finds every message again: counting the lines of the file gives the number the
  next message gets, so the node represents the board its file holds.\<close>

theorem restart_represents:
  assumes "disk st file' = Some f" "readable f" "content f = lines_text (board_lines b)" "good_board b"
  shows "\<exists>st'. setBulletinBoardFile file' st = ret st' \<and> bulletinBoardFile st' = file' \<and>
    disk st' = disk st \<and> represents st' b"
proof -
  have "setBulletinBoardFile file' st =
      ret (st\<lparr>bulletinBoardFile := file', message_number := int (length b)\<rparr>)"
    unfolding setBulletinBoardFile_def
    by (subst set_initial_message_number_lines [of _ f "board_lines b"])
       (use assms good_board_readable in simp_all)
  then show ?thesis using assms by (simp add: represents_def board_file_def)
qed

theorem restart_represents_witness:
  "\<exists>st'. setBulletinBoardFile ''board'' ((example_node example_board)\<lparr>message_number := 99\<rparr>) = ret st' \<and>
     represents st' example_board"
  using restart_represents [of "(example_node example_board)\<lparr>message_number := 99\<rparr>" "''board''"
      "\<lparr>content = lines_text (board_lines example_board), readable = True, writable = True\<rparr>" example_board]
  by (auto simp: example_node_def)

end
