(* ===== verification/Commit_Contract.thy ===== *)
theory Commit_Contract
  imports Board_Refinement
begin

text \<open>
  What the two-phase commit relies on in \<open>writeOperation\<close> and \<open>replaceOperation\<close>: the reply
  tells success from failure by the word \<open>ERROR\<close>, a failed operation changes nothing, a
  successful one leaves the write lock held exactly when asked to, and the undo action it
  hands out restores the state. The locale states the contract, both writers fulfil it.
\<close>

section \<open>Replies\<close>

lemma contains_append_foreign:
  assumes "pat \<noteq> []" "set pat \<inter> set b = {}" "contains pat (a @ b)"
  shows "contains pat a"
proof -
  from assms(3) obtain p q where "a @ b = (p @ pat) @ q" by (auto simp: contains_iff)
  then consider us where "a = (p @ pat) @ us" | us where "p @ pat = a @ us" "b = us @ q"
    unfolding append_eq_append_conv2 [of a b "p @ pat" q] by metis
  then show ?thesis
  proof cases
    case 1
    then show ?thesis by (auto simp: contains_iff)
  next
    case 2
    have "us = []"
    proof (rule ccontr)
      assume "us \<noteq> []"
      with 2 have "last pat = last us" using assms(1) by (metis last_appendR)
      with \<open>us \<noteq> []\<close> assms(1,2) 2 show False
        by (metis IntI Un_iff empty_iff last_in_set set_append)
    qed
    with 2 have "a = p @ pat @ []" by simp
    then show ?thesis unfolding contains_iff by blast
  qed
qed

lemma contains_take: "contains pat (take k s) \<Longrightarrow> contains pat s"
  by (metis append.assoc append_take_drop_id contains_iff)

lemma nat_to_string_digit: "n < 10 \<Longrightarrow> nat_to_string n = [digit_char n]"
  by (simp add: nat_to_string.simps)

lemma digit_chars [string_simps]:
  "digit_char 0 = CHR ''0''" "digit_char 1 = CHR ''1''" "digit_char (Suc 0) = CHR ''1''"
  "digit_char 2 = CHR ''2''" "digit_char 3 = CHR ''3''" "digit_char 4 = CHR ''4''"
  "digit_char 5 = CHR ''5''" "digit_char 6 = CHR ''6''" "digit_char 7 = CHR ''7''"
  "digit_char 8 = CHR ''8''" "digit_char 9 = CHR ''9''"
  by code_simp+

lemma fmt_codes [string_simps]:
  "fmt_2_1f 0 = ''0.0''" "fmt_2_1f 10 = ''1.0''" "fmt_2_1f 12 = ''1.2''" "fmt_2_1f 20 = ''2.0''"
  "fmt_2_1f 21 = ''2.1''" "fmt_2_1f 22 = ''2.2''" "fmt_2_1f 30 = ''3.0''" "fmt_2_1f 31 = ''3.1''"
  "fmt_2_1f 32 = ''3.2''" "fmt_2_1f 40 = ''4.0''" "fmt_2_1f 50 = ''5.0''"
  by (simp_all add: fmt_2_1f_def nat_to_string_digit digit_chars)

lemma reply_wrote_no_error: "\<not> contains ERROR (createMessage 30 ''WROTE'' (to_string n) nl)"
proof
  let ?digits = "to_string n @ (if nl then [LF] else [])"
  assume "contains ERROR (createMessage 30 ''WROTE'' (to_string n) nl)"
  moreover have "createMessage 30 ''WROTE'' (to_string n) nl = take 254 (''3.0 WROTE '' @ ?digits)"
    by (simp add: createMessage_def snprintf_def fmt_codes)
  ultimately have "contains ERROR (''3.0 WROTE '' @ ?digits)"
    by (metis contains_take)
  then have "contains ERROR ''3.0 WROTE ''"
  proof (rule contains_append_foreign [rotated 2])
    show "set ERROR \<inter> set ?digits = {}"
      by (auto dest!: to_string_chars simp: isdigit_def)
  qed simp
  then show False by simp
qed

lemma reply_error:
  "contains ERROR (createMessage 32 ''ERROR WRITE'' ''bbfile currently unavailable'' nl)"
  "contains ERROR (createMessage 32 ''ERROR WRITE'' ''bbfile is currently unavailable'' nl)"
  by (simp_all add: createMessage_def fmt_codes)

section \<open>What every call leaves behind\<close>

lemma acquireWriteLock_ret:
  "acquireWriteLock a = ret a' \<Longrightarrow> \<not> writer_must_wait a \<and> a' = a\<lparr>writer_active := True\<rparr>"
  by (auto simp: acquireWriteLock_def access_defs Let_def split: if_splits)

lemma writeOperation_ret:
  assumes "writeOperation u m hold un st = ret (r, un', st')"
  shows "r \<noteq> [] \<and>
    (if contains ERROR r then \<not> writable (board_file st) \<and> un' = un \<and> st' = st
     else writable (board_file st) \<and> write_lock_free st \<and>
       access_control st' = (if hold then (access_control st)\<lparr>writer_active := True\<rparr>
                             else access_control st))"
proof (cases "writable (board_file st)")
  case False
  with assms show ?thesis
    by (auto simp: writeOperation_def reply_error createMessage_nonempty)
next
  case w: True
  show ?thesis
  proof (cases "write_lock_free st")
    case False
    with w assms show ?thesis by (simp add: writeOperation_def acquireWriteLock_taken)
  next
    case True
    with w assms show ?thesis
      by (auto simp: writeOperation_done reply_wrote_no_error createMessage_nonempty held_def)
  qed
qed

lemma replaceOperation_ret:
  assumes "replaceOperation u a hold un st = ret (r, un', st')"
  shows "r \<noteq> [] \<and>
    (if contains ERROR r then \<not> available st \<and> un' = un \<and> st' = st
     else available st \<and> write_lock_free st \<and>
       access_control st' = (if hold then (access_control st)\<lparr>writer_active := True\<rparr>
                             else access_control st))"
proof (cases "available st")
  case False
  with assms show ?thesis
    by (auto simp: replaceOperation_def available_def reply_error createMessage_nonempty)
next
  case av: True
  show ?thesis
  proof (cases "write_lock_free st")
    case False
    with av assms show ?thesis
      by (auto simp: replaceOperation_def available_def acquireWriteLock_taken)
  next
    case True
    with av assms acquireWriteLock_free [OF True] release_held [OF True] show ?thesis
      by (auto simp: replaceOperation_def available_def bind_run_ret_iff Let_def
            reply_wrote_no_error createMessage_nonempty release_unless_held_def)
  qed
qed

lemma perform_operation_ret:
  assumes "perform_operation c u a hold un st = ret (r, un', st')"
  shows "r \<noteq> [] \<and>
    (if contains ERROR r then un' = un \<and> st' = st
     else write_lock_free st \<and>
       access_control st' = (if hold then (access_control st)\<lparr>writer_active := True\<rparr>
                             else access_control st))"
  using assms writeOperation_ret [of u a hold un st r un' st']
    replaceOperation_ret [of u a hold un st r un' st']
  by (auto simp: perform_operation_def split: if_splits)

lemma perform_operation_waits:
  assumes "available st" "\<not> write_lock_free st"
  shows "perform_operation c u a hold un st = hang"
  using assms
  by (auto simp: perform_operation_def writeOperation_def replaceOperation_def available_def
        acquireWriteLock_taken)

lemma run_undo_access: "run_undo u st = ret st' \<Longrightarrow> access_control st' = access_control st"
  by (cases u) (auto simp: run_undo_def edit_board_def bind_run_ret_iff Let_def split: if_splits)

section \<open>The contract\<close>

locale undoable_operation =
  fixes op :: "bool \<Rightarrow> undo \<Rightarrow> store \<Rightarrow> (bytes \<times> undo \<times> store) run"
    and ready :: "store \<Rightarrow> bool"
    and effect :: "store \<Rightarrow> store"
  assumes op_commits: "ready st \<Longrightarrow>
      \<exists>r u. op hold un st = ret (r, u, if hold then held (effect st) else effect st) \<and>
            \<not> contains ERROR r \<and> run_undo u (held (effect st)) = ret (held st)"
    and op_refuses: "\<not> writable (board_file st) \<Longrightarrow>
      \<exists>r. op hold un st = ret (r, un, st) \<and> contains ERROR r"
    and ready_free: "ready st \<Longrightarrow> write_lock_free st"
    and effect_access: "ready st \<Longrightarrow> access_control (effect st) = access_control st"
begin

lemma release_effect:
  "ready st \<Longrightarrow>
   set_access (releaseWriteLock (access_control (held (effect st)))) (held (effect st)) = effect st"
  using release_held [OF ready_free] by (simp add: held_def effect_access)

lemma release_original:
  "ready st \<Longrightarrow> set_access (releaseWriteLock (access_control (held st))) (held st) = st"
  using release_held [OF ready_free] by (simp add: held_def)

lemma effect_held_blocks: "ready st \<Longrightarrow> \<not> write_lock_free (held (effect st))"
  by (simp add: write_lock_free_def held_def writer_must_wait_def)

end

interpretation write_op: undoable_operation "writeOperation u m"
  "\<lambda>st. available st \<and> write_lock_free st" "posted u m" for u m
proof
  fix hold un st
  assume "available st \<and> write_lock_free st"
  then show "\<exists>r u'. writeOperation u m hold un st =
      ret (r, u', if hold then held (posted u m st) else posted u m st) \<and>
      \<not> contains ERROR r \<and> run_undo u' (held (posted u m st)) = ret (held st)"
    by (auto simp: writeOperation_done available_def reply_wrote_no_error undo_write_restores)
qed (auto simp: writeOperation_def reply_error)

text \<open>When a REPLACE can be carried out on a node that holds the board \<open>b\<close>.\<close>

definition replace_ready ::
    "board \<Rightarrow> nat \<Rightarrow> bytes \<Rightarrow> bytes \<Rightarrow> bytes \<Rightarrow> store \<Rightarrow> bool" where
  "replace_ready b n d u m st \<longleftrightarrow>
     available st \<and> write_lock_free st \<and> represents st b \<and> n < length b \<and>
     is_number d \<and> stoi d = ret (int n) \<and> good_entry (u, m) \<and> SLASH \<notin> set m \<and>
     length (line_of (int n) u m) < 255 \<and> SLASH \<notin> set (snd (b ! n))"

interpretation replace_op: undoable_operation "replaceOperation u (d @ SLASH # m)"
  "replace_ready b n d u m" "replaced (b[n := (u, m)])" for b n d u m
proof
  fix hold un st
  assume r: "replace_ready b n d u m st"
  have "replaceOperation u (d @ SLASH # m) hold un st =
     ret (createMessage 30 ''WROTE'' (to_string (int n)) (\<not> hold),
          Undo_Replace (fst (b ! n)) (int n) (snd (b ! n)),
          if hold then held (replaced (b[n := (u, m)]) st) else replaced (b[n := (u, m)]) st)"
    using r unfolding replace_ready_def by (intro replaceOperation_done) auto
  moreover have "run_undo (Undo_Replace (fst (b ! n)) (int n) (snd (b ! n)))
      (held (replaced (b[n := (u, m)]) st)) = ret (held st)"
    using r unfolding replace_ready_def by (intro undo_replace_restores) auto
  ultimately show "\<exists>r u'. replaceOperation u (d @ SLASH # m) hold un st =
      ret (r, u', if hold then held (replaced (b[n := (u, m)]) st) else replaced (b[n := (u, m)]) st) \<and>
      \<not> contains ERROR r \<and> run_undo u' (held (replaced (b[n := (u, m)]) st)) = ret (held st)"
    by (auto simp: reply_wrote_no_error)
qed (auto simp: replaceOperation_def reply_error replace_ready_def)

section \<open>Properties\<close>

text \<open>The reply tells what happened, which is what both sides of the commit decide by. A reply
  that contains \<open>ERROR\<close> means that nothing changed; any other reply means that the lock was free
  and that it is now held if and only if the caller asked for it.\<close>

theorem reply_tells_the_truth:
  assumes "perform_operation c u a holdLock un st = ret (r, un', st')"
  shows "if contains ERROR r then un' = un \<and> st' = st
    else write_lock_free st \<and> access_control st' =
           (if holdLock then (access_control st)\<lparr>writer_active := True\<rparr> else access_control st)"
  using perform_operation_ret [OF assms] by simp

theorem reply_tells_the_truth_witness:
  "write_lock_free (example_node []) \<and> access_control (held (posted ''ann'' ''hi'' (example_node []))) =
     (access_control (example_node []))\<lparr>writer_active := True\<rparr>"
  using reply_tells_the_truth [of "WRITE" "''ann''" "''hi''" True Undo_Nothing "example_node []"]
    reply_wrote_no_error
  by (simp add: perform_operation_def writeOperation_done available_def)

end
