(* ===== verification/Sync_Server.thy ===== *)
theory Sync_Server
  imports Commit_Contract
begin

text \<open>
  \<open>sync-server.cpp\<close>: the slave side of the two-phase commit. One session is the connection
  of one master: the status machine \<open>SyncSlaveServerStatus\<close>, the handler of a message, the
  receive loop with its timeout, and the clean-up after it. What the operating system
  delivers is a list of \<open>poll_outcome\<close>, one for each call of \<open>recv_nonblock\<close>.
\<close>

section \<open>Session state\<close>

datatype SyncSlaveServerStatus =
    IDLE | PRECOMMIT_ACKNOWLEDGED | AWAITING_SUCCESS_OR_UNDO_BROADCAST

fun slave_rank :: "SyncSlaveServerStatus \<Rightarrow> nat" where
  "slave_rank IDLE = 0"
| "slave_rank PRECOMMIT_ACKNOWLEDGED = 1"
| "slave_rank AWAITING_SUCCESS_OR_UNDO_BROADCAST = 2"

lemma slave_rank_inject: "slave_rank a = slave_rank b \<Longrightarrow> a = b"
  by (cases a; cases b) auto

instantiation SyncSlaveServerStatus :: linorder
begin

definition less_eq_SyncSlaveServerStatus ::
    "SyncSlaveServerStatus \<Rightarrow> SyncSlaveServerStatus \<Rightarrow> bool" where
  "a \<le> b \<longleftrightarrow> slave_rank a \<le> slave_rank b"

definition less_SyncSlaveServerStatus ::
    "SyncSlaveServerStatus \<Rightarrow> SyncSlaveServerStatus \<Rightarrow> bool" where
  "a < b \<longleftrightarrow> slave_rank a < slave_rank b"

instance
  by standard
     (auto simp: less_eq_SyncSlaveServerStatus_def less_SyncSlaveServerStatus_def
           intro: slave_rank_inject)

end

record sync_session =
  currentStatus :: SyncSlaveServerStatus
  undoCommitOperation :: undo
  operationPerformed :: bytes
  session_user :: bytes
  replies :: "bytes list"      \<comment> \<open>what was sent to the master, in order\<close>
  node :: store

definition new_session :: "store \<Rightarrow> sync_session" where
  "new_session st = \<lparr>currentStatus = IDLE, undoCommitOperation = Undo_Nothing,
     operationPerformed = [], session_user = [], replies = [], node = st\<rparr>"

definition reply_master :: "bytes \<Rightarrow> bytes \<Rightarrow> sync_session \<Rightarrow> sync_session" where
  "reply_master responseText additionalInfo s =
     s\<lparr>replies := replies s @ [sendMessageToSocket 50 responseText additionalInfo]\<rparr>"

definition release_write_lock :: "store \<Rightarrow> store" where
  "release_write_lock st = set_access (releaseWriteLock (access_control st)) st"

section \<open>One message\<close>

definition sync_request :: "bytes \<Rightarrow> bytes run" where
  \<comment> \<open>the bytes of one \<open>recv\<close> (at least one), the last of them overwritten by NUL, and the
      one before it when it is a carriage return; the result is the C string in the buffer\<close>
  "sync_request req =
     (let n = length req; req1 = req[n - 1 := NUL] in
      if n < 2 then crash Out_Of_Bounds
      else ret (cstr (if req1 ! (n - 2) = CR then req1[n - 2 := NUL] else req1)))"

definition handle_sync_command :: "bytes list \<Rightarrow> sync_session \<Rightarrow> (bool \<times> sync_session) run" where
  \<comment> \<open>the \<open>if\<close> chain of the loop body; \<open>True\<close> for the branches that leave the loop\<close>
  "handle_sync_command tokens s =
     bind_run (vector_at tokens 1) (\<lambda>token1.
       if token1 = PRECOMMIT \<and> currentStatus s = IDLE then
         bind_run (vector_at tokens 2) (\<lambda>user.
           ret (False, (reply_master READY ''User stored. Syncronization Server available.''
                          (s\<lparr>session_user := user\<rparr>))\<lparr>currentStatus := PRECOMMIT_ACKNOWLEDGED\<rparr>))
       else if token1 = ABORT \<and> currentStatus s = PRECOMMIT_ACKNOWLEDGED then
         ret (True, s)
       else if token1 = COMMIT \<and> currentStatus s = PRECOMMIT_ACKNOWLEDGED then
         bind_run (vector_at tokens 2) (\<lambda>command.
         bind_run (vector_at tokens 3) (\<lambda>argument.
         bind_run (perform_operation command (session_user s) argument True
                     (undoCommitOperation s) (node s)) (\<lambda>(response, undo, st).
           let operationFailed = contains ERROR response;
               responseText = (if operationFailed then COMMIT_UNSUCCESS else COMMIT_SUCCESS);
               s1 = reply_master responseText response
                      (s\<lparr>undoCommitOperation := undo, node := st\<rparr>)
           in if operationFailed then ret (True, s1)
              else ret (False, s1\<lparr>operationPerformed := command,
                                 currentStatus := AWAITING_SUCCESS_OR_UNDO_BROADCAST\<rparr>))))
       else if token1 = SUCCESS_NOOP \<and> currentStatus s = AWAITING_SUCCESS_OR_UNDO_BROADCAST then
         ret (True, s\<lparr>node := release_write_lock (node s)\<rparr>)
       else if token1 = UNSUCCESS_UNDO \<and> currentStatus s = AWAITING_SUCCESS_OR_UNDO_BROADCAST then
         bind_run (run_undo (undoCommitOperation s) (node s)) (\<lambda>st.
           ret (True, s\<lparr>node := release_write_lock st\<rparr>))
       else ret (False, s))"

section \<open>The session\<close>

fun sync_loop :: "poll_outcome list \<Rightarrow> sync_session \<Rightarrow> (int option \<times> sync_session) run" where
  \<comment> \<open>\<open>None\<close> when the list ends and the connection is still open, otherwise the last value
      of \<open>n\<close>\<close>
  "sync_loop [] s = ret (None, s)"
| "sync_loop (e # es) s =
     (case recv_nonblock e 255 of (n, req) \<Rightarrow>
        if n = recv_nodata \<or> n = 0 \<or> n < 0 then ret (Some n, s)
        else bind_run (sync_request req) (\<lambda>request.
             bind_run (handle_sync_command (tokenize request [SP]) s) (\<lambda>(stop, s').
               if stop then ret (Some n, s') else sync_loop es s')))"

definition end_of_session :: "int \<Rightarrow> sync_session \<Rightarrow> sync_session run" where
  "end_of_session n s =
     (if n = recv_nodata \<or> n = 0 then
        (if currentStatus s = AWAITING_SUCCESS_OR_UNDO_BROADCAST then
           bind_run (run_undo (undoCommitOperation s) (node s)) (\<lambda>st.
             ret (s\<lparr>node := release_write_lock st\<rparr>))
         else ret s)
      else ret s)"

definition sync_session_run :: "poll_outcome list \<Rightarrow> store \<Rightarrow> (bool \<times> sync_session) run" where
  \<comment> \<open>whether the connection was closed, and the state reached\<close>
  "sync_session_run events st =
     bind_run (sync_loop events (new_session st)) (\<lambda>(final, s).
       case final of
         None \<Rightarrow> ret (False, s)
       | Some n \<Rightarrow> bind_run (end_of_session n s) (\<lambda>s'. ret (True, s')))"

section \<open>The write lock across a session\<close>

text \<open>
  While a session of a node whose lock counters were \<open>a\<close> runs, the lock is held exactly in
  the last status.
\<close>

definition lock_balanced :: "access_data \<Rightarrow> sync_session \<Rightarrow> bool" where
  "lock_balanced a s \<longleftrightarrow>
     (if currentStatus s = AWAITING_SUCCESS_OR_UNDO_BROADCAST
      then \<not> writer_active a \<and> access_control (node s) = a\<lparr>writer_active := True\<rparr>
      else access_control (node s) = a)"

lemma reply_master_fields [simp]:
  "currentStatus (reply_master r i s) = currentStatus s"
  "undoCommitOperation (reply_master r i s) = undoCommitOperation s"
  "operationPerformed (reply_master r i s) = operationPerformed s"
  "session_user (reply_master r i s) = session_user s"
  "node (reply_master r i s) = node s"
  by (simp_all add: reply_master_def)

lemma access_release_write_lock [simp]:
  "access_control (release_write_lock st) = (access_control st)\<lparr>writer_active := False\<rparr>"
  by (simp add: release_write_lock_def releaseWriteLock_def access_defs)

lemma access_data_active_idem: "\<not> writer_active a \<Longrightarrow> a\<lparr>writer_active := False\<rparr> = a"
  by (cases a) simp

lemma handle_sync_command_balanced:
  assumes "handle_sync_command tokens s = ret (stop, s')" "lock_balanced a s"
  shows "if stop then access_control (node s') = a else lock_balanced a s'"
proof (cases "currentStatus s")
  case IDLE
  with assms show ?thesis
    by (auto simp: handle_sync_command_def lock_balanced_def bind_run_ret_iff split: if_splits)
next
  case PRECOMMIT_ACKNOWLEDGED
  with assms show ?thesis
    by (auto simp: handle_sync_command_def lock_balanced_def bind_run_ret_iff Let_def
             write_lock_free_def writer_must_wait_def
             dest!: perform_operation_ret split: if_splits)
next
  case AWAITING_SUCCESS_OR_UNDO_BROADCAST
  with assms show ?thesis
    by (auto simp: handle_sync_command_def lock_balanced_def bind_run_ret_iff
             access_data_active_idem dest!: run_undo_access split: if_splits)
qed

definition no_recv_error :: "poll_outcome \<Rightarrow> bool" where
  "no_recv_error e \<longleftrightarrow> fst (recv_nonblock e 255) \<noteq> -1"

lemma sync_loop_balanced:
  assumes "sync_loop es s = ret (final, s')" "lock_balanced a s" "list_all no_recv_error es"
  shows "case final of None \<Rightarrow> lock_balanced a s'
    | Some n \<Rightarrow> (0 < n \<and> access_control (node s') = a) \<or> (lock_balanced a s' \<and> (n = recv_nodata \<or> n = 0))"
  using assms
proof (induction es arbitrary: s)
  case Nil
  then show ?case by auto
next
  case (Cons e es)
  obtain n req where e: "recv_nonblock e 255 = (n, req)" by force
  show ?case
  proof (cases "n = recv_nodata \<or> n = 0 \<or> n < 0")
    case True
    moreover have "n < 0 \<Longrightarrow> n = recv_nodata"
      using e Cons.prems(3)
      by (auto simp: no_recv_error_def recv_nonblock_def split: poll_outcome.splits recv_outcome.splits)
    ultimately show ?thesis using Cons.prems e by auto
  next
    case False
    with Cons.prems(1) e obtain request stop s1 where
      h: "handle_sync_command (tokenize request [SP]) s = ret (stop, s1)"
      and r: "(if stop then ret (Some n, s1) else sync_loop es s1) = ret (final, s')"
      by (auto simp: bind_run_ret_iff)
    show ?thesis
    proof (cases stop)
      case True
      with r handle_sync_command_balanced [OF h Cons.prems(2)] False show ?thesis by auto
    next
      case cont: False
      then have "lock_balanced a s1" using h Cons.prems(2) by (auto dest: handle_sync_command_balanced)
      with r cont Cons.prems(3) show ?thesis by (intro Cons.IH [of s1]) auto
    qed
  qed
qed

lemma end_of_session_balanced:
  assumes "end_of_session n s = ret s'"
    and "(0 < n \<and> access_control (node s) = a) \<or>
         (lock_balanced a s \<and> (n = recv_nodata \<or> n = 0))"
  shows "access_control (node s') = a"
  using assms
  by (auto simp: end_of_session_def lock_balanced_def bind_run_ret_iff access_data_active_idem
           recv_nodata_def dest!: run_undo_access split: if_splits)

section \<open>The messages of a master\<close>

definition word :: "bytes \<Rightarrow> bool" where
  "word w \<longleftrightarrow> w \<noteq> [] \<and> plain w \<and> SP \<notin> set w"

definition master_message :: "bytes \<Rightarrow> bytes \<Rightarrow> bytes" where
  \<comment> \<open>what \<open>communicateWithPeer\<close> sends for one protocol message\<close>
  "master_message kind info = sendMessageToSocket 50 kind info"

abbreviation delivered :: "bytes \<Rightarrow> poll_outcome" where
  "delivered msg \<equiv> Poll_Ready (Received msg)"

definition wire_ok :: "bytes \<Rightarrow> bytes \<Rightarrow> bytes \<Rightarrow> bool" where
  \<comment> \<open>the words of a transaction and the room they need in the buffers of 255 bytes\<close>
  "wire_ok user command argument \<longleftrightarrow>
     word user \<and> word command \<and> word argument \<and>
     length user \<le> 239 \<and> length command + length argument \<le> 241"

lemma sync_request_last:
  assumes "plain t" "t \<noteq> []"
  shows "sync_request (t @ [c]) = ret t"
proof -
  let ?r = "(t @ [c])[length t := NUL]"
  have r: "?r = t @ [NUL]" by (simp add: list_update_append)
  have "?r ! (length t - 1) = last t" using assms(2) by (simp add: r nth_append last_conv_nth)
  moreover have "last t \<noteq> CR" using assms by (metis last_in_set plain_def)
  ultimately show ?thesis
    using assms r by (simp add: sync_request_def Let_def plain_def)
qed

lemma recv_message: "length msg \<le> 255 \<Longrightarrow> recv_nonblock (delivered msg) 255 = (int (length msg), msg)"
  by (simp add: recv_nonblock_def)

lemma sync_loop_message:
  assumes "plain t" "t \<noteq> []" "length t < 255"
  shows "sync_loop (delivered (t @ [c]) # es) s =
    bind_run (handle_sync_command (tokenize t [SP]) s) (\<lambda>(stop, s').
      if stop then ret (Some (1 + int (length t)), s') else sync_loop es s')"
  using assms by (simp add: recv_message recv_nodata_def sync_request_last)

lemma join_words [simp]:
  "join SP [a, b] = a @ SP # b" "join SP [a, b, c] = a @ SP # b @ SP # c"
  "join SP [a, b, c, d] = a @ SP # b @ SP # c @ SP # d"
  by simp_all

lemma tokenize_words:
  "list_all word ws \<Longrightarrow> tokenize (join SP ws) [SP] = ws"
  by (rule tokenize_join_fields) (auto simp: list_all_iff word_def plain_def)

lemma protocol_words [simp]:
  "word ''5.0''" "word PRECOMMIT" "word COMMIT" "word WRITE" "word REPLACE"
  by (simp_all add: word_def)

lemma message_precommit:
  assumes "word user" "length user \<le> 239"
  shows "\<exists>t. master_message PRECOMMIT user = t @ [LF] \<and> plain t \<and> t \<noteq> [] \<and> length t < 255 \<and>
           tokenize t [SP] = [''5.0'', PRECOMMIT, user]"
  using assms tokenize_words [of "[''5.0'', PRECOMMIT, user]"]
  by (intro exI [of _ "join SP [''5.0'', PRECOMMIT, user]"])
     (simp add: master_message_def sendMessageToSocket_def fmt_codes word_def)

lemma message_commit:
  assumes "wire_ok user command argument"
  shows "\<exists>t. master_message COMMIT (command @ SP # argument) = t @ [LF] \<and> plain t \<and> t \<noteq> [] \<and>
           length t < 255 \<and> tokenize t [SP] = [''5.0'', COMMIT, command, argument]"
  using assms tokenize_words [of "[''5.0'', COMMIT, command, argument]"]
  by (intro exI [of _ "join SP [''5.0'', COMMIT, command, argument]"])
     (simp add: master_message_def sendMessageToSocket_def fmt_codes word_def wire_ok_def)

lemma message_bare:
  "master_message ABORT [] = ''5.0 ABORT '' @ [LF]"
  "master_message SUCCESS_NOOP [] = ''5.0 SUCCESS_NOOP '' @ [LF]"
  "master_message UNSUCCESS_UNDO [] = ''5.0 UNSUCCESS_UNDO '' @ [LF]"
  by (simp_all add: master_message_def sendMessageToSocket_def fmt_codes)

lemma tokenize_bare:
  "tokenize ''5.0 ABORT '' [SP] = [''5.0'', ABORT]"
  "tokenize ''5.0 SUCCESS_NOOP '' [SP] = [''5.0'', SUCCESS_NOOP]"
  "tokenize ''5.0 UNSUCCESS_UNDO '' [SP] = [''5.0'', UNSUCCESS_UNDO]"
  by code_simp+

section \<open>The outcome of a transaction\<close>

definition acknowledged :: "bytes \<Rightarrow> store \<Rightarrow> sync_session" where
  \<comment> \<open>the session after a \<open>PRECOMMIT\<close>\<close>
  "acknowledged user st =
     (reply_master READY ''User stored. Syncronization Server available.''
        ((new_session st)\<lparr>session_user := user\<rparr>))\<lparr>currentStatus := PRECOMMIT_ACKNOWLEDGED\<rparr>"

lemma sync_loop_precommit:
  assumes "word user" "length user \<le> 239"
  shows "sync_loop (delivered (master_message PRECOMMIT user) # es) (new_session st) =
         sync_loop es (acknowledged user st)"
proof -
  obtain t where t: "master_message PRECOMMIT user = t @ [LF]" "plain t" "t \<noteq> []" "length t < 255"
      "tokenize t [SP] = [''5.0'', PRECOMMIT, user]"
    using message_precommit [OF assms] by blast
  have "handle_sync_command (tokenize t [SP]) (new_session st) = ret (False, acknowledged user st)"
    by (simp add: t(5) handle_sync_command_def vector_at_def new_session_def acknowledged_def
          reply_master_def)
  then show ?thesis unfolding t(1) sync_loop_message [OF t(2-4)] by simp
qed

lemma acknowledged_fields [simp]:
  "currentStatus (acknowledged user st) = PRECOMMIT_ACKNOWLEDGED"
  "session_user (acknowledged user st) = user"
  "undoCommitOperation (acknowledged user st) = Undo_Nothing"
  "node (acknowledged user st) = st"
  by (simp_all add: acknowledged_def new_session_def)

locale committed_command = undoable_operation op ready effect
  for op ready effect +
  fixes command :: bytes and user :: bytes and argument :: bytes
  assumes dispatch: "perform_operation command user argument = op"
begin

lemma commit_handled:
  assumes "ready st"
  obtains s r where
    "handle_sync_command [''5.0'', COMMIT, command, argument] (acknowledged user st) = ret (False, s)"
    "currentStatus s = AWAITING_SUCCESS_OR_UNDO_BROADCAST" "node s = held (effect st)"
    "run_undo (undoCommitOperation s) (node s) = ret (held st)"
    "replies s = replies (acknowledged user st) @ [sendMessageToSocket 50 COMMIT_SUCCESS r]"
proof -
  obtain r u where op: "op True Undo_Nothing st = ret (r, u, held (effect st))"
      "\<not> contains ERROR r" "run_undo u (held (effect st)) = ret (held st)"
    using op_commits [OF assms(1), of True Undo_Nothing] by auto
  define s where "s = (reply_master COMMIT_SUCCESS r
      ((acknowledged user st)\<lparr>undoCommitOperation := u, node := held (effect st)\<rparr>))
      \<lparr>operationPerformed := command, currentStatus := AWAITING_SUCCESS_OR_UNDO_BROADCAST\<rparr>"
  have "handle_sync_command [''5.0'', COMMIT, command, argument] (acknowledged user st) = ret (False, s)"
    using op by (simp add: handle_sync_command_def vector_at_def dispatch s_def Let_def)
  then show ?thesis
    by (rule that [of s r]) (simp_all add: s_def op(3), simp add: reply_master_def)
qed

lemma commit_step:
  assumes "ready st" "wire_ok user command argument"
  obtains s where
    "\<And>es. sync_loop (delivered (master_message COMMIT (command @ SP # argument)) # es)
       (acknowledged user st) = sync_loop es s"
    "currentStatus s = AWAITING_SUCCESS_OR_UNDO_BROADCAST" "node s = held (effect st)"
    "run_undo (undoCommitOperation s) (node s) = ret (held st)"
proof -
  obtain t where t: "master_message COMMIT (command @ SP # argument) = t @ [LF]" "plain t" "t \<noteq> []"
      "length t < 255" "tokenize t [SP] = [''5.0'', COMMIT, command, argument]"
    using message_commit [OF assms(2)] by blast
  obtain s where s: "handle_sync_command (tokenize t [SP]) (acknowledged user st) = ret (False, s)"
      "currentStatus s = AWAITING_SUCCESS_OR_UNDO_BROADCAST" "node s = held (effect st)"
      "run_undo (undoCommitOperation s) (node s) = ret (held st)"
    unfolding t(5) by (rule commit_handled [OF assms(1)])
  have loop: "sync_loop (delivered (t @ [LF]) # es) (acknowledged user st) = sync_loop es s" for es
    unfolding sync_loop_message [OF t(2-4)] using s(1) by simp
  show ?thesis by (rule that [of s]) (simp only: t(1) loop, rule s, rule s, rule s)
qed

abbreviation transaction :: "poll_outcome list \<Rightarrow> poll_outcome list" where
  "transaction es \<equiv> delivered (master_message PRECOMMIT user) #
     delivered (master_message COMMIT (command @ SP # argument)) # es"

lemma session_outcome:
  assumes "ready st" "wire_ok user command argument"
  shows "\<exists>s. sync_session_run (transaction [delivered (master_message SUCCESS_NOOP [])]) st =
             ret (True, s) \<and> node s = effect st"
    and "\<exists>s. sync_session_run (transaction [delivered (master_message UNSUCCESS_UNDO [])]) st =
             ret (True, s) \<and> node s = st"
    and "e \<in> {Poll_Timeout, delivered []} \<Longrightarrow>
         \<exists>s. sync_session_run (transaction [e]) st = ret (True, s) \<and> node s = st"
    and "e \<in> {Poll_Error, Poll_Ready Recv_Error} \<Longrightarrow>
         \<exists>s. sync_session_run (transaction [e]) st = ret (True, s) \<and> node s = held (effect st)"
proof -
  have u: "word user" "length user \<le> 239" using assms(2) by (simp_all add: wire_ok_def)
  obtain s where s:
    "\<And>es. sync_loop (delivered (master_message COMMIT (command @ SP # argument)) # es)
       (acknowledged user st) = sync_loop es s"
    "currentStatus s = AWAITING_SUCCESS_OR_UNDO_BROADCAST" "node s = held (effect st)"
    "run_undo (undoCommitOperation s) (node s) = ret (held st)"
    using commit_step [OF assms] by blast
  have loop: "sync_loop (transaction es) (new_session st) = sync_loop es s" for es
    by (simp only: sync_loop_precommit [OF u] s(1))
  show "\<exists>s. sync_session_run (transaction [delivered (master_message SUCCESS_NOOP [])]) st =
      ret (True, s) \<and> node s = effect st"
    using s(2-4) release_effect [OF assms(1)]
    unfolding sync_session_run_def loop message_bare
    by (subst sync_loop_message)
       (simp_all add: tokenize_bare handle_sync_command_def vector_at_def end_of_session_def
          recv_nodata_def release_write_lock_def)
  show "\<exists>s. sync_session_run (transaction [delivered (master_message UNSUCCESS_UNDO [])]) st =
      ret (True, s) \<and> node s = st"
    using s(2-4) release_original [OF assms(1)]
    unfolding sync_session_run_def loop message_bare
    by (subst sync_loop_message)
       (simp_all add: tokenize_bare handle_sync_command_def vector_at_def end_of_session_def
          recv_nodata_def release_write_lock_def)
  show "\<exists>s. sync_session_run (transaction [e]) st = ret (True, s) \<and> node s = st"
    if "e \<in> {Poll_Timeout, delivered []}"
    using that s(2-4) release_original [OF assms(1)]
    unfolding sync_session_run_def loop
    by (auto simp: recv_nonblock_def recv_nodata_def end_of_session_def release_write_lock_def)
  show "\<exists>s. sync_session_run (transaction [e]) st = ret (True, s) \<and> node s = held (effect st)"
    if "e \<in> {Poll_Error, Poll_Ready Recv_Error}"
    using that s(2,3)
    unfolding sync_session_run_def loop
    by (auto simp: recv_nonblock_def recv_nodata_def end_of_session_def)
qed

end

interpretation write_commit: committed_command "writeOperation u m"
  "\<lambda>st. available st \<and> write_lock_free st" "posted u m" "WRITE" u m for u m
  by unfold_locales (simp add: perform_operation_def fun_eq_iff)

interpretation replace_commit: committed_command "replaceOperation u (d @ SLASH # m)"
  "replace_ready b n d u m" "replaced (b[n := (u, m)])" "REPLACE" u "d @ SLASH # m"
  for b n d u m
  by unfold_locales (simp add: perform_operation_def fun_eq_iff)

section \<open>Properties\<close>

text \<open>C31: whatever a master sends and however the connection ends, short of a receive error, a
  session leaves the lock of the node as it found it.\<close>

theorem session_returns_the_lock:
  assumes "sync_session_run es st = ret (True, s)" "\<forall>e \<in> set es. fst (recv_nonblock e 255) \<noteq> -1"
  shows "access_control (node s) = access_control st"
proof -
  from assms(1) obtain final s1 where l: "sync_loop es (new_session st) = ret (final, s1)"
    and e: "(case final of None \<Rightarrow> ret (False, s1)
      | Some n \<Rightarrow> bind_run (end_of_session n s1) (\<lambda>s'. ret (True, s'))) = ret (True, s)"
    by (auto simp: sync_session_run_def bind_run_ret_iff)
  from e obtain n where n: "final = Some n" "end_of_session n s1 = ret s"
    by (cases final) (auto simp: bind_run_ret_iff)
  have "lock_balanced (access_control st) (new_session st)"
    by (simp add: lock_balanced_def new_session_def)
  from sync_loop_balanced [OF l this] assms(2) n(1)
  have "(0 < n \<and> access_control (node s1) = access_control st) \<or>
      lock_balanced (access_control st) s1 \<and> (n = recv_nodata \<or> n = 0)"
    by (simp add: no_recv_error_def list_all_iff)
  then show ?thesis by (rule end_of_session_balanced [OF n(2)])
qed

theorem session_returns_the_lock_witness:
  "\<exists>s. sync_session_run [delivered (master_message PRECOMMIT ''ann''),
         delivered (master_message COMMIT (WRITE @ SP # ''hi'')), Poll_Timeout] (example_node []) = ret (True, s) \<and>
       \<not> writer_active (access_control (node s))"
proof -
  have w: "wire_ok ''ann'' WRITE ''hi''" by (simp add: wire_ok_def word_def)
  obtain s where s: "sync_session_run [delivered (master_message PRECOMMIT ''ann''),
         delivered (master_message COMMIT (WRITE @ SP # ''hi'')), Poll_Timeout] (example_node []) = ret (True, s)"
    using write_commit.session_outcome(3) [of "example_node []" "''ann''" "''hi''" Poll_Timeout] w by auto
  have "length (master_message k i) \<le> 254" for k i
    by (simp add: master_message_def sendMessageToSocket_def length_snprintf)
  then have "access_control (node s) = access_control (example_node [])"
    by (intro session_returns_the_lock [OF s]) (auto simp: recv_nonblock_def recv_nodata_def)
  then show ?thesis using s by (auto simp: example_node_def initial_access_def)
qed

text \<open>A receive error after the commit is the exception: the session ends with the operation
  kept, not undone, and the write lock of the node held for good.\<close>

theorem recv_error_keeps_the_lock:
  assumes "available st" "write_lock_free st" "wire_ok u WRITE m"
    and "e = Poll_Error \<or> e = Poll_Ready Recv_Error"
  shows "\<exists>s. sync_session_run [delivered (master_message PRECOMMIT u),
         delivered (master_message COMMIT (WRITE @ SP # m)), e] st = ret (True, s) \<and>
    node s = held (posted u m st) \<and>
    (\<forall>c u' a hold un. perform_operation c u' a hold un (node s) = hang)"
proof -
  obtain s where s: "sync_session_run [delivered (master_message PRECOMMIT u),
         delivered (master_message COMMIT (WRITE @ SP # m)), e] st = ret (True, s)"
    "node s = held (posted u m st)"
    using write_commit.session_outcome(4) [of st u m e] assms by auto
  have "available (node s)" using assms(1) s(2) by (simp add: available_def)
  moreover have "\<not> write_lock_free (node s)"
    using write_op.effect_held_blocks [of st u m] assms(1,2) s(2) by simp
  ultimately show ?thesis using s perform_operation_waits by blast
qed

theorem recv_error_keeps_the_lock_witness:
  "\<exists>s. sync_session_run [delivered (master_message PRECOMMIT ''ann''),
         delivered (master_message COMMIT (WRITE @ SP # ''hi'')), Poll_Error] (example_node []) = ret (True, s) \<and>
    perform_operation WRITE ''bob'' ''yo'' False Undo_Nothing (node s) = hang"
  using recv_error_keeps_the_lock [of "example_node []" "''ann''" "''hi''" Poll_Error]
  by (auto simp: wire_ok_def word_def)

end
