(* ===== verification/Peer_Communication.thy ===== *)
theory Peer_Communication
  imports Sync_Server
begin

text \<open>
  \<open>peer-communication.cpp\<close>: the master side of the two-phase commit. A board thread (the
  controller) starts one thread for each peer; the threads share the counters of
  \<open>PeerCommunicationStatistics\<close>, a mutex and a condition variable. The model is a step
  relation: one step is one critical section, one unprotected test the code makes between
  two of them, or the receipt of one answer. What the network delivers is not determined.
\<close>

section \<open>Statistics\<close>

record statistics =
  numberOfPositivePrecommitAcknowledgementsPending :: "64 word"
  shouldAbort :: bool
  numberOfSuccessfulCommitAcknowledgementsPending :: "64 word"
  didOneOrMorePeersFailToCommit :: bool
  masterOperationCompletionMessage :: bytes

definition new_statistics :: "nat \<Rightarrow> statistics" where
  "new_statistics peersCount = \<lparr>
     numberOfPositivePrecommitAcknowledgementsPending = of_nat peersCount,
     shouldAbort = False,
     numberOfSuccessfulCommitAcknowledgementsPending = of_nat peersCount,
     didOneOrMorePeersFailToCommit = False,
     masterOperationCompletionMessage = []\<rparr>"

type_synonym stats_map = "nat \<Rightarrow> statistics option"

definition resetPeerCommunicationGlobalVars :: "nat \<Rightarrow> nat \<Rightarrow> stats_map \<Rightarrow> stats_map" where
  \<comment> \<open>\<open>std::map::insert\<close> keeps an entry that is already there\<close>
  "resetPeerCommunicationGlobalVars controllerThread numberOfPeers m =
     (if m controllerThread = None then m(controllerThread \<mapsto> new_statistics numberOfPeers) else m)"

definition getMasterOperationCompletionMessage :: "nat \<Rightarrow> stats_map \<Rightarrow> bytes \<times> stats_map" where
  \<comment> \<open>\<open>operator[]\<close> on a missing key makes an entry with an empty message\<close>
  "getMasterOperationCompletionMessage controllerThread m =
     ((case m controllerThread of None \<Rightarrow> [] | Some s \<Rightarrow> masterOperationCompletionMessage s),
      m(controllerThread := None))"

section \<open>Threads\<close>

datatype SyncMasterServerStatus = PRECOMMIT_SENT | COMMIT_SENT

datatype outcome =
    Connect_Failed                     \<comment> \<open>\<open>createSocket\<close> returned -1\<close>
  | Lost SyncMasterServerStatus        \<comment> \<open>timeout or connection closed by the peer\<close>
  | Recv_Failed SyncMasterServerStatus \<comment> \<open>\<open>recv_nonblock\<close> returned -1\<close>
  | Aborted                            \<comment> \<open>\<open>ABORT\<close> sent\<close>
  | Refused                            \<comment> \<open>\<open>COMMIT_UNSUCCESS\<close> received\<close>
  | Confirmed                          \<comment> \<open>\<open>SUCCESS_NOOP\<close> or \<open>UNSUCCESS_UNDO\<close> sent\<close>

datatype peer_pc =
    Starting
  | Receiving SyncMasterServerStatus   \<comment> \<open>in \<open>recv_nonblock\<close>\<close>
  | Ready_Asleep | Ready_Awake         \<comment> \<open>waiting for the other peers' \<open>READY\<close>\<close>
  | Ready_Decided                      \<comment> \<open>past the wait, before the test of \<open>shouldAbort\<close>\<close>
  | Commit_Asleep | Commit_Awake       \<comment> \<open>waiting for the other peers' \<open>COMMIT_SUCCESS\<close>\<close>
  | Commit_Decided                     \<comment> \<open>past the wait, before the test of the failure flag\<close>
  | Operating                          \<comment> \<open>about to perform the operation on the master\<close>
  | Confirming                         \<comment> \<open>about to send the verdict\<close>
  | Finished outcome

record master =
  stats :: statistics
  peer_pcs :: "peer_pc list"
  outbox :: "bytes list list"          \<comment> \<open>what was sent to each peer, in order\<close>
  master_store :: store

definition parse_peer :: "bytes \<Rightarrow> (bytes \<times> bytes) run" where
  \<comment> \<open>\<open>host:port\<close>\<close>
  "parse_peer peer =
     (let peerHostPort = tokenize peer [CHR '':''] in
      bind_run (vector_at peerHostPort 0) (\<lambda>host.
      bind_run (vector_at peerHostPort 1) (\<lambda>port. ret (host, port))))"

record thread_info =
  \<comment> \<open>the argument of \<open>pthread_create\<close>; the id of the new thread is not used here\<close>
  controller_thread_id :: nat
  info_user :: bytes
  info_peer :: bytes
  info_req :: bytes

record peer_thread =
  \<comment> \<open>the locals of \<open>communicateWithPeer\<close> before the connection\<close>
  peer_host :: bytes
  peer_port :: bytes
  peer_user :: bytes
  peer_command :: bytes
  peer_controller :: nat

definition thread_start :: "thread_info \<Rightarrow> peer_thread run" where
  "thread_start tinfo =
     bind_run (parse_peer (cstr (info_peer tinfo))) (\<lambda>(peerHost, peerPort).
       ret \<lparr>peer_host = peerHost, peer_port = peerPort, peer_user = cstr (info_user tinfo),
            peer_command = cstr (info_req tinfo), peer_controller = controller_thread_id tinfo\<rparr>)"

fun wake_peer :: "peer_pc \<Rightarrow> peer_pc" where
  "wake_peer Ready_Asleep = Ready_Awake"
| "wake_peer Commit_Asleep = Commit_Awake"
| "wake_peer p = p"

definition goto :: "nat \<Rightarrow> peer_pc \<Rightarrow> master \<Rightarrow> master" where
  "goto t p s = s\<lparr>peer_pcs := (peer_pcs s)[t := p]\<rparr>"

definition broadcast_peers :: "master \<Rightarrow> master" where
  "broadcast_peers s = s\<lparr>peer_pcs := map wake_peer (peer_pcs s)\<rparr>"

definition send_peer :: "nat \<Rightarrow> bytes \<Rightarrow> bytes \<Rightarrow> master \<Rightarrow> master" where
  "send_peer t kind info s =
     s\<lparr>outbox := (outbox s)[t := outbox s ! t @ [master_message kind info]]\<rparr>"

definition notifyThreadsToAbort :: "master \<Rightarrow> master" where
  "notifyThreadsToAbort s =
     (if shouldAbort (stats s) then s
      else broadcast_peers (s\<lparr>stats := (stats s)\<lparr>shouldAbort := True\<rparr>\<rparr>))"

definition notifyThreadsToUndoCommit :: "master \<Rightarrow> master" where
  "notifyThreadsToUndoCommit s =
     (if didOneOrMorePeersFailToCommit (stats s) then s
      else broadcast_peers (s\<lparr>stats := (stats s)\<lparr>didOneOrMorePeersFailToCommit := True\<rparr>\<rparr>))"

section \<open>Receiving\<close>

datatype reaction = On_Ready | On_Commit_Success | On_Commit_Unsuccess | On_Other | On_Lost | On_Error

definition classify_response :: "SyncMasterServerStatus \<Rightarrow> poll_outcome \<Rightarrow> reaction run" where
  \<comment> \<open>the loop condition, its two early exits and the conditions of the \<open>if\<close> chain\<close>
  "classify_response status e =
     (case recv_nonblock e 255 of (n, response) \<Rightarrow>
        if n = recv_nodata \<or> n = 0 then ret On_Lost
        else if n < 0 then ret On_Error
        else let tokens = tokenize (response[length response - 1 := NUL]) [SP] in
          bind_run (vector_at tokens 1) (\<lambda>token1.
            if token1 = READY \<and> status = PRECOMMIT_SENT then ret On_Ready
            else if token1 = COMMIT_SUCCESS \<and> status = COMMIT_SENT then ret On_Commit_Success
            else if token1 = COMMIT_UNSUCCESS \<and> status = COMMIT_SENT then ret On_Commit_Unsuccess
            else ret On_Other))"

section \<open>Steps of one thread\<close>

definition connect_fails :: "nat \<Rightarrow> master \<Rightarrow> master" where
  "connect_fails t s = goto t (Finished Connect_Failed) (notifyThreadsToAbort s)"

definition connect_succeeds :: "bytes \<Rightarrow> nat \<Rightarrow> master \<Rightarrow> master" where
  "connect_succeeds user t s = goto t (Receiving PRECOMMIT_SENT) (send_peer t PRECOMMIT user s)"

definition ready_test :: "nat \<Rightarrow> master \<Rightarrow> master" where
  \<comment> \<open>the \<open>while\<close> test around \<open>pthread_cond_wait\<close>\<close>
  "ready_test t s =
     (if numberOfPositivePrecommitAcknowledgementsPending (stats s) > 0 \<and> \<not> shouldAbort (stats s)
      then goto t Ready_Asleep s else goto t Ready_Decided s)"

definition on_ready :: "nat \<Rightarrow> master \<Rightarrow> master" where
  "on_ready t s =
     (let pending = numberOfPositivePrecommitAcknowledgementsPending (stats s) - 1;
          s1 = s\<lparr>stats := (stats s)\<lparr>numberOfPositivePrecommitAcknowledgementsPending := pending\<rparr>\<rparr>
      in if pending = 0 then goto t Ready_Decided (broadcast_peers s1) else ready_test t s1)"

definition ready_decide :: "bytes \<Rightarrow> nat \<Rightarrow> master \<Rightarrow> master" where
  "ready_decide command t s =
     (if shouldAbort (stats s) then goto t (Finished Aborted) (send_peer t ABORT [] s)
      else goto t (Receiving COMMIT_SENT) (send_peer t COMMIT command s))"

definition commit_test :: "nat \<Rightarrow> master \<Rightarrow> master" where
  "commit_test t s =
     (if numberOfSuccessfulCommitAcknowledgementsPending (stats s) > 0 \<and>
         \<not> didOneOrMorePeersFailToCommit (stats s)
      then goto t Commit_Asleep s else goto t Commit_Decided s)"

definition on_commit_success :: "nat \<Rightarrow> master \<Rightarrow> master" where
  "on_commit_success t s =
     (let pending = numberOfSuccessfulCommitAcknowledgementsPending (stats s) - 1;
          s1 = s\<lparr>stats := (stats s)\<lparr>numberOfSuccessfulCommitAcknowledgementsPending := pending\<rparr>\<rparr>
      in if pending = 0 then goto t Commit_Decided (broadcast_peers s1) else commit_test t s1)"

definition commit_decide :: "nat \<Rightarrow> master \<Rightarrow> master" where
  "commit_decide t s =
     (if \<not> didOneOrMorePeersFailToCommit (stats s) then goto t Operating s else goto t Confirming s)"

definition master_operation :: "bytes \<Rightarrow> bytes \<Rightarrow> store \<Rightarrow> (bytes \<times> undo \<times> store) run" where
  \<comment> \<open>\<open>operationToPerform(user, commandTokens[1], false, ...)\<close>\<close>
  "master_operation user command st =
     (let commandTokens = tokenize command [SP] in
      bind_run (vector_at commandTokens 0) (\<lambda>c.
      bind_run (vector_at commandTokens 1) (\<lambda>a. perform_operation c user a False Undo_Nothing st)))"

definition operate :: "bytes \<Rightarrow> bytes \<Rightarrow> nat \<Rightarrow> master \<Rightarrow> master run" where
  "operate user command t s =
     (if masterOperationCompletionMessage (stats s) = [] then
        bind_run (master_operation user command (master_store s)) (\<lambda>(message, _, st).
          ret (goto t Confirming
            (s\<lparr>stats := (stats s)\<lparr>masterOperationCompletionMessage := message\<rparr>, master_store := st\<rparr>)))
      else ret (goto t Confirming s))"

definition confirm :: "nat \<Rightarrow> master \<Rightarrow> master" where
  "confirm t s =
     (let didMasterOperationSucceed = \<not> contains ERROR (masterOperationCompletionMessage (stats s));
          positive = (\<not> didOneOrMorePeersFailToCommit (stats s) \<and> didMasterOperationSucceed)
      in goto t (Finished Confirmed)
           (send_peer t (if positive then SUCCESS_NOOP else UNSUCCESS_UNDO) [] s))"

definition on_commit_unsuccess :: "nat \<Rightarrow> master \<Rightarrow> master" where
  "on_commit_unsuccess t s = goto t (Finished Refused) (notifyThreadsToUndoCommit s)"

definition on_lost :: "nat \<Rightarrow> SyncMasterServerStatus \<Rightarrow> master \<Rightarrow> master" where
  "on_lost t status s =
     goto t (Finished (Lost status))
       (if status = PRECOMMIT_SENT then notifyThreadsToAbort s else notifyThreadsToUndoCommit s)"

definition on_error :: "nat \<Rightarrow> SyncMasterServerStatus \<Rightarrow> master \<Rightarrow> master" where
  \<comment> \<open>\<open>n < 0\<close>: the loop is left, and the code after it does nothing\<close>
  "on_error t status s = goto t (Finished (Recv_Failed status)) s"

definition at_pc :: "master \<Rightarrow> nat \<Rightarrow> peer_pc \<Rightarrow> bool" where
  "at_pc s t p \<longleftrightarrow> t < length (peer_pcs s) \<and> peer_pcs s ! t = p"

inductive peer_step :: "bytes \<Rightarrow> bytes \<Rightarrow> master \<Rightarrow> master \<Rightarrow> bool"
  for user :: bytes and command :: bytes where
  connect_refused: "at_pc s t Starting \<Longrightarrow> peer_step user command s (connect_fails t s)"
| connected: "at_pc s t Starting \<Longrightarrow> peer_step user command s (connect_succeeds user t s)"
| recv_ready: "at_pc s t (Receiving status) \<Longrightarrow> classify_response status e = ret On_Ready \<Longrightarrow>
    peer_step user command s (on_ready t s)"
| recv_success: "at_pc s t (Receiving status) \<Longrightarrow> classify_response status e = ret On_Commit_Success \<Longrightarrow>
    peer_step user command s (on_commit_success t s)"
| recv_unsuccess: "at_pc s t (Receiving status) \<Longrightarrow>
    classify_response status e = ret On_Commit_Unsuccess \<Longrightarrow>
    peer_step user command s (on_commit_unsuccess t s)"
| recv_other: "at_pc s t (Receiving status) \<Longrightarrow> classify_response status e = ret On_Other \<Longrightarrow>
    peer_step user command s s"
| recv_lost: "at_pc s t (Receiving status) \<Longrightarrow> classify_response status e = ret On_Lost \<Longrightarrow>
    peer_step user command s (on_lost t status s)"
| recv_error: "at_pc s t (Receiving status) \<Longrightarrow> classify_response status e = ret On_Error \<Longrightarrow>
    peer_step user command s (on_error t status s)"
| ready_retry: "at_pc s t Ready_Awake \<Longrightarrow> peer_step user command s (ready_test t s)"
| ready_proceeds: "at_pc s t Ready_Decided \<Longrightarrow> peer_step user command s (ready_decide command t s)"
| commit_retry: "at_pc s t Commit_Awake \<Longrightarrow> peer_step user command s (commit_test t s)"
| commit_proceeds: "at_pc s t Commit_Decided \<Longrightarrow> peer_step user command s (commit_decide t s)"
| operates: "at_pc s t Operating \<Longrightarrow> operate user command t s = ret s' \<Longrightarrow>
    peer_step user command s s'"
| confirms: "at_pc s t Confirming \<Longrightarrow> peer_step user command s (confirm t s)"
| spurious_wakeup: "at_pc s t p \<Longrightarrow> peer_step user command s (goto t (wake_peer p) s)"

inductive_cases peer_stepE: "peer_step user command s s'"

definition master_init :: "nat \<Rightarrow> store \<Rightarrow> master \<Rightarrow> bool" where
  \<comment> \<open>after \<open>resetPeerCommunicationGlobalVars\<close> and the creation of the threads\<close>
  "master_init n st s \<longleftrightarrow> s = \<lparr>stats = new_statistics n, peer_pcs = replicate n Starting,
     outbox = replicate n [], master_store = st\<rparr>"

section \<open>The thread of a peer as a function\<close>

fun react :: "nat \<Rightarrow> SyncMasterServerStatus \<Rightarrow> reaction \<Rightarrow> master \<Rightarrow> master" where
  "react t status On_Ready s = on_ready t s"
| "react t status On_Commit_Success s = on_commit_success t s"
| "react t status On_Commit_Unsuccess s = on_commit_unsuccess t s"
| "react t status On_Other s = s"
| "react t status On_Lost s = on_lost t status s"
| "react t status On_Error s = on_error t status s"

definition receive :: "nat \<Rightarrow> poll_outcome \<Rightarrow> master \<Rightarrow> master run" where
  \<comment> \<open>\<open>recv_nonblock\<close> and what is done with its result\<close>
  "receive t e s = (case peer_pcs s ! t of
     Receiving status \<Rightarrow> bind_run (classify_response status e) (\<lambda>r. ret (react t status r s))
   | _ \<Rightarrow> hang)"

definition advance :: "bytes \<Rightarrow> bytes \<Rightarrow> nat \<Rightarrow> master \<Rightarrow> master run" where
  \<comment> \<open>the steps that wait for no message; \<open>hang\<close> where the thread cannot go on by itself\<close>
  "advance user command t s = (case peer_pcs s ! t of
     Starting \<Rightarrow> ret (connect_succeeds user t s)
   | Ready_Awake \<Rightarrow> ret (ready_test t s)
   | Ready_Decided \<Rightarrow> ret (ready_decide command t s)
   | Commit_Awake \<Rightarrow> ret (commit_test t s)
   | Commit_Decided \<Rightarrow> ret (commit_decide t s)
   | Operating \<Rightarrow> operate user command t s
   | Confirming \<Rightarrow> ret (confirm t s)
   | _ \<Rightarrow> hang)"

text \<open>Both are steps of the relation of \<open>Peer_Communication\<close>.\<close>

lemma receive_step:
  assumes "receive t e s = ret s'" "t < length (peer_pcs s)"
  shows "peer_step user command s s'"
proof -
  from assms(1) obtain status r where pc: "at_pc s t (Receiving status)"
    and r: "classify_response status e = ret r" "s' = react t status r s"
    using assms(2) by (auto simp: receive_def at_pc_def bind_run_ret_iff split: peer_pc.splits)
  show ?thesis
    using pc r by (cases r) (auto intro: peer_step.intros)
qed

lemma advance_step:
  assumes "advance user command t s = ret s'" "t < length (peer_pcs s)"
  shows "peer_step user command s s'"
  using assms
  by (auto simp: advance_def at_pc_def intro: peer_step.intros split: peer_pc.splits)

end
