(* ===== verification/Master_Invariant.thy ===== *)
theory Master_Invariant
  imports Peer_Communication
begin

text \<open>
  The invariant of the master side of the two-phase commit: the two counters of the shared
  statistics agree with the program counters of the threads, every decision a thread has
  taken is justified by what all of them have received, and what was sent to each peer is
  determined by where its thread is.
\<close>

section \<open>Projections of the step functions\<close>

lemma goto_simps [simp]:
  "stats (goto t p s) = stats s" "peer_pcs (goto t p s) = (peer_pcs s)[t := p]"
  "outbox (goto t p s) = outbox s" "master_store (goto t p s) = master_store s"
  by (simp_all add: goto_def)

lemma broadcast_peers_simps [simp]:
  "stats (broadcast_peers s) = stats s" "peer_pcs (broadcast_peers s) = map wake_peer (peer_pcs s)"
  "outbox (broadcast_peers s) = outbox s" "master_store (broadcast_peers s) = master_store s"
  by (simp_all add: broadcast_peers_def)

lemma send_peer_simps [simp]:
  "stats (send_peer t k i s) = stats s" "peer_pcs (send_peer t k i s) = peer_pcs s"
  "outbox (send_peer t k i s) = (outbox s)[t := outbox s ! t @ [master_message k i]]"
  "master_store (send_peer t k i s) = master_store s"
  by (simp_all add: send_peer_def)

lemmas step_defs =
  connect_fails_def connect_succeeds_def ready_test_def on_ready_def ready_decide_def
  commit_test_def on_commit_success_def commit_decide_def confirm_def on_commit_unsuccess_def
  on_lost_def on_error_def notifyThreadsToAbort_def notifyThreadsToUndoCommit_def Let_def

lemma classify_response_status:
  "classify_response status e = ret On_Ready \<Longrightarrow> status = PRECOMMIT_SENT"
  "classify_response status e = ret On_Commit_Success \<Longrightarrow> status = COMMIT_SENT"
  "classify_response status e = ret On_Commit_Unsuccess \<Longrightarrow> status = COMMIT_SENT"
  by (auto simp: classify_response_def bind_run_ret_iff Let_def split: prod.splits if_splits)

lemma nth_wake_update:
  "i < length ps \<Longrightarrow> (map wake_peer ps)[t := p] ! i = (if i = t then p else wake_peer (ps ! i))"
  by (auto simp: nth_list_update)

section \<open>Who has answered what\<close>

fun needs_ready :: "peer_pc \<Rightarrow> bool" where
  \<comment> \<open>the thread has not received \<open>READY\<close>\<close>
  "needs_ready Starting = True"
| "needs_ready (Receiving status) = (status = PRECOMMIT_SENT)"
| "needs_ready (Finished Connect_Failed) = True"
| "needs_ready (Finished (Lost status)) = (status = PRECOMMIT_SENT)"
| "needs_ready (Finished (Recv_Failed status)) = (status = PRECOMMIT_SENT)"
| "needs_ready _ = False"

fun needs_commit :: "peer_pc \<Rightarrow> bool" where
  \<comment> \<open>the thread has not received \<open>COMMIT_SUCCESS\<close>\<close>
  "needs_commit Commit_Asleep = False"
| "needs_commit Commit_Awake = False"
| "needs_commit Commit_Decided = False"
| "needs_commit Operating = False"
| "needs_commit Confirming = False"
| "needs_commit (Finished Confirmed) = False"
| "needs_commit _ = True"

fun past_ready :: "peer_pc \<Rightarrow> bool" where
  \<comment> \<open>the thread has sent \<open>COMMIT\<close>\<close>
  "past_ready (Receiving status) = (status = COMMIT_SENT)"
| "past_ready Commit_Asleep = True"
| "past_ready Commit_Awake = True"
| "past_ready Commit_Decided = True"
| "past_ready Operating = True"
| "past_ready Confirming = True"
| "past_ready (Finished Refused) = True"
| "past_ready (Finished Confirmed) = True"
| "past_ready (Finished (Lost status)) = (status = COMMIT_SENT)"
| "past_ready (Finished (Recv_Failed status)) = (status = COMMIT_SENT)"
| "past_ready _ = False"

lemma wake_peer_flags [simp]:
  "needs_ready (wake_peer p) = needs_ready p" "needs_commit (wake_peer p) = needs_commit p"
  "past_ready (wake_peer p) = past_ready p" "wake_peer (wake_peer p) = wake_peer p"
  "wake_peer p = Finished x \<longleftrightarrow> p = Finished x"
  by (cases p rule: wake_peer.cases; simp)+

lemma tally_wake [simp]:
  "tally needs_ready (map wake_peer ps) = tally needs_ready ps"
  "tally needs_commit (map wake_peer ps) = tally needs_commit ps"
  by (simp_all add: tally_map comp_def)

abbreviation missing_ready :: "master \<Rightarrow> nat" where
  "missing_ready s \<equiv> tally needs_ready (peer_pcs s)"

abbreviation missing_commit :: "master \<Rightarrow> nat" where
  "missing_commit s \<equiv> tally needs_commit (peer_pcs s)"

section \<open>Counters\<close>

definition counters_inv :: "nat \<Rightarrow> master \<Rightarrow> bool" where
  "counters_inv n s \<longleftrightarrow>
     length (peer_pcs s) = n \<and> length (outbox s) = n \<and>
     numberOfPositivePrecommitAcknowledgementsPending (stats s) = of_nat (missing_ready s) \<and>
     numberOfSuccessfulCommitAcknowledgementsPending (stats s) = of_nat (missing_commit s)"

lemma of_nat_minus_one: "0 < k \<Longrightarrow> (of_nat k :: 64 word) - 1 = of_nat (k - 1)"
  by simp

lemma of_nat_64_zero: "k < 2 ^ 64 \<Longrightarrow> (of_nat k :: 64 word) = 0 \<longleftrightarrow> k = 0"
  by (cases "k = 0") (auto simp: word_of_nat_eq_0_iff dest!: dvd_imp_le)

lemma counters_goto:
  assumes "counters_inv n s" "at_pc s t q" "needs_ready p = needs_ready q" "needs_commit p = needs_commit q"
  shows "counters_inv n (goto t p s)"
  using assms tally_pos_nth [of t "peer_pcs s" needs_ready] tally_pos_nth [of t "peer_pcs s" needs_commit]
  by (auto simp: counters_inv_def at_pc_def tally_list_update)

lemma counters_broadcast [simp]: "counters_inv n (broadcast_peers s) = counters_inv n s"
  by (simp add: counters_inv_def)

lemma counters_send [simp]: "counters_inv n (send_peer t k i s) = counters_inv n s"
  by (simp add: counters_inv_def)

lemma at_pc_send [simp]: "at_pc (send_peer t k i s) u p = at_pc s u p"
  by (simp add: at_pc_def)

lemma counters_notify [simp]:
  "counters_inv n (notifyThreadsToAbort s) = counters_inv n s"
  "counters_inv n (notifyThreadsToUndoCommit s) = counters_inv n s"
  by (simp_all add: notifyThreadsToAbort_def notifyThreadsToUndoCommit_def counters_inv_def)

lemma at_pc_notify:
  "at_pc s t p \<Longrightarrow> wake_peer p = p \<Longrightarrow> at_pc (notifyThreadsToAbort s) t p"
  "at_pc s t p \<Longrightarrow> wake_peer p = p \<Longrightarrow> at_pc (notifyThreadsToUndoCommit s) t p"
  by (simp_all add: notifyThreadsToAbort_def notifyThreadsToUndoCommit_def at_pc_def)

lemma counters_on_ready:
  assumes inv: "counters_inv n s" and t: "at_pc s t (Receiving PRECOMMIT_SENT)"
  shows "counters_inv n (on_ready t s)"
proof -
  have pos: "0 < missing_ready s"
    using t by (intro tally_pos_nth [of t]) (auto simp: at_pc_def)
  let ?p = "numberOfPositivePrecommitAcknowledgementsPending (stats s) - 1"
  let ?s = "s\<lparr>stats := (stats s)\<lparr>numberOfPositivePrecommitAcknowledgementsPending := ?p\<rparr>\<rparr>"
  have "counters_inv n (goto t p (broadcast_peers ?s)) \<and> counters_inv n (goto t p ?s)"
    if "\<not> needs_ready p" "needs_commit p" for p
    using inv t pos that of_nat_minus_one [OF pos] tally_pos_nth [of t "peer_pcs s" needs_commit]
    by (auto simp: counters_inv_def at_pc_def tally_list_update)
  then show ?thesis by (auto simp: on_ready_def ready_test_def Let_def)
qed

lemma counters_on_commit_success:
  assumes inv: "counters_inv n s" and t: "at_pc s t (Receiving COMMIT_SENT)"
  shows "counters_inv n (on_commit_success t s)"
proof -
  have pos: "0 < missing_commit s"
    using t by (intro tally_pos_nth [of t]) (auto simp: at_pc_def)
  let ?p = "numberOfSuccessfulCommitAcknowledgementsPending (stats s) - 1"
  let ?s = "s\<lparr>stats := (stats s)\<lparr>numberOfSuccessfulCommitAcknowledgementsPending := ?p\<rparr>\<rparr>"
  have "counters_inv n (goto t p (broadcast_peers ?s)) \<and> counters_inv n (goto t p ?s)"
    if "\<not> needs_ready p" "\<not> needs_commit p" for p
    using inv t pos that of_nat_minus_one [OF pos]
    by (auto simp: counters_inv_def at_pc_def tally_list_update)
  then show ?thesis by (auto simp: on_commit_success_def commit_test_def Let_def)
qed

lemma counters_operate:
  assumes "counters_inv n s" "at_pc s t Operating" "operate user command t s = ret s'"
  shows "counters_inv n s'"
proof -
  have "counters_inv n (goto t Confirming s)"
    by (rule counters_goto [OF assms(1,2)]) simp_all
  then show ?thesis
    using assms(3) by (auto simp: operate_def bind_run_ret_iff counters_inv_def split: if_splits)
qed

lemma counters_step: "peer_step user command s s' \<Longrightarrow> counters_inv n s \<Longrightarrow> counters_inv n s'"
proof (erule peer_stepE)
  assume inv: "counters_inv n s"
  note go = counters_goto
  show "counters_inv n s'" if "s' = connect_fails t s" "at_pc s t Starting" for t
    using that inv by (auto simp: connect_fails_def intro!: go at_pc_notify)
  show "counters_inv n s'" if "s' = connect_succeeds user t s" "at_pc s t Starting" for t
    using that inv by (auto simp: connect_succeeds_def intro!: go)
  show "counters_inv n s'" if "s' = on_ready t s" "at_pc s t (Receiving status)"
    "classify_response status e = ret On_Ready" for t status e
    using that inv classify_response_status(1) by (auto intro: counters_on_ready)
  show "counters_inv n s'" if "s' = on_commit_success t s" "at_pc s t (Receiving status)"
    "classify_response status e = ret On_Commit_Success" for t status e
    using that inv classify_response_status(2) by (auto intro: counters_on_commit_success)
  show "counters_inv n s'" if "s' = on_commit_unsuccess t s" "at_pc s t (Receiving status)"
    "classify_response status e = ret On_Commit_Unsuccess" for t status e
    using that inv classify_response_status(3) [of status e]
    by (auto simp: on_commit_unsuccess_def intro!: go at_pc_notify)
  show "counters_inv n s'" if "s' = s" using that inv by simp
  show "counters_inv n s'" if "s' = on_lost t status s" "at_pc s t (Receiving status)" for t status
    using that inv by (auto simp: on_lost_def intro!: go at_pc_notify)
  show "counters_inv n s'" if "s' = on_error t status s" "at_pc s t (Receiving status)" for t status
    using that inv by (auto simp: on_error_def intro!: go)
  show "counters_inv n s'" if "s' = ready_test t s" "at_pc s t Ready_Awake" for t
    using that inv by (auto simp: ready_test_def intro!: go)
  show "counters_inv n s'" if "s' = ready_decide command t s" "at_pc s t Ready_Decided" for t
    using that inv by (auto simp: ready_decide_def intro!: go)
  show "counters_inv n s'" if "s' = commit_test t s" "at_pc s t Commit_Awake" for t
    using that inv by (auto simp: commit_test_def intro!: go)
  show "counters_inv n s'" if "s' = commit_decide t s" "at_pc s t Commit_Decided" for t
    using that inv by (auto simp: commit_decide_def intro!: go)
  show "counters_inv n s'" if "at_pc s t Operating" "operate user command t s = ret s'" for t
    by (rule counters_operate [OF inv that])
  show "counters_inv n s'" if "s' = confirm t s" "at_pc s t Confirming" for t
    using that inv by (auto simp: confirm_def Let_def intro!: go)
  show "counters_inv n s'" if "s' = goto t (wake_peer p) s" "at_pc s t p" for t p
    using that inv by (auto intro!: go)
qed

section \<open>Decisions\<close>

fun pc_ok :: "statistics \<Rightarrow> nat \<Rightarrow> nat \<Rightarrow> peer_pc \<Rightarrow> bool" where
  \<comment> \<open>what a program counter says about the shared statistics, the number of threads still
      without \<open>READY\<close> and the number still without \<open>COMMIT_SUCCESS\<close>\<close>
  "pc_ok st r c Ready_Asleep \<longleftrightarrow> 0 < r \<and> \<not> shouldAbort st"
| "pc_ok st r c Ready_Decided \<longleftrightarrow> r = 0 \<or> shouldAbort st"
| "pc_ok st r c (Finished Aborted) \<longleftrightarrow> shouldAbort st"
| "pc_ok st r c Commit_Asleep \<longleftrightarrow> 0 < c \<and> \<not> didOneOrMorePeersFailToCommit st"
| "pc_ok st r c Commit_Decided \<longleftrightarrow> c = 0 \<or> didOneOrMorePeersFailToCommit st"
| "pc_ok st r c Operating \<longleftrightarrow> c = 0"
| "pc_ok st r c Confirming \<longleftrightarrow>
     c = 0 \<and> masterOperationCompletionMessage st \<noteq> [] \<or> didOneOrMorePeersFailToCommit st"
| "pc_ok st r c (Finished Confirmed) \<longleftrightarrow>
     c = 0 \<and> masterOperationCompletionMessage st \<noteq> [] \<or> didOneOrMorePeersFailToCommit st"
| "pc_ok st r c _ \<longleftrightarrow> True"

definition decisions_inv :: "master \<Rightarrow> bool" where
  "decisions_inv s \<longleftrightarrow>
     list_all (pc_ok (stats s) (missing_ready s) (missing_commit s)) (peer_pcs s) \<and>
     (list_ex past_ready (peer_pcs s) \<longrightarrow> missing_ready s = 0) \<and>
     (shouldAbort (stats s) \<longrightarrow>
        list_ex (\<lambda>p. p = Finished Connect_Failed \<or> p = Finished (Lost PRECOMMIT_SENT)) (peer_pcs s)) \<and>
     (didOneOrMorePeersFailToCommit (stats s) \<longrightarrow>
        list_ex (\<lambda>p. p = Finished Refused \<or> p = Finished (Lost COMMIT_SENT)) (peer_pcs s)) \<and>
     (masterOperationCompletionMessage (stats s) \<noteq> [] \<longrightarrow> missing_commit s = 0)"

lemma pc_ok_mono:
  assumes "pc_ok st r c p"
    and "shouldAbort st \<longrightarrow> shouldAbort st'"
    and "didOneOrMorePeersFailToCommit st \<longrightarrow> didOneOrMorePeersFailToCommit st'"
    and "masterOperationCompletionMessage st \<noteq> [] \<longrightarrow> masterOperationCompletionMessage st' \<noteq> []"
    and "r' \<le> r" "c' \<le> c"
  shows "pc_ok st' r' c' (wake_peer p)"
    and "shouldAbort st = shouldAbort st' \<Longrightarrow>
         didOneOrMorePeersFailToCommit st = didOneOrMorePeersFailToCommit st' \<Longrightarrow>
         0 < r \<longrightarrow> 0 < r' \<Longrightarrow> 0 < c \<longrightarrow> 0 < c' \<Longrightarrow> pc_ok st' r' c' p"
  using assms by (cases "(st, r, c, p)" rule: pc_ok.cases; auto)+

abbreviation abort_cause :: "peer_pc \<Rightarrow> bool" where
  "abort_cause p \<equiv> p = Finished Connect_Failed \<or> p = Finished (Lost PRECOMMIT_SENT)"

abbreviation undo_cause :: "peer_pc \<Rightarrow> bool" where
  "undo_cause p \<equiv> p = Finished Refused \<or> p = Finished (Lost COMMIT_SENT)"

lemma list_ex_update_keep:
  "list_ex P xs \<Longrightarrow> t < length xs \<Longrightarrow> \<not> P (xs ! t) \<Longrightarrow> list_ex P (xs[t := y])"
proof -
  assume "list_ex P xs" and t: "t < length xs" "\<not> P (xs ! t)"
  then obtain i where i: "i < length xs" "P (xs ! i)" by (auto simp: list_ex_length)
  with t have "i \<noteq> t" by auto
  with i show ?thesis by (auto simp: list_ex_length)
qed

lemma list_ex_update_new: "t < length xs \<Longrightarrow> P y \<Longrightarrow> list_ex P (xs[t := y])"
  by (auto simp: list_ex_length)

lemma list_ex_update_cases: "list_ex P (xs[t := y]) \<Longrightarrow> P y \<or> list_ex P xs"
  by (auto simp: list_ex_iff dest!: set_mp [OF set_update_subset_insert])

lemma list_all_update: "list_all P xs \<Longrightarrow> P y \<Longrightarrow> list_all P (xs[t := y])"
  by (auto simp: list_all_iff dest!: set_mp [OF set_update_subset_insert])

lemma decisions_move:
  assumes inv: "decisions_inv s" and t: "at_pc s t q"
    and ps: "peer_pcs s' = (if woken then map wake_peer (peer_pcs s) else peer_pcs s)[t := p]"
    and mono: "shouldAbort (stats s) \<longrightarrow> shouldAbort (stats s')"
      "didOneOrMorePeersFailToCommit (stats s) \<longrightarrow> didOneOrMorePeersFailToCommit (stats s')"
      "masterOperationCompletionMessage (stats s) \<noteq> [] \<longrightarrow> masterOperationCompletionMessage (stats s') \<noteq> []"
      "missing_ready s' \<le> missing_ready s" "missing_commit s' \<le> missing_commit s"
    and keep: "\<not> woken \<Longrightarrow> shouldAbort (stats s) = shouldAbort (stats s') \<and>
      didOneOrMorePeersFailToCommit (stats s) = didOneOrMorePeersFailToCommit (stats s') \<and>
      (0 < missing_ready s \<longrightarrow> 0 < missing_ready s') \<and> (0 < missing_commit s \<longrightarrow> 0 < missing_commit s')"
    and p: "pc_ok (stats s') (missing_ready s') (missing_commit s') p"
      "past_ready p \<longrightarrow> missing_ready s' = 0"
    and q: "\<not> abort_cause q" "\<not> undo_cause q"
    and why: "shouldAbort (stats s') \<longrightarrow> shouldAbort (stats s) \<or> abort_cause p"
      "didOneOrMorePeersFailToCommit (stats s') \<longrightarrow>
         didOneOrMorePeersFailToCommit (stats s) \<or> undo_cause p"
      "masterOperationCompletionMessage (stats s') \<noteq> [] \<longrightarrow>
         masterOperationCompletionMessage (stats s) \<noteq> [] \<or> missing_commit s' = 0"
  shows "decisions_inv s'"
proof -
  let ?ps = "if woken then map wake_peer (peer_pcs s) else peer_pcs s"
  let ?ok = "pc_ok (stats s') (missing_ready s') (missing_commit s')"
  have len: "t < length ?ps" "t < length (peer_pcs s)" and tq: "peer_pcs s ! t = q"
    using t by (auto simp: at_pc_def)
  have old: "list_all (pc_ok (stats s) (missing_ready s) (missing_commit s)) (peer_pcs s)"
    using inv by (simp add: decisions_inv_def)
  have "list_all ?ok ?ps"
  proof (cases woken)
    case True
    with old show ?thesis by (auto simp: list_all_iff intro!: pc_ok_mono(1) [OF _ mono])
  next
    case False
    with old keep show ?thesis by (auto simp: list_all_iff intro!: pc_ok_mono(2) [OF _ mono])
  qed
  then have 1: "list_all ?ok (peer_pcs s')"
    unfolding ps using p(1) unfolding ps by (rule list_all_update)
  have 2: "missing_ready s' = 0" if "list_ex past_ready (peer_pcs s')"
  proof -
    from that have "past_ready p \<or> list_ex past_ready ?ps"
      unfolding ps by (rule list_ex_update_cases)
    then have "past_ready p \<or> list_ex past_ready (peer_pcs s)"
      by (auto simp: list_ex_iff split: if_splits)
    then show ?thesis using p(2) inv mono(4) by (auto simp: decisions_inv_def)
  qed
  have keepC: "list_ex C (peer_pcs s')"
    if C: "C p \<or> list_ex C (peer_pcs s)" "\<not> C q" "\<And>x. C (wake_peer x) = C x" for C
  proof (cases "C p")
    case True
    then show ?thesis unfolding ps using len(1) by (intro list_ex_update_new)
  next
    case False
    have "list_ex C ?ps = list_ex C (peer_pcs s)"
      by (simp add: list_ex_iff C(3))
    moreover have "\<not> C (?ps ! t)" using C(2,3) len tq by simp
    ultimately show ?thesis
      unfolding ps using False C(1) len(1) by (intro list_ex_update_keep) auto
  qed
  have 3: "list_ex abort_cause (peer_pcs s')" if "shouldAbort (stats s')"
  proof (rule keepC)
    have "shouldAbort (stats s) \<longrightarrow> list_ex abort_cause (peer_pcs s)"
      using inv unfolding decisions_inv_def by blast
    with why(1) that show "abort_cause p \<or> list_ex abort_cause (peer_pcs s)" by blast
    show "\<not> abort_cause q" by (rule q)
    show "abort_cause (wake_peer x) = abort_cause x" for x by simp
  qed
  have 4: "list_ex undo_cause (peer_pcs s')" if "didOneOrMorePeersFailToCommit (stats s')"
  proof (rule keepC)
    have "didOneOrMorePeersFailToCommit (stats s) \<longrightarrow> list_ex undo_cause (peer_pcs s)"
      using inv unfolding decisions_inv_def by blast
    with why(2) that show "undo_cause p \<or> list_ex undo_cause (peer_pcs s)" by blast
    show "\<not> undo_cause q" by (rule q)
    show "undo_cause (wake_peer x) = undo_cause x" for x by simp
  qed
  have 5: "missing_commit s' = 0" if "masterOperationCompletionMessage (stats s') \<noteq> []"
  proof -
    have "masterOperationCompletionMessage (stats s) \<noteq> [] \<longrightarrow> missing_commit s = 0"
      using inv unfolding decisions_inv_def by blast
    with why(3) that mono(5) show ?thesis by auto
  qed
  show ?thesis
    unfolding decisions_inv_def by (intro conjI impI 1) (erule 2 3 4 5)+
qed

lemma decisions_exclusive:
  assumes "decisions_inv s"
  shows "shouldAbort (stats s) \<Longrightarrow> 0 < missing_ready s"
    and "didOneOrMorePeersFailToCommit (stats s) \<Longrightarrow> 0 < missing_commit s"
  using assms by (force simp: decisions_inv_def list_ex_iff tally_pos_iff)+

lemma decisions_at:
  "decisions_inv s \<Longrightarrow> at_pc s t q \<Longrightarrow> pc_ok (stats s) (missing_ready s) (missing_commit s) q"
  by (auto simp: decisions_inv_def at_pc_def list_all_length)

lemma decisions_past: "decisions_inv s \<Longrightarrow> at_pc s t q \<Longrightarrow> past_ready q \<Longrightarrow> missing_ready s = 0"
  by (auto simp: decisions_inv_def at_pc_def list_ex_length)

lemma missing_bounds:
  "counters_inv n s \<Longrightarrow> missing_ready s \<le> n" "counters_inv n s \<Longrightarrow> missing_commit s \<le> n"
  using tally_le_length [of needs_ready "peer_pcs s"] tally_le_length [of needs_commit "peer_pcs s"]
  by (auto simp: counters_inv_def)

lemma pending_zero_iff:
  assumes "counters_inv n s" "n < 2 ^ 64"
  shows "numberOfPositivePrecommitAcknowledgementsPending (stats s) = 0 \<longleftrightarrow> missing_ready s = 0"
    and "numberOfSuccessfulCommitAcknowledgementsPending (stats s) = 0 \<longleftrightarrow> missing_commit s = 0"
  using assms missing_bounds [OF assms(1)] of_nat_64_zero [of "missing_ready s"]
    of_nat_64_zero [of "missing_commit s"]
  by (auto simp: counters_inv_def)

lemma decisions_goto:
  assumes "decisions_inv s" "at_pc s t q" "needs_ready p = needs_ready q"
    "needs_commit p = needs_commit q" "past_ready p = past_ready q" "\<not> abort_cause q" "\<not> undo_cause q"
    "pc_ok (stats s) (missing_ready s) (missing_commit s) p"
  shows "decisions_inv (goto t p s)"
proof -
  have same: "missing_ready (goto t p s) = missing_ready s"
    "missing_commit (goto t p s) = missing_commit s"
    using assms(2,3,4) tally_pos_nth [of t "peer_pcs s" needs_ready]
      tally_pos_nth [of t "peer_pcs s" needs_commit]
    by (auto simp: at_pc_def tally_list_update)
  show ?thesis
    by (rule decisions_move [OF assms(1,2), where p = p and woken = False])
       (use assms same decisions_past [OF assms(1,2)] in auto)
qed

lemma decisions_on_ready:
  assumes inv: "decisions_inv s" "counters_inv n s" "n < 2 ^ 64"
    and t: "at_pc s t (Receiving PRECOMMIT_SENT)"
  shows "decisions_inv (on_ready t s)"
proof -
  have cnt: "counters_inv n (on_ready t s)" using inv(2) t by (rule counters_on_ready)
  note zero = pending_zero_iff [OF cnt inv(3)]
  have r: "missing_ready (on_ready t s) = missing_ready s - 1" "0 < missing_ready s"
    and c: "missing_commit (on_ready t s) = missing_commit s"
    using t tally_pos_nth [of t "peer_pcs s" needs_ready] tally_pos_nth [of t "peer_pcs s" needs_commit]
    by (auto simp: at_pc_def tally_list_update on_ready_def ready_test_def Let_def)
  show ?thesis
  proof (cases "missing_ready (on_ready t s) = 0")
    case True
    then have "peer_pcs (on_ready t s) = (map wake_peer (peer_pcs s))[t := Ready_Decided]"
      using zero(1) by (auto simp: on_ready_def ready_test_def Let_def split: if_splits)
    then show ?thesis
      by (intro decisions_move [OF inv(1) t, where p = Ready_Decided and woken = True])
         (use True r c inv(1) in \<open>auto simp: on_ready_def ready_test_def Let_def\<close>)
  next
    case False
    then have ps: "peer_pcs (on_ready t s) =
        (peer_pcs s)[t := (if shouldAbort (stats s) then Ready_Decided else Ready_Asleep)]"
      using zero(1) by (auto simp: on_ready_def ready_test_def Let_def word_gt_0 split: if_splits)
    show ?thesis
      by (intro decisions_move [OF inv(1) t, where woken = False
            and p = "if shouldAbort (stats s) then Ready_Decided else Ready_Asleep"])
         (use False r c ps in \<open>auto simp: on_ready_def ready_test_def Let_def\<close>)
  qed
qed

lemma decisions_on_commit_success:
  assumes inv: "decisions_inv s" "counters_inv n s" "n < 2 ^ 64"
    and t: "at_pc s t (Receiving COMMIT_SENT)"
  shows "decisions_inv (on_commit_success t s)"
proof -
  have cnt: "counters_inv n (on_commit_success t s)" using inv(2) t by (rule counters_on_commit_success)
  note zero = pending_zero_iff [OF cnt inv(3)]
  have past: "missing_ready s = 0" by (rule decisions_past [OF inv(1) t]) simp
  have c: "missing_commit (on_commit_success t s) = missing_commit s - 1" "0 < missing_commit s"
    and r: "missing_ready (on_commit_success t s) = missing_ready s"
    using t tally_pos_nth [of t "peer_pcs s" needs_commit]
    by (auto simp: at_pc_def tally_list_update on_commit_success_def commit_test_def Let_def)
  let ?fail = "didOneOrMorePeersFailToCommit (stats s)"
  show ?thesis
  proof (cases "missing_commit (on_commit_success t s) = 0")
    case True
    then have "peer_pcs (on_commit_success t s) = (map wake_peer (peer_pcs s))[t := Commit_Decided]"
      using zero(2) by (auto simp: on_commit_success_def commit_test_def Let_def split: if_splits)
    then show ?thesis
      by (intro decisions_move [OF inv(1) t, where p = Commit_Decided and woken = True])
         (use True r c past inv(1) in \<open>auto simp: on_commit_success_def commit_test_def Let_def\<close>)
  next
    case False
    then have ps: "peer_pcs (on_commit_success t s) =
        (peer_pcs s)[t := (if ?fail then Commit_Decided else Commit_Asleep)]"
      using zero(2) by (auto simp: on_commit_success_def commit_test_def Let_def word_gt_0 split: if_splits)
    show ?thesis
      by (intro decisions_move [OF inv(1) t, where woken = False
            and p = "if ?fail then Commit_Decided else Commit_Asleep"])
         (use False r c past ps in \<open>auto simp: on_commit_success_def commit_test_def Let_def\<close>)
  qed
qed

lemma missing_notified:
  assumes "at_pc s t q" "needs_ready p = needs_ready q" "needs_commit p = needs_commit q"
  shows "missing_ready (goto t p (notifyThreadsToAbort s)) = missing_ready s"
    "missing_commit (goto t p (notifyThreadsToAbort s)) = missing_commit s"
    "missing_ready (goto t p (notifyThreadsToUndoCommit s)) = missing_ready s"
    "missing_commit (goto t p (notifyThreadsToUndoCommit s)) = missing_commit s"
  using assms tally_pos_nth [of t "peer_pcs s" needs_ready]
    tally_pos_nth [of t "peer_pcs s" needs_commit]
  by (auto simp: at_pc_def tally_list_update notifyThreadsToAbort_def notifyThreadsToUndoCommit_def)

lemma decisions_notify_abort:
  assumes "decisions_inv s" "at_pc s t q" "needs_ready p = needs_ready q"
    "needs_commit p = needs_commit q" "\<not> past_ready p" "\<not> abort_cause q" "\<not> undo_cause q" "abort_cause p"
  shows "decisions_inv (goto t p (notifyThreadsToAbort s))"
  by (rule decisions_move [OF assms(1,2), where p = p and woken = "\<not> shouldAbort (stats s)"])
     (use assms(4-) missing_notified [OF assms(2-4)] in
       \<open>auto simp: notifyThreadsToAbort_def\<close>)

lemma decisions_notify_undo:
  assumes "decisions_inv s" "at_pc s t q" "needs_ready p = needs_ready q"
    "needs_commit p = needs_commit q" "past_ready q" "\<not> abort_cause q" "\<not> undo_cause q" "undo_cause p"
  shows "decisions_inv (goto t p (notifyThreadsToUndoCommit s))"
  by (rule decisions_move [OF assms(1,2), where p = p
        and woken = "\<not> didOneOrMorePeersFailToCommit (stats s)"])
     (use assms(4-) decisions_past [OF assms(1,2,5)] missing_notified [OF assms(2-4)] in
       \<open>auto simp: notifyThreadsToUndoCommit_def\<close>)

lemma decisions_send [simp]: "decisions_inv (send_peer t k i s) = decisions_inv s"
  by (simp add: decisions_inv_def)

lemma master_operation_nonempty: "master_operation u c st = ret (r, un, st') \<Longrightarrow> r \<noteq> []"
  by (auto simp: master_operation_def Let_def bind_run_ret_iff dest: perform_operation_ret)

lemma decisions_operate:
  assumes inv: "decisions_inv s" and t: "at_pc s t Operating" and op: "operate user command t s = ret s'"
  shows "decisions_inv s'"
proof -
  have c: "missing_commit s = 0" using decisions_at [OF inv t] by simp
  have same: "missing_ready s' = missing_ready s" "missing_commit s' = missing_commit s"
    "peer_pcs s' = (peer_pcs s)[t := Confirming]"
    using op t by (auto simp: operate_def bind_run_ret_iff at_pc_def tally_list_update split: if_splits)
  show ?thesis
    by (rule decisions_move [OF inv t, where p = Confirming and woken = False])
       (use op c same decisions_past [OF inv t] master_operation_nonempty in
         \<open>auto simp: operate_def bind_run_ret_iff split: if_splits\<close>)
qed

lemma goto_same: "at_pc s t p \<Longrightarrow> goto t p s = s"
  by (auto simp: goto_def at_pc_def)

lemma decisions_step:
  assumes step: "peer_step user command s s'" and inv: "decisions_inv s" "counters_inv n s" "n < 2 ^ 64"
  shows "decisions_inv s'"
  using step
proof cases
  case (connect_refused t)
  then show ?thesis using inv(1)
    by (auto simp: connect_fails_def intro!: decisions_notify_abort)
next
  case (connected t)
  then show ?thesis using inv(1)
    by (auto simp: connect_succeeds_def intro!: decisions_goto)
next
  case (recv_ready t status e)
  then show ?thesis by (auto dest!: classify_response_status(1) intro: decisions_on_ready [OF inv])
next
  case (recv_success t status e)
  then show ?thesis by (auto dest!: classify_response_status(2) intro: decisions_on_commit_success [OF inv])
next
  case (recv_unsuccess t status e)
  then show ?thesis using inv(1) classify_response_status(3) [of status e]
    by (auto simp: on_commit_unsuccess_def intro!: decisions_notify_undo)
next
  case (recv_other t status e)
  then show ?thesis using inv(1) by simp
next
  case (recv_lost t status e)
  then show ?thesis using inv(1)
    by (cases status) (auto simp: on_lost_def intro!: decisions_notify_undo decisions_notify_abort)
next
  case (recv_error t status e)
  then show ?thesis using inv(1) by (cases status) (auto simp: on_error_def intro!: decisions_goto)
next
  case (ready_retry t)
  then show ?thesis using inv pending_zero_iff(1) [OF inv(2,3)]
    by (auto simp: ready_test_def word_gt_0 intro!: decisions_goto)
next
  case (ready_proceeds t)
  show ?thesis
  proof (cases "shouldAbort (stats s)")
    case True
    with ready_proceeds inv(1) show ?thesis by (auto simp: ready_decide_def intro!: decisions_goto)
  next
    case False
    have r: "missing_ready s = 0" using decisions_at [OF inv(1) ready_proceeds(2)] False by simp
    have same: "missing_ready s' = missing_ready s" "missing_commit s' = missing_commit s"
      "peer_pcs s' = (peer_pcs s)[t := Receiving COMMIT_SENT]"
      using ready_proceeds False tally_pos_nth [of t "peer_pcs s" needs_commit]
      by (auto simp: ready_decide_def at_pc_def tally_list_update)
    show ?thesis
      by (rule decisions_move [OF inv(1) ready_proceeds(2), where woken = False
            and p = "Receiving COMMIT_SENT"])
         (use ready_proceeds(1) False r same in \<open>auto simp: ready_decide_def\<close>)
  qed
next
  case (commit_retry t)
  then show ?thesis using inv pending_zero_iff(2) [OF inv(2,3)]
    by (auto simp: commit_test_def word_gt_0 intro!: decisions_goto)
next
  case (commit_proceeds t)
  then show ?thesis using inv(1) decisions_at [OF inv(1) commit_proceeds(2)]
    by (auto simp: commit_decide_def intro!: decisions_goto)
next
  case (operates t)
  then show ?thesis using inv(1) by (auto intro: decisions_operate)
next
  case (confirms t)
  then show ?thesis using inv(1) decisions_at [OF inv(1) confirms(2)]
    by (auto simp: confirm_def Let_def intro!: decisions_goto)
next
  case (spurious_wakeup t p)
  consider "p = Ready_Asleep" | "p = Commit_Asleep" | "wake_peer p = p"
    by (cases p rule: wake_peer.cases) auto
  then show ?thesis
    by cases (use spurious_wakeup inv(1) in \<open>auto simp: goto_same intro!: decisions_goto\<close>)
qed

section \<open>Traffic\<close>

definition verdict :: "statistics \<Rightarrow> bytes" where
  \<comment> \<open>the last message to a peer that committed\<close>
  "verdict st =
     (if \<not> didOneOrMorePeersFailToCommit st \<and> \<not> contains ERROR (masterOperationCompletionMessage st)
      then SUCCESS_NOOP else UNSUCCESS_UNDO)"

fun expected_sent :: "bytes \<Rightarrow> bytes \<Rightarrow> statistics \<Rightarrow> peer_pc \<Rightarrow> bytes list" where
  "expected_sent user command st Starting = []"
| "expected_sent user command st (Finished Connect_Failed) = []"
| "expected_sent user command st (Finished Aborted) =
     [master_message PRECOMMIT user, master_message ABORT []]"
| "expected_sent user command st (Finished Confirmed) =
     [master_message PRECOMMIT user, master_message COMMIT command,
      master_message (verdict st) []]"
| "expected_sent user command st p =
     (if past_ready p then [master_message PRECOMMIT user, master_message COMMIT command]
      else [master_message PRECOMMIT user])"

definition traffic_inv :: "bytes \<Rightarrow> bytes \<Rightarrow> master \<Rightarrow> bool" where
  "traffic_inv user command s \<longleftrightarrow>
     outbox s = map (expected_sent user command (stats s)) (peer_pcs s)"

lemma expected_sent_wake: "expected_sent u c st (wake_peer p) = expected_sent u c st p"
  by (cases p rule: wake_peer.cases) auto

lemma expected_sent_verdict:
  "p = Finished Confirmed \<longrightarrow> verdict st' = verdict st \<Longrightarrow>
   expected_sent u c st' p = expected_sent u c st p"
  by (cases "(u, c, st, p)" rule: expected_sent.cases) auto

lemma traffic_move:
  assumes inv: "traffic_inv u c s" and t: "at_pc s t q"
    and ps: "peer_pcs s' = (if woken then map wake_peer (peer_pcs s) else peer_pcs s)[t := p]"
    and out: "outbox s' = (outbox s)[t := outbox s ! t @ msgs]"
    and sent: "expected_sent u c (stats s') p = expected_sent u c (stats s) q @ msgs"
    and stable: "Finished Confirmed \<in> set (peer_pcs s) \<longrightarrow> verdict (stats s') = verdict (stats s)"
  shows "traffic_inv u c s'"
proof -
  have same: "expected_sent u c (stats s') x = expected_sent u c (stats s) x" if "x \<in> set (peer_pcs s)" for x
    using that stable by (intro expected_sent_verdict) auto
  have "map (expected_sent u c (stats s')) (if woken then map wake_peer (peer_pcs s) else peer_pcs s) =
      map (expected_sent u c (stats s)) (peer_pcs s)"
    using same by (auto simp: expected_sent_wake)
  then have "map (expected_sent u c (stats s')) (peer_pcs s') =
      (map (expected_sent u c (stats s)) (peer_pcs s))[t := expected_sent u c (stats s') p]"
    unfolding ps map_update by simp
  moreover have "outbox s ! t = expected_sent u c (stats s) q"
    using inv t by (auto simp: traffic_inv_def at_pc_def)
  ultimately show ?thesis
    using inv by (simp add: traffic_inv_def out sent)
qed

lemma verdict_same_flags:
  "didOneOrMorePeersFailToCommit st' = didOneOrMorePeersFailToCommit st \<Longrightarrow>
   masterOperationCompletionMessage st' = masterOperationCompletionMessage st \<Longrightarrow>
   verdict st' = verdict st"
  by (simp add: verdict_def)

lemma confirmed_decided:
  "decisions_inv s \<Longrightarrow> Finished Confirmed \<in> set (peer_pcs s) \<Longrightarrow>
   missing_commit s = 0 \<and> masterOperationCompletionMessage (stats s) \<noteq> [] \<or>
   didOneOrMorePeersFailToCommit (stats s)"
  by (force simp: decisions_inv_def list_all_iff)

lemma traffic_notify_undo:
  assumes inv: "traffic_inv u c s" "decisions_inv s" and t: "at_pc s t q" "needs_commit q"
    and p: "expected_sent u c (stats (notifyThreadsToUndoCommit s)) p = expected_sent u c (stats s) q"
  shows "traffic_inv u c (goto t p (notifyThreadsToUndoCommit s))"
proof (rule traffic_move [OF inv(1) t(1), where p = p and msgs = "[]"
      and woken = "\<not> didOneOrMorePeersFailToCommit (stats s)"])
  have pos: "0 < missing_commit s"
    using t by (intro tally_pos_nth [of t]) (auto simp: at_pc_def)
  show "Finished Confirmed \<in> set (peer_pcs s) \<longrightarrow>
      verdict (stats (goto t p (notifyThreadsToUndoCommit s))) = verdict (stats s)"
    using confirmed_decided [OF inv(2)] pos by (auto simp: notifyThreadsToUndoCommit_def)
qed (use p in \<open>auto simp: notifyThreadsToUndoCommit_def broadcast_peers_def\<close>)

lemma traffic_notify_abort:
  assumes inv: "traffic_inv u c s" and t: "at_pc s t q"
    and p: "expected_sent u c (stats s) p = expected_sent u c (stats s) q" "p \<noteq> Finished Confirmed"
  shows "traffic_inv u c (goto t p (notifyThreadsToAbort s))"
proof (rule traffic_move [OF inv t, where p = p and msgs = "[]" and woken = "\<not> shouldAbort (stats s)"])
  let ?s = "goto t p (notifyThreadsToAbort s)"
  have "verdict (stats ?s) = verdict (stats s)"
    by (rule verdict_same_flags) (auto simp: notifyThreadsToAbort_def)
  then show "Finished Confirmed \<in> set (peer_pcs s) \<longrightarrow> verdict (stats ?s) = verdict (stats s)" by simp
  show "expected_sent u c (stats ?s) p = expected_sent u c (stats s) q @ []"
    using p expected_sent_verdict [of p "stats ?s" "stats s" u c] by simp
qed (auto simp: notifyThreadsToAbort_def)

lemma traffic_goto:
  assumes "traffic_inv u c s" "at_pc s t q" "expected_sent u c (stats s) p = expected_sent u c (stats s) q"
  shows "traffic_inv u c (goto t p s)"
  by (rule traffic_move [OF assms(1,2), where p = p and msgs = "[]" and woken = False])
     (use assms(3) in auto)

lemma traffic_send:
  assumes "traffic_inv u c s" "at_pc s t q"
    "expected_sent u c (stats s) p = expected_sent u c (stats s) q @ [master_message k i]"
  shows "traffic_inv u c (goto t p (send_peer t k i s))"
  by (rule traffic_move [OF assms(1,2), where p = p and msgs = "[master_message k i]" and woken = False])
     (use assms(3) in auto)

lemma traffic_on_ready:
  assumes inv: "traffic_inv u c s" and t: "at_pc s t (Receiving PRECOMMIT_SENT)"
  shows "traffic_inv u c (on_ready t s)"
proof -
  let ?n = "numberOfPositivePrecommitAcknowledgementsPending (stats s) - 1"
  have v: "verdict (stats (on_ready t s)) = verdict (stats s)"
    by (rule verdict_same_flags) (simp_all add: on_ready_def ready_test_def Let_def)
  show ?thesis
    by (rule traffic_move [OF inv t, where woken = "?n = 0" and msgs = "[]"
            and p = "if ?n = 0 \<or> shouldAbort (stats s) then Ready_Decided else Ready_Asleep"])
       (use v in \<open>auto simp: on_ready_def ready_test_def Let_def word_gt_0\<close>)
qed

lemma traffic_on_commit_success:
  assumes inv: "traffic_inv u c s" and t: "at_pc s t (Receiving COMMIT_SENT)"
  shows "traffic_inv u c (on_commit_success t s)"
proof -
  let ?n = "numberOfSuccessfulCommitAcknowledgementsPending (stats s) - 1"
  have v: "verdict (stats (on_commit_success t s)) = verdict (stats s)"
    by (rule verdict_same_flags) (simp_all add: on_commit_success_def commit_test_def Let_def)
  show ?thesis
    by (rule traffic_move [OF inv t, where woken = "?n = 0" and msgs = "[]"
            and p = "if ?n = 0 \<or> didOneOrMorePeersFailToCommit (stats s) then Commit_Decided else Commit_Asleep"])
       (use v in \<open>auto simp: on_commit_success_def commit_test_def Let_def word_gt_0\<close>)
qed

lemma traffic_operate:
  assumes inv: "traffic_inv u c s" "decisions_inv s" and t: "at_pc s t Operating"
    and op: "operate user command t s = ret s'"
  shows "traffic_inv u c s'"
proof (rule traffic_move [OF inv(1) t, where p = Confirming and msgs = "[]" and woken = False])
  show "Finished Confirmed \<in> set (peer_pcs s) \<longrightarrow> verdict (stats s') = verdict (stats s)"
  proof
    assume "Finished Confirmed \<in> set (peer_pcs s)"
    then have "masterOperationCompletionMessage (stats s) \<noteq> []"
      using confirmed_decided [OF inv(2)] decisions_exclusive [OF inv(2)] decisions_at [OF inv(2) t] by auto
    then show "verdict (stats s') = verdict (stats s)" using op by (auto simp: operate_def)
  qed
qed (use op in \<open>auto simp: operate_def bind_run_ret_iff split: if_splits\<close>)

lemma traffic_step:
  assumes step: "peer_step user command s s'" and inv: "traffic_inv user command s" "decisions_inv s"
  shows "traffic_inv user command s'"
  using step
proof cases
  case (connect_refused t)
  then show ?thesis using inv by (auto simp: connect_fails_def intro!: traffic_notify_abort)
next
  case (connected t)
  then show ?thesis using inv by (auto simp: connect_succeeds_def intro!: traffic_send)
next
  case (recv_ready t status e)
  then show ?thesis by (auto dest!: classify_response_status(1) intro: traffic_on_ready [OF inv(1)])
next
  case (recv_success t status e)
  then show ?thesis by (auto dest!: classify_response_status(2) intro: traffic_on_commit_success [OF inv(1)])
next
  case (recv_unsuccess t status e)
  then show ?thesis using inv classify_response_status(3) [of status e]
    by (auto simp: on_commit_unsuccess_def intro!: traffic_notify_undo)
next
  case (recv_other t status e)
  then show ?thesis using inv(1) by simp
next
  case (recv_lost t status e)
  then show ?thesis using inv
    by (cases status) (auto simp: on_lost_def intro!: traffic_notify_undo traffic_notify_abort)
next
  case (recv_error t status e)
  then show ?thesis using inv(1) by (cases status) (auto simp: on_error_def intro!: traffic_goto)
next
  case (ready_retry t)
  then show ?thesis using inv by (auto simp: ready_test_def intro!: traffic_goto)
next
  case (ready_proceeds t)
  then show ?thesis using inv by (auto simp: ready_decide_def intro!: traffic_send)
next
  case (commit_retry t)
  then show ?thesis using inv by (auto simp: commit_test_def intro!: traffic_goto)
next
  case (commit_proceeds t)
  then show ?thesis using inv by (auto simp: commit_decide_def intro!: traffic_goto)
next
  case (operates t)
  then show ?thesis using inv by (auto intro: traffic_operate)
next
  case (confirms t)
  then show ?thesis using inv by (auto simp: confirm_def Let_def verdict_def intro!: traffic_send)
next
  case (spurious_wakeup t p)
  then show ?thesis using inv by (auto simp: expected_sent_wake intro!: traffic_goto)
qed

section \<open>Who was notified, and the operation on the master\<close>

definition notified_inv :: "master \<Rightarrow> bool" where
  \<comment> \<open>a thread that gave up told the others\<close>
  "notified_inv s \<longleftrightarrow>
     (list_ex abort_cause (peer_pcs s) \<longrightarrow> shouldAbort (stats s)) \<and>
     (list_ex undo_cause (peer_pcs s) \<longrightarrow> didOneOrMorePeersFailToCommit (stats s))"

definition operation_inv :: "bytes \<Rightarrow> bytes \<Rightarrow> store \<Rightarrow> master \<Rightarrow> bool" where
  \<comment> \<open>the operation ran at most once, and on the store the transaction started with\<close>
  "operation_inv user command st s \<longleftrightarrow>
     (if masterOperationCompletionMessage (stats s) = [] then master_store s = st
      else \<exists>un. master_operation user command st =
             ret (masterOperationCompletionMessage (stats s), un, master_store s))"

lemma list_ex_goto:
  "list_ex C (peer_pcs (goto t p s)) \<Longrightarrow> C p \<or> list_ex C (peer_pcs s)"
  by (auto dest: list_ex_update_cases)

lemma wake_causes [simp]:
  "list_ex abort_cause (map wake_peer ps) = list_ex abort_cause ps"
  "list_ex undo_cause (map wake_peer ps) = list_ex undo_cause ps"
  by (simp_all add: list_ex_iff)

lemma notified_goto:
  "notified_inv s \<Longrightarrow> abort_cause p \<longrightarrow> shouldAbort (stats s) \<Longrightarrow>
   undo_cause p \<longrightarrow> didOneOrMorePeersFailToCommit (stats s) \<Longrightarrow> notified_inv (goto t p s)"
  by (auto simp: notified_inv_def dest!: list_ex_update_cases)

lemma notified_same [simp]:
  "notified_inv (send_peer t k i s) = notified_inv s"
  "notified_inv (broadcast_peers s) = notified_inv s"
  "notified_inv (s\<lparr>stats := (stats s)\<lparr>numberOfPositivePrecommitAcknowledgementsPending := a\<rparr>\<rparr>) =
     notified_inv s"
  "notified_inv (s\<lparr>stats := (stats s)\<lparr>numberOfSuccessfulCommitAcknowledgementsPending := a\<rparr>\<rparr>) =
     notified_inv s"
  "notified_inv (s\<lparr>stats := (stats s)\<lparr>masterOperationCompletionMessage := m\<rparr>, master_store := st\<rparr>) =
     notified_inv s"
  by (simp_all add: notified_inv_def)

lemma notified_notify:
  "notified_inv s \<Longrightarrow> notified_inv (notifyThreadsToAbort s)"
  "notified_inv s \<Longrightarrow> notified_inv (notifyThreadsToUndoCommit s)"
  by (auto simp: notified_inv_def notifyThreadsToAbort_def notifyThreadsToUndoCommit_def)

lemma notify_flags [simp]:
  "shouldAbort (stats (notifyThreadsToAbort s))"
  "didOneOrMorePeersFailToCommit (stats (notifyThreadsToUndoCommit s))"
  by (simp_all add: notifyThreadsToAbort_def notifyThreadsToUndoCommit_def)

lemma notified_step: "peer_step user command s s' \<Longrightarrow> notified_inv s \<Longrightarrow> notified_inv s'"
proof (induction rule: peer_step.induct)
  case (operates s t s')
  then show ?case
    by (auto simp: operate_def bind_run_ret_iff intro!: notified_goto split: if_splits)
next
  case (spurious_wakeup s t p)
  then have "abort_cause p \<longrightarrow> shouldAbort (stats s)"
    "undo_cause p \<longrightarrow> didOneOrMorePeersFailToCommit (stats s)"
    by (auto simp: notified_inv_def list_ex_length at_pc_def)
  then show ?case using spurious_wakeup by (auto intro!: notified_goto)
next
  case (recv_lost s t status e)
  then show ?case by (cases status) (auto simp: on_lost_def intro!: notified_goto notified_notify)
qed (auto simp: connect_fails_def connect_succeeds_def on_ready_def ready_test_def ready_decide_def
  commit_test_def on_commit_success_def commit_decide_def confirm_def on_commit_unsuccess_def
  on_error_def Let_def intro!: notified_goto notified_notify)

lemma operation_unchanged:
  "operation_inv u c st s \<Longrightarrow> master_store s' = master_store s \<Longrightarrow>
   masterOperationCompletionMessage (stats s') = masterOperationCompletionMessage (stats s) \<Longrightarrow>
   operation_inv u c st s'"
  by (simp add: operation_inv_def)

lemma operation_step: "peer_step user command s s' \<Longrightarrow> operation_inv user command st s \<Longrightarrow>
  operation_inv user command st s'"
proof (induction rule: peer_step.induct)
  case (operates s t s')
  then show ?case
    by (auto simp: operate_def operation_inv_def bind_run_ret_iff split: if_splits
        dest: master_operation_nonempty)
qed (auto elim!: operation_unchanged simp: step_defs)

section \<open>The invariant\<close>

definition master_inv :: "nat \<Rightarrow> store \<Rightarrow> bytes \<Rightarrow> bytes \<Rightarrow> master \<Rightarrow> bool" where
  "master_inv n st user command s \<longleftrightarrow>
     counters_inv n s \<and> decisions_inv s \<and> traffic_inv user command s \<and> notified_inv s \<and>
     operation_inv user command st s"

lemma master_init_inv: "master_init n st s \<Longrightarrow> master_inv n st user command s"
  by (simp add: master_init_def master_inv_def counters_inv_def decisions_inv_def traffic_inv_def
      notified_inv_def operation_inv_def new_statistics_def list_all_iff list_ex_iff
      map_replicate_const)

lemma master_step_inv:
  "n < 2 ^ 64 \<Longrightarrow> peer_step user command s s' \<Longrightarrow> master_inv n st user command s \<Longrightarrow>
   master_inv n st user command s'"
  by (auto simp: master_inv_def intro: counters_step decisions_step traffic_step notified_step
      operation_step)

interpretation master: inductive_invariant "master_init n st" "peer_step user command"
    "\<lambda>s. n < 2 ^ 64 \<longrightarrow> master_inv n st user command s"
  for n st user command
  by unfold_locales (auto intro: master_init_inv master_step_inv)

end
