(* ===== verification/Replication.thy ===== *)
theory Replication
  imports Master_Invariant
begin

text \<open>
  The two sides of the two-phase commit together: what the invariant of the master says about
  the decisions and the messages of a reachable state, and what a slave that is delivered
  those messages ends with.
\<close>

section \<open>Protocol messages\<close>

lemma master_message_kind:
  "kind = k # ks \<Longrightarrow> k \<noteq> NUL \<Longrightarrow> master_message kind info ! 4 = k"
  by (simp add: master_message_def sendMessageToSocket_def snprintf_def fmt_codes cstr_def)

lemma master_message_letters [simp]:
  "master_message PRECOMMIT info ! 4 = CHR ''P''" "master_message COMMIT info ! 4 = CHR ''C''"
  "master_message ABORT info ! 4 = CHR ''A''" "master_message SUCCESS_NOOP info ! 4 = CHR ''S''"
  "master_message UNSUCCESS_UNDO info ! 4 = CHR ''U''"
  by (rule master_message_kind, simp, simp)+

lemma distinct_messages: "m ! 4 \<noteq> m' ! 4 \<Longrightarrow> m \<noteq> (m' :: bytes)"
  by auto

lemma master_message_distinct [simp]:
  "master_message COMMIT c \<noteq> master_message PRECOMMIT u"
  "master_message ABORT a \<noteq> master_message PRECOMMIT u"
  "master_message COMMIT c \<noteq> master_message ABORT a"
  "master_message ABORT a \<noteq> master_message COMMIT c"
  "master_message COMMIT c \<noteq> master_message SUCCESS_NOOP a"
  "master_message ABORT b \<noteq> master_message SUCCESS_NOOP a"
  "master_message COMMIT c \<noteq> master_message UNSUCCESS_UNDO a"
  "master_message ABORT b \<noteq> master_message UNSUCCESS_UNDO a"
  "master_message UNSUCCESS_UNDO a \<noteq> master_message SUCCESS_NOOP b"
  by (rule distinct_messages, simp)+

lemma verdict_cases: "verdict st = SUCCESS_NOOP \<or> verdict st = UNSUCCESS_UNDO"
  by (simp add: verdict_def)

section \<open>Reachable states of the master\<close>

lemmas master_reach = master.inv_reach [THEN mp]

lemma sent_expected:
  assumes "master_inv n st user command s" "i < n"
  shows "outbox s ! i = expected_sent user command (stats s) (peer_pcs s ! i)"
  using assms by (simp add: master_inv_def traffic_inv_def counters_inv_def)

lemma commit_sent_past:
  "master_message COMMIT command \<in> set (expected_sent user command st p) \<Longrightarrow> past_ready p"
  using verdict_cases [of st]
  by (cases "(user, command, st, p)" rule: expected_sent.cases) (auto split: if_splits)

lemma abort_sent_aborted:
  "master_message ABORT [] \<in> set (expected_sent user command st p) \<Longrightarrow> p = Finished Aborted"
  using verdict_cases [of st]
  by (cases "(user, command, st, p)" rule: expected_sent.cases) (auto split: if_splits)

lemma tally_zero_nth: "tally P xs = 0 \<Longrightarrow> i < length xs \<Longrightarrow> \<not> P (xs ! i)"
  using tally_pos_nth [of i xs P] by auto

lemma operation_not_yet:
  assumes inv: "master_inv n st user command s" and t: "at_pc s i p" "needs_commit p"
  shows "masterOperationCompletionMessage (stats s) = []" "master_store s = st"
proof -
  have "0 < missing_commit s" using t by (intro tally_pos_nth [of i]) (auto simp: at_pc_def)
  then show "masterOperationCompletionMessage (stats s) = []"
    using inv by (auto simp: master_inv_def decisions_inv_def)
  then show "master_store s = st"
    using inv by (simp add: master_inv_def operation_inv_def)
qed

lemma master_operation_error:
  "master_operation user command st = ret (r, un, st') \<Longrightarrow> contains ERROR r \<Longrightarrow> st' = st"
  by (auto simp: master_operation_def Let_def bind_run_ret_iff dest: perform_operation_ret)

lemma confirmed_verdict:
  assumes inv: "master_inv n st user command s" and c: "Finished Confirmed \<in> set (peer_pcs s)"
  shows "verdict (stats s) = SUCCESS_NOOP \<and>
      (\<exists>r un. master_operation user command st = ret (r, un, master_store s) \<and> \<not> contains ERROR r) \<or>
    verdict (stats s) = UNSUCCESS_UNDO \<and> master_store s = st"
proof (cases "masterOperationCompletionMessage (stats s) = []")
  case True
  then have "didOneOrMorePeersFailToCommit (stats s)"
    using confirmed_decided [OF _ c] inv by (auto simp: master_inv_def)
  then show ?thesis
    using True inv by (simp add: verdict_def master_inv_def operation_inv_def)
next
  case False
  then have "missing_commit s = 0" using inv by (simp add: master_inv_def decisions_inv_def)
  then have f: "\<not> didOneOrMorePeersFailToCommit (stats s)"
    using decisions_exclusive(2) [of s] inv by (auto simp: master_inv_def)
  obtain un where un: "master_operation user command st =
      ret (masterOperationCompletionMessage (stats s), un, master_store s)"
    using False inv by (auto simp: master_inv_def operation_inv_def)
  then show ?thesis
    using f master_operation_error [OF un] by (auto simp: verdict_def)
qed

section \<open>A slave that is delivered what the master sent\<close>

lemma sync_loop_stops: "sync_loop es s = ret (Some n, s') \<Longrightarrow> sync_loop (es @ fs) s = ret (Some n, s')"
proof (induction es arbitrary: s)
  case (Cons e es)
  obtain k req where e: "recv_nonblock e 255 = (k, req)" by force
  show ?case
  proof (cases "k = recv_nodata \<or> k = 0 \<or> k < 0")
    case True
    with Cons.prems e show ?thesis by auto
  next
    case False
    with Cons.prems e obtain request stop s1 where
      "sync_request req = ret request"
      "handle_sync_command (tokenize request [SP]) s = ret (stop, s1)"
      "(if stop then ret (Some k, s1) else sync_loop es s1) = ret (Some n, s')"
      by (auto simp: bind_run_ret_iff)
    with False e Cons.IH [of s1] show ?thesis by (cases stop) auto
  qed
qed simp

lemma sync_session_run_stops:
  assumes "sync_session_run es st = ret (True, s)"
  shows "sync_session_run (es @ fs) st = ret (True, s)"
proof -
  from assms obtain final s1 where l: "sync_loop es (new_session st) = ret (final, s1)"
    "(case final of None \<Rightarrow> ret (False, s1)
      | Some n \<Rightarrow> bind_run (end_of_session n s1) (\<lambda>s'. ret (True, s'))) = ret (True, s)"
    by (auto simp: sync_session_run_def bind_run_ret_iff)
  then obtain n where "final = Some n" by (cases final) auto
  with l sync_loop_stops [of es "new_session st" n s1 fs] show ?thesis
    by (simp add: sync_session_run_def)
qed

lemma sync_session_abandoned:
  assumes "word user" "length user \<le> 239"
  shows "\<exists>s. sync_session_run [delivered []] st = ret (True, s) \<and> node s = st"
    and "\<exists>s. sync_session_run [delivered (master_message PRECOMMIT user), delivered []] st =
           ret (True, s) \<and> node s = st"
    and "\<exists>s. sync_session_run [delivered (master_message PRECOMMIT user),
             delivered (master_message ABORT []), delivered []] st = ret (True, s) \<and> node s = st"
proof -
  show "\<exists>s. sync_session_run [delivered []] st = ret (True, s) \<and> node s = st"
    by (simp add: sync_session_run_def recv_nonblock_def end_of_session_def new_session_def)
  show "\<exists>s. sync_session_run [delivered (master_message PRECOMMIT user), delivered []] st =
      ret (True, s) \<and> node s = st"
    unfolding sync_session_run_def sync_loop_precommit [OF assms]
    by (simp add: recv_nonblock_def end_of_session_def)
  show "\<exists>s. sync_session_run [delivered (master_message PRECOMMIT user),
      delivered (master_message ABORT []), delivered []] st = ret (True, s) \<and> node s = st"
    unfolding sync_session_run_def sync_loop_precommit [OF assms] message_bare
    by (subst sync_loop_message)
       (simp_all add: tokenize_bare handle_sync_command_def vector_at_def end_of_session_def recv_nodata_def)
qed

definition slave_events :: "nat \<Rightarrow> master \<Rightarrow> poll_outcome list" where
  \<comment> \<open>everything sent to peer \<open>i\<close>, then the end of the connection\<close>
  "slave_events i s = map delivered (outbox s ! i) @ [delivered []]"

lemma master_operation_words:
  assumes "word command" "word argument"
  shows "master_operation user (command @ SP # argument) st =
    perform_operation command user argument False Undo_Nothing st"
proof -
  have "tokenize (command @ SP # argument) [SP] = [command, argument]"
    using tokenize_words [of "[command, argument]"] assms by simp
  then show ?thesis by (simp add: master_operation_def vector_at_def)
qed

context committed_command
begin

lemma master_operation_command:
  "wire_ok user command argument \<Longrightarrow>
   master_operation user (command @ SP # argument) st = op False Undo_Nothing st"
  by (simp add: wire_ok_def master_operation_words dispatch)

lemma replica_follows:
  assumes inv: "master_inv n st user (command @ SP # argument) s"
    and i: "i < n" "peer_pcs s ! i = Finished x"
    and ok: "wire_ok user command argument" "ready st" "ready pst"
  shows "\<exists>s'. sync_session_run (slave_events i s) pst = ret (True, s') \<and>
    (if masterOperationCompletionMessage (stats s) = [] then node s' = pst \<and> master_store s = st
     else node s' = effect pst \<and> master_store s = effect st)"
proof -
  let ?cmd = "command @ SP # argument"
  let ?done = "masterOperationCompletionMessage (stats s)"
  have u: "word user" "length user \<le> 239" using ok by (simp_all add: wire_ok_def)
  have at: "at_pc s i (Finished x)" using inv i by (simp add: at_pc_def master_inv_def counters_inv_def)
  have out: "outbox s ! i = expected_sent user ?cmd (stats s) (Finished x)"
    using sent_expected [OF inv i(1)] i(2) by simp
  have none: "master_store s = st" if "?done = []"
    using inv that by (simp add: master_inv_def operation_inv_def)
  have performed: "\<not> contains ERROR ?done \<and> master_store s = effect st" if m: "?done \<noteq> []"
  proof -
    obtain un where "op False Undo_Nothing st = ret (?done, un, master_store s)"
      using inv m master_operation_command [OF ok(1)] by (auto simp: master_inv_def operation_inv_def)
    then show ?thesis using op_commits [OF ok(2), of False Undo_Nothing] by auto
  qed
  show ?thesis
  proof (cases "x = Confirmed")
    case True
    then have c: "Finished Confirmed \<in> set (peer_pcs s)" using at nth_mem [of i "peer_pcs s"] by (auto simp: at_pc_def)
    have ev: "slave_events i s =
        transaction [delivered (master_message (verdict (stats s)) [])] @ [delivered []]"
      using out True by (simp add: slave_events_def)
    show ?thesis
    proof (cases "?done = []")
      case True
      then have v: "verdict (stats s) = UNSUCCESS_UNDO"
        using confirmed_decided [OF _ c] inv by (auto simp: verdict_def master_inv_def)
      obtain s' where "sync_session_run (slave_events i s) pst = ret (True, s')" "node s' = pst"
        using session_outcome(2) [OF ok(3,1)] unfolding ev v by (blast intro: sync_session_run_stops)
      with True none show ?thesis by simp
    next
      case False
      then have "missing_commit s = 0" using inv by (simp add: master_inv_def decisions_inv_def)
      then have v: "verdict (stats s) = SUCCESS_NOOP"
        using decisions_exclusive(2) [of s] inv performed [OF False] by (auto simp: verdict_def master_inv_def)
      obtain s' where "sync_session_run (slave_events i s) pst = ret (True, s')" "node s' = effect pst"
        using session_outcome(1) [OF ok(3,1)] unfolding ev v by (blast intro: sync_session_run_stops)
      with False performed show ?thesis by simp
    qed
  next
    case False
    then have "needs_commit (Finished x)" by (cases x) auto
    then have m: "?done = []" using operation_not_yet [OF inv at] by simp
    consider "slave_events i s = [delivered []]"
      | "slave_events i s = [delivered (master_message PRECOMMIT user), delivered []]"
      | "slave_events i s = [delivered (master_message PRECOMMIT user),
           delivered (master_message ABORT []), delivered []]"
      | "slave_events i s = transaction [delivered []]"
      using False out by (cases x) (auto simp: slave_events_def split: if_splits)
    then have "\<exists>s'. sync_session_run (slave_events i s) pst = ret (True, s') \<and> node s' = pst"
      by cases (use sync_session_abandoned [OF u, of pst] session_outcome(3) [OF ok(3,1)] in simp_all)
    then show ?thesis using m none by simp
  qed
qed

lemma replica_agrees:
  assumes "master_inv n st user (command @ SP # argument) s"
    and "i < n" "peer_pcs s ! i = Finished x"
    and "wire_ok user command argument" "ready st" "ready pst"
  shows "\<exists>s'. sync_session_run (slave_events i s) pst = ret (True, s') \<and>
    (node s' = effect pst \<and> master_store s = effect st \<or> node s' = pst \<and> master_store s = st)"
  using replica_follows [OF assms] by (auto split: if_splits)

end

section \<open>Progress\<close>

fun blocked :: "peer_pc \<Rightarrow> bool" where
  "blocked Ready_Asleep = True"
| "blocked Commit_Asleep = True"
| "blocked (Finished x) = True"
| "blocked _ = False"

lemma unblocked:
  "\<not> needs_ready p \<Longrightarrow> p \<noteq> Ready_Asleep \<Longrightarrow> p \<noteq> Finished Aborted \<Longrightarrow> \<not> undo_cause p \<Longrightarrow>
   \<forall>x. p \<noteq> Finished (Recv_Failed x) \<Longrightarrow> needs_commit p \<Longrightarrow> \<not> blocked p"
  by (cases p rule: needs_ready.cases) (auto intro: SyncMasterServerStatus.exhaust)

lemma asleep_has_waker:
  assumes inv: "master_inv n st user command s"
    and asleep: "Ready_Asleep \<in> set (peer_pcs s) \<or> Commit_Asleep \<in> set (peer_pcs s)"
    and ok: "\<forall>x. Finished (Recv_Failed x) \<notin> set (peer_pcs s)"
  shows "\<exists>p \<in> set (peer_pcs s). \<not> blocked p"
  using asleep
proof
  have dec: "\<And>p. p \<in> set (peer_pcs s) \<Longrightarrow> pc_ok (stats s) (missing_ready s) (missing_commit s) p"
    and told: "\<And>p. p \<in> set (peer_pcs s) \<Longrightarrow> abort_cause p \<Longrightarrow> shouldAbort (stats s)"
      "\<And>p. p \<in> set (peer_pcs s) \<Longrightarrow> undo_cause p \<Longrightarrow> didOneOrMorePeersFailToCommit (stats s)"
    using inv by (auto simp: master_inv_def decisions_inv_def notified_inv_def list_all_iff list_ex_iff)
  {
    assume a: "Ready_Asleep \<in> set (peer_pcs s)"
    from dec [OF a] obtain p where p: "p \<in> set (peer_pcs s)" "needs_ready p" and f: "\<not> shouldAbort (stats s)"
      by (auto simp: tally_pos_iff list_ex_iff)
    then have "\<not> abort_cause p" "\<forall>x. p \<noteq> Finished (Recv_Failed x)" using told(1) ok by blast+
    with p(2) have "\<not> blocked p" by (cases p rule: needs_ready.cases) auto
    with p(1) show ?thesis by blast
  next
    assume a: "Commit_Asleep \<in> set (peer_pcs s)"
    from dec [OF a] obtain p where p: "p \<in> set (peer_pcs s)" "needs_commit p"
      and f: "\<not> didOneOrMorePeersFailToCommit (stats s)"
      by (auto simp: tally_pos_iff list_ex_iff)
    have r: "missing_ready s = 0"
      using inv a decisions_past [of s _ Commit_Asleep]
      by (auto simp: master_inv_def at_pc_def in_set_conv_nth)
    then have "\<not> needs_ready p" using p(1) by (metis in_set_conv_nth tally_zero_nth)
    moreover have "\<not> shouldAbort (stats s)"
      using inv r decisions_exclusive(1) [of s] by (auto simp: master_inv_def)
    then have "p \<noteq> Ready_Asleep" "p \<noteq> Finished Aborted" using dec [OF p(1)] r by auto
    moreover have "\<not> undo_cause p" "\<forall>x. p \<noteq> Finished (Recv_Failed x)" using told(2) f ok p(1) by blast+
    ultimately have "\<not> blocked p"
      using p(2) by (intro unblocked)
    with p(1) show ?thesis by blast
  }
qed


fun pc_rank :: "peer_pc \<Rightarrow> nat" where
  \<comment> \<open>an upper bound on the steps a thread still has before it\<close>
  "pc_rank Starting = 9"
| "pc_rank (Receiving PRECOMMIT_SENT) = 8"
| "pc_rank Ready_Asleep = 7"
| "pc_rank Ready_Awake = 7"
| "pc_rank Ready_Decided = 6"
| "pc_rank (Receiving COMMIT_SENT) = 5"
| "pc_rank Commit_Asleep = 4"
| "pc_rank Commit_Awake = 4"
| "pc_rank Commit_Decided = 3"
| "pc_rank Operating = 2"
| "pc_rank Confirming = 1"
| "pc_rank (Finished x) = 0"

fun awake :: "peer_pc \<Rightarrow> bool" where
  "awake Ready_Awake = True" | "awake Commit_Awake = True" | "awake p = False"

definition total_rank :: "master \<Rightarrow> nat" where
  "total_rank s = sum_list (map pc_rank (peer_pcs s))"

definition awake_count :: "master \<Rightarrow> nat" where
  "awake_count s = tally awake (peer_pcs s)"

abbreviation progress_order :: "(master \<times> master) set" where
  "progress_order \<equiv> measures [total_rank, awake_count]"

lemma pc_rank_wake [simp]: "pc_rank (wake_peer p) = pc_rank p"
  by (cases p rule: wake_peer.cases) auto

lemma total_rank_move:
  assumes "at_pc s t q" "pc_rank p < pc_rank q"
    and "peer_pcs s' = (if woken then map wake_peer (peer_pcs s) else peer_pcs s)[t := p]"
  shows "(s', s) \<in> progress_order"
proof -
  let ?r = "map pc_rank (peer_pcs s)"
  have t: "t < length ?r" "?r ! t = pc_rank q" using assms(1) by (auto simp: at_pc_def)
  have "map pc_rank (peer_pcs s') = ?r[t := pc_rank p]"
    using assms(3) by (auto simp: map_update comp_def)
  then have "total_rank s' = total_rank s + pc_rank p - pc_rank q"
    using t by (simp add: total_rank_def sum_list_update)
  moreover have "pc_rank q \<le> total_rank s"
    using t elem_le_sum_list [of t ?r] by (simp add: total_rank_def)
  ultimately have "total_rank s' < total_rank s" using assms(2) by arith
  then show ?thesis by simp
qed

lemma if_cases: "(x, z) \<in> R \<Longrightarrow> (y, z) \<in> R \<Longrightarrow> ((if b then x else y), z) \<in> R"
  by simp

lemma retry_progress:
  assumes "at_pc s t q" "awake q" "pc_rank p \<le> pc_rank q" "\<not> awake p"
  shows "(goto t p s, s) \<in> progress_order"
proof (cases "pc_rank p = pc_rank q")
  case True
  let ?r = "map pc_rank (peer_pcs s)"
  have "t < length ?r" "?r ! t = pc_rank q" using assms(1) by (auto simp: at_pc_def)
  then have "?r[t := pc_rank p] = ?r" using True by (metis list_update_id)
  then have "total_rank (goto t p s) = total_rank s" by (simp add: total_rank_def map_update)
  moreover have "awake_count (goto t p s) < awake_count s"
    using assms tally_pos_nth [of t "peer_pcs s" awake]
    by (auto simp: awake_count_def at_pc_def tally_list_update)
  ultimately show ?thesis by simp
next
  case False
  with assms show ?thesis by (intro total_rank_move [where woken = False]) auto
qed

lemma ready_test_progress:
  assumes "at_pc s t Ready_Awake" shows "(ready_test t s, s) \<in> progress_order"
  unfolding ready_test_def by (rule if_cases) (rule retry_progress [OF assms]; simp)+

lemma commit_test_progress:
  assumes "at_pc s t Commit_Awake" shows "(commit_test t s, s) \<in> progress_order"
  unfolding commit_test_def by (rule if_cases) (rule retry_progress [OF assms]; simp)+

lemma status_cases_rank [simp]: "0 < pc_rank (Receiving status)"
  by (cases status) auto

definition idle_step :: "master \<Rightarrow> master \<Rightarrow> bool" where
  \<comment> \<open>nothing happened, or a thread was woken for no reason\<close>
  "idle_step s s' \<longleftrightarrow> (\<exists>t. s' = goto t (wake_peer (peer_pcs s ! t)) s) \<or> s' = s"

lemma connect_fails_progress: "at_pc s t Starting \<Longrightarrow> (connect_fails t s, s) \<in> progress_order"
  by (intro total_rank_move [where woken = "\<not> shouldAbort (stats s)"])
     (auto simp: connect_fails_def notifyThreadsToAbort_def)

lemma on_lost_progress: "at_pc s t (Receiving status) \<Longrightarrow> (on_lost t status s, s) \<in> progress_order"
  by (intro total_rank_move [where p = "Finished (Lost status)"
        and woken = "if status = PRECOMMIT_SENT then \<not> shouldAbort (stats s)
                     else \<not> didOneOrMorePeersFailToCommit (stats s)"])
     (auto simp: on_lost_def notifyThreadsToUndoCommit_def notifyThreadsToAbort_def)

lemma ready_decide_progress: "at_pc s t Ready_Decided \<Longrightarrow> (ready_decide command t s, s) \<in> progress_order"
  by (intro total_rank_move [where woken = False
        and p = "if shouldAbort (stats s) then Finished Aborted else Receiving COMMIT_SENT"])
     (auto simp: ready_decide_def)

lemma commit_decide_progress: "at_pc s t Commit_Decided \<Longrightarrow> (commit_decide t s, s) \<in> progress_order"
  by (intro total_rank_move [where woken = False
        and p = "if didOneOrMorePeersFailToCommit (stats s) then Confirming else Operating"])
     (auto simp: commit_decide_def)

lemma confirm_progress: "at_pc s t Confirming \<Longrightarrow> (confirm t s, s) \<in> progress_order"
  by (intro total_rank_move [where woken = False and p = "Finished Confirmed"])
     (auto simp: confirm_def Let_def)

lemma operate_progress:
  "at_pc s t Operating \<Longrightarrow> operate user command t s = ret s' \<Longrightarrow> (s', s) \<in> progress_order"
  by (intro total_rank_move [where woken = False and p = Confirming])
     (auto simp: operate_def bind_run_ret_iff split: if_splits)

lemma connect_succeeds_progress:
  "at_pc s t Starting \<Longrightarrow> (connect_succeeds user t s, s) \<in> progress_order"
  by (intro total_rank_move [where woken = False]) (auto simp: connect_succeeds_def)

lemma on_ready_progress:
  assumes "at_pc s t (Receiving PRECOMMIT_SENT)" shows "(on_ready t s, s) \<in> progress_order"
proof -
  let ?n = "numberOfPositivePrecommitAcknowledgementsPending (stats s) - 1"
  show ?thesis
    using assms
    by (intro total_rank_move [where woken = "?n = 0"
          and p = "if ?n = 0 \<or> shouldAbort (stats s) then Ready_Decided else Ready_Asleep"])
       (auto simp: on_ready_def ready_test_def Let_def word_gt_0)
qed

lemma on_commit_success_progress:
  assumes "at_pc s t (Receiving COMMIT_SENT)" shows "(on_commit_success t s, s) \<in> progress_order"
proof -
  let ?n = "numberOfSuccessfulCommitAcknowledgementsPending (stats s) - 1"
  show ?thesis
    using assms
    by (intro total_rank_move [where woken = "?n = 0"
          and p = "if ?n = 0 \<or> didOneOrMorePeersFailToCommit (stats s) then Commit_Decided else Commit_Asleep"])
       (auto simp: on_commit_success_def commit_test_def Let_def word_gt_0)
qed

lemma peer_step_progress:
  "peer_step user command s s' \<Longrightarrow> idle_step s s' \<or> (s', s) \<in> progress_order"
proof (induction rule: peer_step.induct)
  case (connect_refused s t)
  then show ?case
    by (intro disjI2 connect_fails_progress)
next
  case (connected s t)
  then show ?case
    by (intro disjI2 connect_succeeds_progress)
next
  case (recv_ready s t status e)
  then show ?case
    using classify_response_status(1) [OF recv_ready(2)] by (intro disjI2 on_ready_progress) simp
next
  case (recv_success s t status e)
  then show ?case
    using classify_response_status(2) [OF recv_success(2)] by (intro disjI2 on_commit_success_progress) simp
next
  case (recv_unsuccess s t status e)
  then show ?case
    by (intro disjI2 total_rank_move [where woken = "\<not> didOneOrMorePeersFailToCommit (stats s)"])
       (auto simp: on_commit_unsuccess_def notifyThreadsToUndoCommit_def)
next
  case (recv_lost s t status e)
  then show ?case
    by (intro disjI2 on_lost_progress)
next
  case (recv_error s t status e)
  then show ?case
    by (intro disjI2 total_rank_move [where woken = False]) (auto simp: on_error_def)
next
  case (ready_retry s t)
  then show ?case by (intro disjI2 ready_test_progress)
next
  case (ready_proceeds s t)
  then show ?case
    by (intro disjI2 ready_decide_progress)
next
  case (commit_retry s t)
  then show ?case by (intro disjI2 commit_test_progress)
next
  case (commit_proceeds s t)
  then show ?case
    by (intro disjI2 commit_decide_progress)
next
  case (operates s t s')
  then show ?case
    by (intro disjI2 operate_progress)
next
  case (confirms s t)
  then show ?case
    by (intro disjI2 confirm_progress)
qed (auto simp: idle_step_def at_pc_def)

definition no_recv_failed :: "master \<Rightarrow> bool" where
  "no_recv_failed s \<longleftrightarrow> (\<forall>x. Finished (Recv_Failed x) \<notin> set (peer_pcs s))"

definition all_finished :: "master \<Rightarrow> bool" where
  "all_finished s \<longleftrightarrow> (\<forall>p \<in> set (peer_pcs s). \<exists>x. p = Finished x)"

lemma no_recv_failed_goto:
  "no_recv_failed s \<Longrightarrow> \<forall>x. p \<noteq> Finished (Recv_Failed x) \<Longrightarrow> no_recv_failed (goto t p s)"
  using set_update_subset_insert by (fastforce simp: no_recv_failed_def)

lemma finished_wake_image [simp]: "Finished x \<in> wake_peer ` S \<longleftrightarrow> Finished x \<in> S"
  by (metis image_iff wake_peer.simps(10) wake_peer_flags(5))

lemma no_recv_failed_same [simp]:
  "no_recv_failed (send_peer t k i s) = no_recv_failed s"
  "no_recv_failed (notifyThreadsToAbort s) = no_recv_failed s"
  "no_recv_failed (notifyThreadsToUndoCommit s) = no_recv_failed s"
  by (auto simp: no_recv_failed_def notifyThreadsToAbort_def notifyThreadsToUndoCommit_def)

lemma classify_timeout: "classify_response status Poll_Timeout = ret On_Lost"
  by (simp add: classify_response_def recv_nonblock_def)

lemma operate_returns:
  assumes inv: "master_inv n st user command s" and op: "returns (master_operation user command st)"
  obtains s' where "operate user command t s = ret s'"
proof (cases "masterOperationCompletionMessage (stats s) = []")
  case True
  then have "master_store s = st" using inv by (simp add: master_inv_def operation_inv_def)
  with True op that show ?thesis by (auto simp: operate_def returns_iff)
next
  case False
  with that show ?thesis by (simp add: operate_def)
qed

lemma unblocked_step:
  assumes inv: "master_inv n st user command s" and op: "returns (master_operation user command st)"
    and t: "at_pc s t p" "\<not> blocked p" and ok: "no_recv_failed s"
  shows "\<exists>s'. peer_step user command s s' \<and> (s', s) \<in> progress_order \<and> no_recv_failed s'"
proof (cases p)
  case Starting
  with t ok show ?thesis
    by (intro exI [of _ "connect_fails t s"] conjI peer_step.connect_refused connect_fails_progress)
       (auto simp: connect_fails_def intro!: no_recv_failed_goto)
next
  case (Receiving status)
  with t ok show ?thesis
    by (intro exI [of _ "on_lost t status s"] conjI peer_step.recv_lost [OF _ classify_timeout] on_lost_progress)
       (auto simp: on_lost_def intro!: no_recv_failed_goto)
next
  case Ready_Awake
  with t ok show ?thesis
    by (intro exI [of _ "ready_test t s"] conjI peer_step.ready_retry ready_test_progress)
       (auto simp: ready_test_def intro!: no_recv_failed_goto)
next
  case Ready_Decided
  with t ok show ?thesis
    by (intro exI [of _ "ready_decide command t s"] conjI peer_step.ready_proceeds ready_decide_progress)
       (auto simp: ready_decide_def intro!: no_recv_failed_goto)
next
  case Commit_Awake
  with t ok show ?thesis
    by (intro exI [of _ "commit_test t s"] conjI peer_step.commit_retry commit_test_progress)
       (auto simp: commit_test_def intro!: no_recv_failed_goto)
next
  case Commit_Decided
  with t ok show ?thesis
    by (intro exI [of _ "commit_decide t s"] conjI peer_step.commit_proceeds commit_decide_progress)
       (auto simp: commit_decide_def intro!: no_recv_failed_goto)
next
  case Operating
  obtain s' where s': "operate user command t s = ret s'" using operate_returns [OF inv op] .
  then have "peer_pcs s' = peer_pcs (goto t Confirming s)"
    by (auto simp: operate_def bind_run_ret_iff split: if_splits)
  then have "no_recv_failed s'"
    using no_recv_failed_goto [OF ok, of Confirming t] by (simp add: no_recv_failed_def)
  with t Operating s' show ?thesis by (blast intro: peer_step.operates operate_progress)
next
  case Confirming
  with t ok show ?thesis
    by (intro exI [of _ "confirm t s"] conjI peer_step.confirms confirm_progress)
       (auto simp: confirm_def Let_def intro!: no_recv_failed_goto)
qed (use t in auto)

lemma finishes_while:
  assumes n: "n < 2 ^ 64" and inv: "master_inv n st user command s" and good: "P s"
    and no_error: "\<And>s. P s \<Longrightarrow> no_recv_failed s"
    and step: "\<And>s t p. master_inv n st user command s \<Longrightarrow> P s \<Longrightarrow> at_pc s t p \<Longrightarrow> \<not> blocked p \<Longrightarrow>
      \<exists>s'. peer_step user command s s' \<and> (s', s) \<in> progress_order \<and> P s'"
  shows "\<exists>s'. (peer_step user command)\<^sup>*\<^sup>* s s' \<and> all_finished s' \<and> P s'"
  using inv good
proof (induction s rule: wf_induct_rule [OF wf_measures [of "[total_rank, awake_count]"]])
  case (1 s)
  show ?case
  proof (cases "\<exists>p \<in> set (peer_pcs s). \<not> blocked p")
    case True
    then obtain t p where "at_pc s t p" "\<not> blocked p" by (auto simp: in_set_conv_nth at_pc_def)
    from step [OF "1.prems" this] obtain s1 where
      s1: "peer_step user command s s1" "(s1, s) \<in> progress_order" "P s1" by blast
    then obtain s' where "(peer_step user command)\<^sup>*\<^sup>* s1 s'" "all_finished s' \<and> P s'"
      using "1.IH" [OF s1(2)] master_step_inv [OF n s1(1) "1.prems"(1)] by blast
    with s1(1) show ?thesis by (meson converse_rtranclp_into_rtranclp)
  next
    case False
    then have "Ready_Asleep \<notin> set (peer_pcs s)" "Commit_Asleep \<notin> set (peer_pcs s)"
      using asleep_has_waker [OF "1.prems"(1)] no_error [OF "1.prems"(2)] by (auto simp: no_recv_failed_def)
    with False have "all_finished s"
      unfolding all_finished_def by (metis blocked.elims(2))
    then show ?thesis using "1.prems"(2) by blast
  qed
qed

lemma master_finishes:
  assumes "n < 2 ^ 64" "master_inv n st user command s" "no_recv_failed s"
    and op: "returns (master_operation user command st)"
  shows "\<exists>s'. (peer_step user command)\<^sup>*\<^sup>* s s' \<and> all_finished s'"
  using finishes_while [of n st user command s no_recv_failed] assms unblocked_step [OF _ op] by blast

section \<open>A receive error\<close>

definition stranded :: "master \<Rightarrow> bool" where
  \<comment> \<open>some threads wait for \<open>READY\<close>, and those that did not get it have left without a word\<close>
  "stranded s \<longleftrightarrow>
     list_all (\<lambda>p. p = Ready_Asleep \<or> p = Ready_Awake \<or> p = Finished (Recv_Failed PRECOMMIT_SENT)) (peer_pcs s) \<and>
     list_ex (\<lambda>p. p = Ready_Asleep \<or> p = Ready_Awake) (peer_pcs s) \<and>
     \<not> shouldAbort (stats s) \<and> numberOfPositivePrecommitAcknowledgementsPending (stats s) \<noteq> 0"

lemma stranded_at: "stranded s \<Longrightarrow> at_pc s t p \<Longrightarrow>
    p = Ready_Asleep \<or> p = Ready_Awake \<or> p = Finished (Recv_Failed PRECOMMIT_SENT)"
  by (auto simp: stranded_def at_pc_def list_all_length)

lemma stranded_goto:
  "stranded s \<Longrightarrow> at_pc s t q \<Longrightarrow> p = Ready_Asleep \<or> p = Ready_Awake \<Longrightarrow> stranded (goto t p s)"
  by (auto simp: stranded_def at_pc_def intro!: list_all_update list_ex_update_new)

lemma stranded_step: "peer_step user command s s' \<Longrightarrow> stranded s \<Longrightarrow> stranded s'"
proof (induction rule: peer_step.induct)
  case (ready_retry s t)
  then have "ready_test t s = goto t Ready_Asleep s"
    by (auto simp: ready_test_def stranded_def word_gt_0)
  with ready_retry show ?case by (auto intro: stranded_goto)
next
  case (spurious_wakeup s t p)
  then show ?case
    using stranded_at [OF spurious_wakeup(2,1)] by (auto simp: goto_same intro: stranded_goto)
qed (use stranded_at in blast)+

lemma stranded_steps: "(peer_step user command)\<^sup>*\<^sup>* s s' \<Longrightarrow> stranded s \<Longrightarrow> stranded s'"
  by (induction rule: rtranclp_induct) (auto intro: stranded_step)

lemma stranded_unfinished: "stranded s \<Longrightarrow> \<not> all_finished s"
  by (auto simp: stranded_def all_finished_def list_ex_iff)

lemma strandedI:
  assumes inv: "master_inv n st user command s" "n < 2 ^ 64"
    and pcs: "set (peer_pcs s) \<subseteq> {Ready_Asleep, Ready_Awake, Finished (Recv_Failed PRECOMMIT_SENT)}"
    and left: "Finished (Recv_Failed PRECOMMIT_SENT) \<in> set (peer_pcs s)"
    and waiting: "p \<in> set (peer_pcs s)" "p = Ready_Asleep \<or> p = Ready_Awake"
  shows "stranded s"
proof -
  have "0 < missing_ready s"
    unfolding tally_pos_iff using left by (rule rev_bexI) simp
  then have "numberOfPositivePrecommitAcknowledgementsPending (stats s) \<noteq> 0"
    using inv pending_zero_iff(1) [of n s] by (simp add: master_inv_def)
  moreover have "\<not> shouldAbort (stats s)"
    using inv(1) pcs by (auto simp: master_inv_def decisions_inv_def list_ex_iff)
  ultimately show ?thesis
    using pcs waiting by (auto simp: stranded_def list_all_iff list_ex_iff)
qed

section \<open>A run\<close>

lemma answer_ready: "classify_response PRECOMMIT_SENT (delivered (''5.0 READY ok'' @ [LF])) = ret On_Ready"
  and answer_success:
    "classify_response COMMIT_SENT (delivered (''5.0 COMMIT_SUCCESS ok'' @ [LF])) = ret On_Commit_Success"
  by (code_simp, code_simp)

definition run_state :: "store \<Rightarrow> 64 word \<Rightarrow> 64 word \<Rightarrow> bytes \<Rightarrow> peer_pc list \<Rightarrow> bytes list list \<Rightarrow> master" where
  "run_state st a b r ps out = \<lparr>stats = \<lparr>numberOfPositivePrecommitAcknowledgementsPending = a,
      shouldAbort = False, numberOfSuccessfulCommitAcknowledgementsPending = b,
      didOneOrMorePeersFailToCommit = False, masterOperationCompletionMessage = r\<rparr>,
    peer_pcs = ps, outbox = out, master_store = st\<rparr>"

lemma at_pc_run [simp]: "at_pc (run_state st a b r ps out) t p \<longleftrightarrow> t < length ps \<and> ps ! t = p"
  by (simp add: run_state_def at_pc_def)

lemma run_to_commit:
  "reach (master_init 1 st) (peer_step u c) (run_state st 0 1 [] [Receiving COMMIT_SENT]
     [[master_message PRECOMMIT u, master_message COMMIT c]])"
proof -
  have "reach (master_init 1 st) (peer_step u c) (run_state st 1 1 [] [Starting] [[]])"
    by (rule reach_init) (simp add: master_init_def run_state_def new_statistics_def)
  from reach_step [OF this peer_step.connected [of _ 0]]
  have "reach (master_init 1 st) (peer_step u c)
      (run_state st 1 1 [] [Receiving PRECOMMIT_SENT] [[master_message PRECOMMIT u]])"
    by (simp add: run_state_def at_pc_def connect_succeeds_def send_peer_def goto_def)
  from reach_step [OF this peer_step.recv_ready [OF _ answer_ready, of _ 0]]
  have "reach (master_init 1 st) (peer_step u c)
      (run_state st 0 1 [] [Ready_Decided] [[master_message PRECOMMIT u]])"
    by (simp add: run_state_def at_pc_def on_ready_def goto_def broadcast_peers_def)
  from reach_step [OF this peer_step.ready_proceeds [of _ 0]]
  show ?thesis
    by (simp add: run_state_def at_pc_def ready_decide_def send_peer_def goto_def)
qed

lemma run_to_success:
  assumes op: "master_operation u c st = ret (r, un, st')" "\<not> contains ERROR r"
  shows "reach (master_init 1 st) (peer_step u c) (run_state st' 0 0 r [Finished Confirmed]
     [[master_message PRECOMMIT u, master_message COMMIT c, master_message SUCCESS_NOOP []]])"
proof -
  let ?o = "[[master_message PRECOMMIT u, master_message COMMIT c]]"
  from reach_step [OF run_to_commit [of st u c], OF peer_step.recv_success [where t = 0, OF _ answer_success]]
  have "reach (master_init 1 st) (peer_step u c) (run_state st 0 0 [] [Commit_Decided] ?o)"
    by (simp add: run_state_def at_pc_def on_commit_success_def goto_def broadcast_peers_def)
  from reach_step [OF this peer_step.commit_proceeds [of _ 0]]
  have operating: "reach (master_init 1 st) (peer_step u c) (run_state st 0 0 [] [Operating] ?o)"
    by (simp add: run_state_def at_pc_def commit_decide_def goto_def)
  have "operate u c 0 (run_state st 0 0 [] [Operating] ?o) = ret (run_state st' 0 0 r [Confirming] ?o)"
    using op by (simp add: operate_def run_state_def goto_def)
  then have "peer_step u c (run_state st 0 0 [] [Operating] ?o) (run_state st' 0 0 r [Confirming] ?o)"
    by (intro peer_step.operates [where t = 0]) simp_all
  with operating have confirming:
    "reach (master_init 1 st) (peer_step u c) (run_state st' 0 0 r [Confirming] ?o)"
    by (rule reach_step)
  have "peer_step u c (run_state st' 0 0 r [Confirming] ?o) (confirm 0 (run_state st' 0 0 r [Confirming] ?o))"
    by (rule peer_step.confirms) simp
  with confirming have
    "reach (master_init 1 st) (peer_step u c) (confirm 0 (run_state st' 0 0 r [Confirming] ?o))"
    by (rule reach_step)
  then show ?thesis
    using op(2) by (simp add: run_state_def confirm_def Let_def send_peer_def goto_def)
qed

lemma answer_error: "classify_response PRECOMMIT_SENT Poll_Error = ret On_Error"
  by code_simp

lemma run_to_stranded:
  "reach (master_init 2 st) (peer_step u c)
     (run_state st 1 2 [] [Ready_Asleep, Finished (Recv_Failed PRECOMMIT_SENT)]
        [[master_message PRECOMMIT u], [master_message PRECOMMIT u]])"
proof -
  have "reach (master_init 2 st) (peer_step u c) (run_state st 2 2 [] [Starting, Starting] [[], []])"
    by (rule reach_init) (simp add: master_init_def run_state_def new_statistics_def numeral_2_eq_2)
  from reach_step [OF this peer_step.connected [of _ 0]]
  have "reach (master_init 2 st) (peer_step u c)
      (run_state st 2 2 [] [Receiving PRECOMMIT_SENT, Starting] [[master_message PRECOMMIT u], []])"
    by (simp add: run_state_def at_pc_def connect_succeeds_def send_peer_def goto_def)
  from reach_step [OF this peer_step.connected [of _ 1]]
  have "reach (master_init 2 st) (peer_step u c)
      (run_state st 2 2 [] [Receiving PRECOMMIT_SENT, Receiving PRECOMMIT_SENT]
         [[master_message PRECOMMIT u], [master_message PRECOMMIT u]])"
    by (simp add: run_state_def at_pc_def connect_succeeds_def send_peer_def goto_def)
  from reach_step [OF this peer_step.recv_ready [OF _ answer_ready, of _ 0]]
  have "reach (master_init 2 st) (peer_step u c)
      (run_state st 1 2 [] [Ready_Asleep, Receiving PRECOMMIT_SENT]
         [[master_message PRECOMMIT u], [master_message PRECOMMIT u]])"
    by (simp add: run_state_def at_pc_def on_ready_def ready_test_def goto_def)
  from reach_step [OF this peer_step.recv_error [OF _ answer_error, of _ 1]]
  show ?thesis by (simp add: run_state_def at_pc_def on_error_def goto_def)
qed

section \<open>Properties\<close>

text \<open>C8: unanimity. \<open>COMMIT\<close> is sent to a peer only when every peer has answered \<open>READY\<close>, and
  then no peer is sent \<open>ABORT\<close>, in any interleaving of the threads.\<close>

theorem commit_needs_unanimity:
  assumes "n < 2 ^ 64" "reach (master_init n st) (peer_step user command) s"
    and "i < n" "master_message COMMIT command \<in> set (outbox s ! i)"
  shows "\<forall>j < n. \<not> needs_ready (peer_pcs s ! j) \<and> master_message ABORT [] \<notin> set (outbox s ! j)"
proof -
  have inv: "master_inv n st user command s" using master_reach [OF assms(2,1)] .
  then have len: "length (peer_pcs s) = n" by (simp add: master_inv_def counters_inv_def)
  have "past_ready (peer_pcs s ! i)"
    using assms(4) sent_expected [OF inv assms(3)] by (simp add: commit_sent_past)
  then have r: "missing_ready s = 0"
    using inv assms(3) len by (auto simp: master_inv_def decisions_inv_def list_ex_length)
  then have "\<not> shouldAbort (stats s)"
    using inv decisions_exclusive(1) [of s] by (auto simp: master_inv_def)
  then have "Finished Aborted \<notin> set (peer_pcs s)"
    using inv by (auto simp: master_inv_def decisions_inv_def list_all_iff)
  then show ?thesis
    using r len sent_expected [OF inv] abort_sent_aborted tally_zero_nth by (metis nth_mem)
qed

theorem commit_needs_unanimity_witness:
  "let s = run_state (example_node []) 0 1 [] [Receiving COMMIT_SENT]
     [[master_message PRECOMMIT ''ann'', master_message COMMIT ''WRITE hi'']]
   in \<not> needs_ready (peer_pcs s ! 0) \<and> master_message ABORT [] \<notin> set (outbox s ! 0)"
  using commit_needs_unanimity [OF _ run_to_commit [of "example_node []" "''ann''" "''WRITE hi''"], of 0]
  by (simp add: run_state_def Let_def)

text \<open>C25: the two \<open>unsigned long\<close> counters never wrap around: they are exactly the number of
  threads that have not received \<open>READY\<close>, and that have not received \<open>COMMIT_SUCCESS\<close>.\<close>

theorem counters_exact:
  assumes "n < 2 ^ 64" "reach (master_init n st) (peer_step user command) s"
  shows "unat (numberOfPositivePrecommitAcknowledgementsPending (stats s)) =
           length (filter needs_ready (peer_pcs s)) \<and>
         unat (numberOfSuccessfulCommitAcknowledgementsPending (stats s)) =
           length (filter needs_commit (peer_pcs s)) \<and> length (peer_pcs s) = n"
proof -
  have inv: "counters_inv n s" using master_reach [OF assms(2,1)] by (simp add: master_inv_def)
  then have "missing_ready s < 2 ^ 64" "missing_commit s < 2 ^ 64"
    using missing_bounds [OF inv] assms(1) by linarith+
  with inv show ?thesis by (simp add: counters_inv_def tally_def unat_of_nat take_bit_nat_eq_self)
qed

theorem counters_exact_witness:
  "unat (numberOfPositivePrecommitAcknowledgementsPending
     (stats (run_state (example_node []) 1 2 [] [Ready_Asleep, Finished (Recv_Failed PRECOMMIT_SENT)]
        [[master_message PRECOMMIT ''ann''], [master_message PRECOMMIT ''ann'']]))) = 1"
  using counters_exact [OF _ run_to_stranded [of "example_node []" "''ann''" "[]"]]
  by (simp add: run_state_def)

text \<open>C15: the operation is performed on the master at most once, on the state the transaction
  started with, and only when every peer has answered \<open>COMMIT_SUCCESS\<close>.\<close>

theorem master_operates_once:
  assumes "n < 2 ^ 64" "reach (master_init n st) (peer_step user command) s"
  shows "masterOperationCompletionMessage (stats s) = [] \<and> master_store s = st \<or>
    (\<forall>j < n. \<not> needs_commit (peer_pcs s ! j)) \<and>
    (\<exists>un. master_operation user command st =
            ret (masterOperationCompletionMessage (stats s), un, master_store s))"
proof -
  have inv: "master_inv n st user command s" using master_reach [OF assms(2,1)] .
  then have "masterOperationCompletionMessage (stats s) \<noteq> [] \<longrightarrow> missing_commit s = 0"
    "length (peer_pcs s) = n"
    by (simp_all add: master_inv_def decisions_inv_def counters_inv_def)
  then show ?thesis
    using inv tally_zero_nth [of needs_commit "peer_pcs s"]
    by (auto simp: master_inv_def operation_inv_def split: if_splits)
qed

theorem master_operates_once_witness:
  "let s = run_state (example_node []) 0 1 [] [Receiving COMMIT_SENT]
     [[master_message PRECOMMIT ''ann'', master_message COMMIT ''WRITE hi'']]
   in masterOperationCompletionMessage (stats s) = [] \<and> master_store s = example_node []"
  using master_operates_once [OF _ run_to_commit [of "example_node []" "''ann''" "''WRITE hi''"]]
  by (simp add: run_state_def Let_def)

text \<open>Every peer that confirmed the commit is sent the same verdict, \<open>SUCCESS_NOOP\<close> exactly
  when the operation succeeded on the master, and otherwise the master has not changed.\<close>

theorem verdicts_agree:
  assumes "n < 2 ^ 64" "reach (master_init n st) (peer_step user command) s"
  shows "\<exists>v. (\<forall>i < n. peer_pcs s ! i = Finished Confirmed \<longrightarrow>
      outbox s ! i = [master_message PRECOMMIT user, master_message COMMIT command, v] \<and>
      (v = master_message SUCCESS_NOOP [] \<and>
       (\<exists>r un. master_operation user command st = ret (r, un, master_store s) \<and> \<not> contains ERROR r) \<or>
       v = master_message UNSUCCESS_UNDO [] \<and> master_store s = st))"
proof -
  have inv: "master_inv n st user command s" using master_reach [OF assms(2,1)] .
  show ?thesis
  proof (intro exI [of _ "master_message (verdict (stats s)) []"] allI impI)
    fix i assume i: "i < n" "peer_pcs s ! i = Finished Confirmed"
    then have "Finished Confirmed \<in> set (peer_pcs s)"
      using inv nth_mem [of i "peer_pcs s"] by (auto simp: master_inv_def counters_inv_def)
    from confirmed_verdict [OF inv this] sent_expected [OF inv i(1)] i(2)
    show "outbox s ! i = [master_message PRECOMMIT user, master_message COMMIT command,
          master_message (verdict (stats s)) []] \<and>
      (master_message (verdict (stats s)) [] = master_message SUCCESS_NOOP [] \<and>
       (\<exists>r un. master_operation user command st = ret (r, un, master_store s) \<and> \<not> contains ERROR r) \<or>
       master_message (verdict (stats s)) [] = master_message UNSUCCESS_UNDO [] \<and> master_store s = st)"
      by auto
  qed
qed

text \<open>The operation of the examples: a \<open>WRITE\<close> on an empty board.\<close>

lemma example_operation:
  "master_operation ''ann'' ''WRITE hi'' (example_node []) =
     ret (createMessage 30 ''WROTE'' ''0'' True, Undo_Write 0, posted ''ann'' ''hi'' (example_node []))"
proof -
  have "master_operation ''ann'' ''WRITE hi'' (example_node []) =
      writeOperation ''ann'' ''hi'' False Undo_Nothing (example_node [])"
    using write_commit.master_operation_command [of "''ann''" "''hi''"]
    by (simp add: wire_ok_def word_def)
  moreover have "to_string 0 = ''0''" by code_simp
  ultimately show ?thesis
    by (simp add: writeOperation_done getBulletinBoardFileSize_def board_lines_def lines_text_def)
qed

lemma example_reply: "\<not> contains ERROR (createMessage 30 ''WROTE'' ''0'' True)"
  by code_simp

theorem verdicts_agree_witness:
  "let s = run_state (posted ''ann'' ''hi'' (example_node [])) 0 0 (createMessage 30 ''WROTE'' ''0'' True)
     [Finished Confirmed] [[master_message PRECOMMIT ''ann'', master_message COMMIT ''WRITE hi'',
       master_message SUCCESS_NOOP []]]
   in \<exists>v. outbox s ! 0 = [master_message PRECOMMIT ''ann'', master_message COMMIT ''WRITE hi'', v]"
  using verdicts_agree [OF _ run_to_success [OF example_operation example_reply]]
  by (auto simp: run_state_def Let_def)

text \<open>No lost wake-up and no deadlock. As long as no receive has failed with an error, a
  state in which all threads have finished can be reached from every reachable state, whatever
  the peers answer or fail to answer.\<close>

theorem master_can_finish:
  assumes "n < 2 ^ 64" "reach (master_init n st) (peer_step user command) s"
    and "returns (master_operation user command st)"
    and "\<forall>x. Finished (Recv_Failed x) \<notin> set (peer_pcs s)"
  shows "\<exists>s'. (peer_step user command)\<^sup>*\<^sup>* s s' \<and> (\<forall>p \<in> set (peer_pcs s'). \<exists>x. p = Finished x)"
  using master_finishes [OF assms(1) master_reach [OF assms(2,1)] _ assms(3)] assms(4)
  by (simp add: no_recv_failed_def all_finished_def)

theorem master_can_finish_witness:
  "\<exists>s'. (peer_step ''ann'' ''WRITE hi'')\<^sup>*\<^sup>* (run_state (example_node []) 0 1 [] [Receiving COMMIT_SENT]
       [[master_message PRECOMMIT ''ann'', master_message COMMIT ''WRITE hi'']]) s' \<and>
     (\<forall>p \<in> set (peer_pcs s'). \<exists>x. p = Finished x)"
  by (rule master_can_finish [OF _ run_to_commit]) (auto simp: run_state_def example_operation returns_def)

text \<open>C24: termination. Every step of a thread is the receipt of a message that does not matter,
  a wake-up for no reason, or strictly lowers a well-founded measure: the protocol cannot run
  for ever by itself.\<close>

theorem steps_make_progress:
  assumes "peer_step user command s s'"
  shows "s' = s \<or> (\<exists>t. s' = goto t (wake_peer (peer_pcs s ! t)) s) \<or>
         (s', s) \<in> measures [total_rank, awake_count]"
  using peer_step_progress [OF assms] by (auto simp: idle_step_def)

theorem steps_make_progress_witness:
  "let s = run_state (example_node []) 1 1 [] [Starting] [[]]; s' = connect_succeeds ''ann'' 0 s
   in s' = s \<or> (\<exists>t. s' = goto t (wake_peer (peer_pcs s ! t)) s) \<or>
      (s', s) \<in> measures [total_rank, awake_count]"
  unfolding Let_def
  by (rule steps_make_progress [where command = "''WRITE hi''"], rule peer_step.connected) simp



text \<open>Atomicity of a replicated WRITE. Whatever happened on the network, a peer that is
  delivered all the messages it was sent, and then the end of the connection, ends with the
  same board as the master: both with the new entry, or both without it.\<close>

theorem replicas_agree_on_write:
  assumes "n < 2 ^ 64" "reach (master_init n st) (peer_step u (WRITE @ SP # m)) s"
    and "i < n" "peer_pcs s ! i = Finished x" "wire_ok u WRITE m"
    and "available st" "write_lock_free st" "represents st b"
    and "available pst" "write_lock_free pst" "represents pst b"
    and "SLASH \<notin> set u" "length (line_of (int (length b)) u m) < 254"
  shows "\<exists>s' b'. sync_session_run (slave_events i s) pst = ret (True, s') \<and>
    represents (node s') b' \<and> represents (master_store s) b' \<and> (b' = b \<or> b' = b @ [(u, m)])"
proof -
  have "good_entry (u, m)" using assms(5,12) by (simp add: wire_ok_def word_def)
  then have new: "represents (posted u m st) (b @ [(u, m)])" "represents (posted u m pst) (b @ [(u, m)])"
    using assms(8,11,13) represents_posted by auto
  obtain s' where "sync_session_run (slave_events i s) pst = ret (True, s')"
    "node s' = posted u m pst \<and> master_store s = posted u m st \<or> node s' = pst \<and> master_store s = st"
    using write_commit.replica_agrees [OF master_reach [OF assms(2,1)] assms(3-5)] assms(6,7,9,10) by blast
  then show ?thesis using new assms(8,11) by metis
qed

theorem replicas_agree_on_write_witness:
  "let s = run_state (posted ''ann'' ''hi'' (example_node [])) 0 0 (createMessage 30 ''WROTE'' ''0'' True)
     [Finished Confirmed] [[master_message PRECOMMIT ''ann'', master_message COMMIT ''WRITE hi'',
       master_message SUCCESS_NOOP []]]
   in \<exists>s' b'. sync_session_run (slave_events 0 s) (example_node []) = ret (True, s') \<and>
        represents (node s') b' \<and> represents (master_store s) b' \<and> (b' = [] \<or> b' = [] @ [(''ann'', ''hi'')])"
  unfolding Let_def
  using run_to_success [OF example_operation example_reply] example_node_represents [of "[]"]
  by (intro replicas_agree_on_write [where n = 1 and st = "example_node []" and x = Confirmed])
     (simp_all add: run_state_def wire_ok_def word_def good_board_def board_lines_def line_of_def
        to_string_def nat_to_string.simps)

text \<open>Atomicity of a replicated REPLACE, under the same conditions.\<close>

theorem replicas_agree_on_replace:
  assumes "n < 2 ^ 64" "reach (master_init n st) (peer_step u (REPLACE @ SP # d @ SLASH # m)) s"
    and "i < n" "peer_pcs s ! i = Finished x" "wire_ok u REPLACE (d @ SLASH # m)"
    and "available st" "write_lock_free st" "represents st b"
    and "available pst" "write_lock_free pst" "represents pst b"
    and "is_number d" "stoi d = ret (int k)" "k < length b" "SLASH \<notin> set (snd (b ! k))"
    and "good_entry (u, m)" "SLASH \<notin> set m" "length (line_of (int k) u m) < 255"
  shows "\<exists>s' b'. sync_session_run (slave_events i s) pst = ret (True, s') \<and>
    represents (node s') b' \<and> represents (master_store s) b' \<and> (b' = b \<or> b' = b[k := (u, m)])"
proof -
  have new: "represents (replaced (b[k := (u, m)]) st) (b[k := (u, m)])"
    "represents (replaced (b[k := (u, m)]) pst) (b[k := (u, m)])"
    using assms(8,11,14,16,18) by (auto intro: represents_replaced)
  have "replace_ready b k d u m st" "replace_ready b k d u m pst"
    using assms(6-) by (simp_all add: replace_ready_def)
  then obtain s' where "sync_session_run (slave_events i s) pst = ret (True, s')"
    "node s' = replaced (b[k := (u, m)]) pst \<and> master_store s = replaced (b[k := (u, m)]) st \<or>
     node s' = pst \<and> master_store s = st"
    using replace_commit.replica_agrees [OF master_reach [OF assms(2,1)] assms(3-5)] by blast
  then show ?thesis using new assms(8,11) by metis
qed

theorem replicas_agree_on_replace_witness:
  "let s = run_state (example_node example_board) 1 2 [] [Ready_Asleep, Finished (Recv_Failed PRECOMMIT_SENT)]
     [[master_message PRECOMMIT ''ann''], [master_message PRECOMMIT ''ann'']]
   in \<exists>s' b'. sync_session_run (slave_events 1 s) (example_node example_board) = ret (True, s') \<and>
        represents (node s') b' \<and> represents (master_store s) b' \<and>
        (b' = example_board \<or> b' = example_board[1 := (''ann'', ''bye'')])"
proof -
  have num: "is_number ''1''" "stoi ''1'' = ret (int 1)"
    and line: "length (line_of (int 1) ''ann'' ''bye'') < 255"
    by (code_simp, code_simp, code_simp)
  show ?thesis
    unfolding Let_def
    using run_to_stranded [of "example_node example_board" "''ann''" "''REPLACE 1/bye''"] num line
    by (intro replicas_agree_on_replace [where n = 2 and st = "example_node example_board" and d = "''1''"
          and x = "Recv_Failed PRECOMMIT_SENT"])
       (simp_all add: run_state_def wire_ok_def word_def example_board_def [symmetric],
        simp_all add: example_board_def)
qed

text \<open>C35: the window the protocol leaves open. A slave that times out between its
  \<open>COMMIT_SUCCESS\<close> and the verdict undoes a commit that the master keeps.\<close>

theorem late_verdict_diverges:
  assumes "n < 2 ^ 64" "reach (master_init n st) (peer_step u (WRITE @ SP # m)) s"
    and "i < n" "peer_pcs s ! i = Finished Confirmed" "outbox s ! i ! 2 = master_message SUCCESS_NOOP []"
    and "wire_ok u WRITE m" "available st" "write_lock_free st" "available pst" "write_lock_free pst"
  shows "\<exists>s'. sync_session_run (map delivered (take 2 (outbox s ! i)) @ [Poll_Timeout]) pst = ret (True, s') \<and>
    node s' = pst \<and> master_store s = posted u m st"
proof -
  let ?cmd = "WRITE @ SP # m"
  have inv: "master_inv n st u ?cmd s" using master_reach [OF assms(2,1)] .
  have out: "outbox s ! i = [master_message PRECOMMIT u, master_message COMMIT ?cmd,
      master_message (verdict (stats s)) []]"
    using sent_expected [OF inv assms(3)] assms(4) by simp
  have "Finished Confirmed \<in> set (peer_pcs s)"
    using inv assms(3,4) nth_mem [of i "peer_pcs s"] by (auto simp: master_inv_def counters_inv_def)
  from confirmed_verdict [OF inv this] obtain r un where
    "writeOperation u m False Undo_Nothing st = ret (r, un, master_store s)"
    using assms(5) write_commit.master_operation_command [OF assms(6)]
    by (auto simp: out dest: sym [of "master_message UNSUCCESS_UNDO []"])
  then have "master_store s = posted u m st"
    using assms(7,8) by (simp add: writeOperation_done available_def)
  then show ?thesis
    using write_commit.session_outcome(3) [of pst u m Poll_Timeout] assms(6,9,10) by (simp add: out)
qed

theorem late_verdict_diverges_witness:
  "let s = run_state (posted ''ann'' ''hi'' (example_node [])) 0 0 (createMessage 30 ''WROTE'' ''0'' True)
     [Finished Confirmed] [[master_message PRECOMMIT ''ann'', master_message COMMIT ''WRITE hi'',
       master_message SUCCESS_NOOP []]]
   in \<exists>s'. sync_session_run (map delivered (take 2 (outbox s ! 0)) @ [Poll_Timeout]) (example_node []) =
        ret (True, s') \<and> node s' = example_node [] \<and> message_number (master_store s) = 1"
proof -
  let ?s = "run_state (posted ''ann'' ''hi'' (example_node [])) 0 0 (createMessage 30 ''WROTE'' ''0'' True)
     [Finished Confirmed] [[master_message PRECOMMIT ''ann'', master_message COMMIT ''WRITE hi'',
       master_message SUCCESS_NOOP []]]"
  have "\<exists>s'. sync_session_run (map delivered (take 2 (outbox ?s ! 0)) @ [Poll_Timeout]) (example_node []) =
      ret (True, s') \<and> node s' = example_node [] \<and>
      master_store ?s = posted ''ann'' ''hi'' (example_node [])"
    using run_to_success [OF example_operation example_reply]
    by (intro late_verdict_diverges [where n = 1 and st = "example_node []"])
       (simp_all add: run_state_def wire_ok_def word_def)
  then show ?thesis by (auto simp: Let_def)
qed

end
