(* ===== verification/Board_Server.thy ===== *)
theory Board_Server
  imports Replication
begin

text \<open>
  \<open>board-server.cpp\<close>: the session of one client of the bulletin board. One turn reads a line,
  splits it into tokens and executes the command, either on this node alone or, when there are
  peers, through a two-phase commit. The network and the scheduler choose how a two-phase
  commit goes: they are the parameter \<open>schedule\<close>, which takes the state the threads start in
  to the state they end in.
\<close>

section \<open>State of a session\<close>

record client_session =
  client_user :: bytes
  request :: bytes              \<comment> \<open>the buffer \<open>req\<close>\<close>
  residue :: char
  connection :: descriptor      \<comment> \<open>\<open>slave_socket\<close>\<close>
  cancel_enabled :: bool        \<comment> \<open>the cancellation state of the thread\<close>
  sent :: "bytes list"          \<comment> \<open>what was sent to the client, in order\<close>
  site :: store
  threadIdStatsMapping :: stats_map

datatype flow = Fall_Through | Continue | Break

type_synonym schedule = "bytes \<Rightarrow> bytes \<Rightarrow> master \<Rightarrow> master run"

definition send_client :: "bytes \<Rightarrow> client_session \<Rightarrow> client_session" where
  "send_client msg c = c\<lparr>sent := sent c @ [msg]\<rparr>"

definition respond :: "nat \<Rightarrow> bytes \<Rightarrow> bytes \<Rightarrow> client_session \<Rightarrow> client_session" where
  "respond code responseText additionalInfo c =
     send_client (sendMessageToSocket code responseText additionalInfo) c"

definition QUOTE :: char where "QUOTE = CHR 0x27"

definition bulletinBoardGreetingText :: bytes where
  "bulletinBoardGreetingText = ''Welcome to the Bulletin Board'' @ [LF] @ ''1.USER username'' @ [LF] @
     ''2.READ msg_number'' @ [LF] @ ''3.WRITE text'' @ [LF] @ ''4.REPLACE msg_num/message'' @ [LF] @
     ''5.QUIT exit_msg''"

section \<open>Commands\<close>

definition set_user :: "bytes \<Rightarrow> client_session \<Rightarrow> client_session" where
  "set_user name c =
     (if SLASH \<in> set name \<or> trim name = []
      then respond 12 ''ERROR USER'' (''The '' @ [QUOTE] @ ''username'' @ [QUOTE] @
             '' argument must be non-empty & cannot contain '' @ [QUOTE, SLASH, QUOTE]) c
      else respond 10 ''HELLO'' name (c\<lparr>client_user := name\<rparr>))"

definition read_command :: "bytes \<Rightarrow> client_session \<Rightarrow> client_session run" where
  "read_command argument c =
     (if \<not> is_number argument
      then ret (respond 22 ''ERROR READ'' ''Unable to parse given argument into a valid messageNumber'' c)
      else bind_run (stoi argument) (\<lambda>n.
           bind_run (readMessageFromFile n (site c)) (\<lambda>(msg, st).
             ret (send_client msg (c\<lparr>site := st\<rparr>)))))"

definition local_operation :: "bytes \<Rightarrow> bytes \<Rightarrow> client_session \<Rightarrow> client_session run" where
  \<comment> \<open>no peers\<close>
  "local_operation command argument c =
     bind_run (perform_operation command (client_user c) argument False Undo_Nothing (site c))
       (\<lambda>(response, _, st). ret (send_client response (c\<lparr>site := st\<rparr>)))"

definition create_threads :: "nat \<Rightarrow> bytes list \<Rightarrow> bytes \<Rightarrow> bytes \<Rightarrow> thread_info list" where
  \<comment> \<open>the array \<open>tinfo\<close>; \<open>pthread_create\<close> is taken to succeed\<close>
  "create_threads threadId peersList user req =
     map (\<lambda>peer. \<lparr>controller_thread_id = threadId, info_user = convertStringToCharArray user,
                 info_peer = convertStringToCharArray peer, info_req = req\<rparr>) peersList"

fun start_threads :: "thread_info list \<Rightarrow> peer_thread list run" where
  "start_threads [] = ret []"
| "start_threads (t # ts) =
     bind_run (thread_start t) (\<lambda>p. bind_run (start_threads ts) (\<lambda>ps. ret (p # ps)))"

definition commit_start :: "nat \<Rightarrow> nat \<Rightarrow> stats_map \<Rightarrow> store \<Rightarrow> master" where
  \<comment> \<open>the threads just created, and the entry of the map they share\<close>
  "commit_start threadId peersCount m st =
     \<lparr>stats = (case m threadId of None \<Rightarrow> new_statistics 0 | Some s \<Rightarrow> s),
      peer_pcs = replicate peersCount Starting, outbox = replicate peersCount [], master_store = st\<rparr>"

definition replicated_operation ::
    "schedule \<Rightarrow> nat \<Rightarrow> bytes list \<Rightarrow> bytes \<Rightarrow> client_session \<Rightarrow> client_session run" where
  \<comment> \<open>the branch with peers; \<open>threadId\<close> is the thread that serves the client\<close>
  "replicated_operation schedule threadId peersList command c =
     (let m = resetPeerCommunicationGlobalVars threadId (length peersList) (threadIdStatsMapping c);
          start = commit_start threadId (length peersList) m (site c)
      in bind_run (start_threads (create_threads threadId peersList (client_user c) (request c))) (\<lambda>_.
         bind_run (schedule (client_user c) (cstr (request c)) start) (\<lambda>final.
           case getMasterOperationCompletionMessage threadId (m(threadId \<mapsto> stats final)) of
             (response, m') \<Rightarrow>
               let c' = c\<lparr>site := master_store final, threadIdStatsMapping := m'\<rparr>
               in ret (if response = []
                       then respond 32 (joinTwoStringsWithDelimiter ERROR command SP)
                              ''Syncronization Failed'' c'
                       else send_client response c'))))"

definition handle_command ::
    "schedule \<Rightarrow> nat \<Rightarrow> bytes list \<Rightarrow> bytes list \<Rightarrow> client_session \<Rightarrow> (flow \<times> client_session) run" where
  \<comment> \<open>the \<open>if\<close> chain of the loop body\<close>
  "handle_command schedule threadId peersList tokens c =
     (if length tokens \<noteq> 2 then
        ret (Fall_Through, respond 0 ERROR (''A Valid command must contain 2 tokens separated by '' @
          [QUOTE, SP, QUOTE] @ ''!. To Exit, type: QUIT bye'') c)
      else if tokens ! 0 = ''QUIT'' then ret (Break, c)
      else if tokens ! 0 = ''USER'' then ret (Fall_Through, set_user (tokens ! 1) c)
      else if tokens ! 0 = READ then
        bind_run (read_command (tokens ! 1) c) (\<lambda>c'. ret (Fall_Through, c'))
      else if tokens ! 0 = WRITE \<or> tokens ! 0 = REPLACE then
        bind_run (if tokens ! 0 = REPLACE then areReplaceArgumentsValid (tokens ! 1) (site c)
                  else ret (True, []))
          (\<lambda>(valid, errorMessage).
            if \<not> valid then ret (Continue, send_client errorMessage c)
            else bind_run (if peersList = [] then local_operation (tokens ! 0) (tokens ! 1) c
                           else replicated_operation schedule threadId peersList (tokens ! 0) c)
                   (\<lambda>c'. ret (Fall_Through, c')))
      else ret (Fall_Through, respond 0 ERROR ''Invalid Command Entered!'' c))"

section \<open>The session\<close>

definition client_turn ::
    "schedule \<Rightarrow> nat \<Rightarrow> bytes list \<Rightarrow> client_session \<Rightarrow> (bool \<times> client_session) run" where
  \<comment> \<open>one evaluation of the loop condition and, when it holds, of the loop body; whether the
      loop goes on\<close>
  "client_turn schedule threadId peersList c =
     bind_run (readlineFromSocket (connection c) (request c) 255 (residue c)) (\<lambda>(n, req, r, d).
       let c1 = c\<lparr>request := req, residue := r, connection := d\<rparr> in
       if n = recv_nodata then ret (False, c1)
       else bind_run (handle_command schedule threadId peersList (tokenize req [SP])
                        (c1\<lparr>cancel_enabled := False\<rparr>)) (\<lambda>(flow, c2).
         case flow of
           Break \<Rightarrow> ret (False, c2)
         | Continue \<Rightarrow> ret (True, c2)
         | Fall_Through \<Rightarrow> ret (True, c2\<lparr>cancel_enabled := True\<rparr>)))"

partial_function (option) client_loop ::
    "schedule \<Rightarrow> nat \<Rightarrow> bytes list \<Rightarrow> client_session \<Rightarrow> client_session run" where
  "client_loop schedule threadId peersList c =
     (case client_turn schedule threadId peersList c of
        None \<Rightarrow> None
      | Some (Inl f) \<Rightarrow> Some (Inl f)
      | Some (Inr (go_on, c')) \<Rightarrow> if go_on then client_loop schedule threadId peersList c' else ret c')"

definition accepted :: "descriptor \<Rightarrow> bytes \<Rightarrow> store \<Rightarrow> stats_map \<Rightarrow> client_session" where
  \<comment> \<open>after \<open>accept\<close> and the greeting; \<open>buf\<close> is what the stack holds where \<open>req\<close> is\<close>
  "accepted conn buf st m =
     respond 0 [] bulletinBoardGreetingText
       \<lparr>client_user = ''nobody'', request = buf, residue = NUL, connection = conn,
        cancel_enabled = True, sent = [], site = st, threadIdStatsMapping = m\<rparr>"

definition handle_bulletin_board_client ::
    "schedule \<Rightarrow> nat \<Rightarrow> bytes list \<Rightarrow> descriptor \<Rightarrow> bytes \<Rightarrow> store \<Rightarrow> stats_map \<Rightarrow> client_session run" where
  \<comment> \<open>one accepted connection, up to its \<open>close\<close>\<close>
  "handle_bulletin_board_client schedule threadId peersList conn buf st m =
     bind_run (client_loop schedule threadId peersList (accepted conn buf st m)) (\<lambda>c.
       ret (respond 40 ''BYE'' ''This is Goodbye.'' c))"

section \<open>Commands and the state of the session\<close>

lemma send_client_fields [simp]:
  "client_user (send_client msg c) = client_user c" "request (send_client msg c) = request c"
  "residue (send_client msg c) = residue c" "connection (send_client msg c) = connection c"
  "cancel_enabled (send_client msg c) = cancel_enabled c" "sent (send_client msg c) = sent c @ [msg]"
  "site (send_client msg c) = site c" "threadIdStatsMapping (send_client msg c) = threadIdStatsMapping c"
  by (simp_all add: send_client_def)

lemma respond_fields [simp]:
  "client_user (respond k r i c) = client_user c" "request (respond k r i c) = request c"
  "residue (respond k r i c) = residue c" "connection (respond k r i c) = connection c"
  "cancel_enabled (respond k r i c) = cancel_enabled c"
  "sent (respond k r i c) = sent c @ [sendMessageToSocket k r i]"
  "site (respond k r i c) = site c" "threadIdStatsMapping (respond k r i c) = threadIdStatsMapping c"
  by (simp_all add: respond_def)

lemma token_of_command:
  assumes "t \<in> set (tokenize s [SP])"
  shows "t \<noteq> []" "SP \<notin> set t" "NUL \<notin> set t"
proof -
  show "t \<noteq> []" "SP \<notin> set t"
    using tokenize_loop_tokens [of t "cstr s" "[SP]"] assms by (auto simp: tokenize_def)
  have "set t \<subseteq> set (concat (tokenize s [SP]))" using assms by auto
  then show "NUL \<notin> set t"
    by (auto simp: tokenize_def concat_tokenize_loop cstr_def dest!: set_takeWhileD)
qed

text \<open>What every branch does to the session, in the form the proofs below use.\<close>

lemma replicated_operation_cases:
  assumes "replicated_operation schedule tid ps command c = ret c'"
  obtains final m where
    "m = resetPeerCommunicationGlobalVars tid (length ps) (threadIdStatsMapping c)"
    "schedule (client_user c) (cstr (request c)) (commit_start tid (length ps) m (site c)) = ret final"
    "site c' = master_store final" "client_user c' = client_user c"
    "threadIdStatsMapping c' = m(tid := None)"
    "sent c' = sent c @ [if masterOperationCompletionMessage (stats final) = []
        then sendMessageToSocket 32 (joinTwoStringsWithDelimiter ERROR command SP) ''Syncronization Failed''
        else masterOperationCompletionMessage (stats final)]"
proof -
  let ?m = "resetPeerCommunicationGlobalVars tid (length ps) (threadIdStatsMapping c)"
  from assms obtain final where f:
    "schedule (client_user c) (cstr (request c)) (commit_start tid (length ps) ?m (site c)) = ret final"
    "c' = (let c1 = c\<lparr>site := master_store final, threadIdStatsMapping := ?m(tid := None)\<rparr>
           in if masterOperationCompletionMessage (stats final) = []
              then respond 32 (joinTwoStringsWithDelimiter ERROR command SP) ''Syncronization Failed'' c1
              else send_client (masterOperationCompletionMessage (stats final)) c1)"
    by (auto simp: replicated_operation_def Let_def bind_run_ret_iff getMasterOperationCompletionMessage_def)
  show ?thesis
    by (rule that [OF refl f(1)]) (simp_all add: f(2) Let_def)
qed

lemma handle_command_user:
  assumes "handle_command schedule tid ps tokens c = ret (fl, c')"
  shows "client_user c' = client_user c \<or>
    client_user c' \<in> set tokens \<and> SLASH \<notin> set (client_user c') \<and> trim (client_user c') \<noteq> []"
  using assms
  by (auto simp: handle_command_def set_user_def read_command_def local_operation_def bind_run_ret_iff
      elim!: replicated_operation_cases split: if_splits)

lemma handle_command_replies:
  assumes "handle_command schedule tid ps tokens c = ret (fl, c')"
  shows "fl = Break \<and> c' = c \<or> fl \<noteq> Break \<and> (\<exists>msg. sent c' = sent c @ [msg])"
  using assms
  by (auto simp: handle_command_def set_user_def read_command_def local_operation_def bind_run_ret_iff
      elim!: replicated_operation_cases split: if_splits)

definition user_ok :: "bytes \<Rightarrow> bool" where
  "user_ok u \<longleftrightarrow> trim u \<noteq> [] \<and> SLASH \<notin> set u \<and> SP \<notin> set u \<and> NUL \<notin> set u"

lemma client_turn_user:
  assumes "client_turn schedule tid ps c = ret (go_on, c')" "user_ok (client_user c)"
  shows "user_ok (client_user c')"
proof -
  from assms(1) obtain n req r d where
    "readlineFromSocket (connection c) (request c) 255 (residue c) = ret (n, req, r, d)"
    and rest: "(let c1 = c\<lparr>request := req, residue := r, connection := d\<rparr> in
       if n = recv_nodata then ret (False, c1)
       else bind_run (handle_command schedule tid ps (tokenize req [SP]) (c1\<lparr>cancel_enabled := False\<rparr>))
         (\<lambda>(flow, c2). case flow of Break \<Rightarrow> ret (False, c2) | Continue \<Rightarrow> ret (True, c2)
            | Fall_Through \<Rightarrow> ret (True, c2\<lparr>cancel_enabled := True\<rparr>))) = ret (go_on, c')"
    by (auto simp: client_turn_def bind_run_ret_iff)
  show ?thesis
  proof (cases "n = recv_nodata")
    case True
    with rest assms(2) show ?thesis by (auto simp: Let_def)
  next
    case False
    let ?c1 = "c\<lparr>request := req, residue := r, connection := d, cancel_enabled := False\<rparr>"
    from False rest obtain fl c2 where
      h: "handle_command schedule tid ps (tokenize req [SP]) ?c1 = ret (fl, c2)"
      and end_of_turn: "(case fl of Break \<Rightarrow> ret (False, c2) | Continue \<Rightarrow> ret (True, c2)
            | Fall_Through \<Rightarrow> ret (True, c2\<lparr>cancel_enabled := True\<rparr>)) = ret (go_on, c')"
      by (auto simp: Let_def bind_run_ret_iff)
    from end_of_turn have "client_user c' = client_user c2" by (cases fl) auto
    then show ?thesis
      using handle_command_user [OF h] assms(2) token_of_command by (auto simp: user_ok_def)
  qed
qed

section \<open>Replicated commands\<close>

definition faithful_schedule :: "schedule \<Rightarrow> bool" where
  \<comment> \<open>the threads run by their steps until all of them have returned and are joined\<close>
  "faithful_schedule schedule \<longleftrightarrow>
     (\<forall>user command s s'. schedule user command s = ret s' \<longrightarrow>
        (peer_step user command)\<^sup>*\<^sup>* s s' \<and> all_finished s')"

lemma schedule_final:
  assumes sched: "faithful_schedule schedule" "schedule user command
      (commit_start tid n (resetPeerCommunicationGlobalVars tid n m) st) = ret final"
    and n: "n < 2 ^ 64" "m tid = None"
  shows "master_inv n st user command final" "all_finished final"
proof -
  let ?s = "commit_start tid n (resetPeerCommunicationGlobalVars tid n m) st"
  have "master_init n st ?s"
    using n(2) by (simp add: master_init_def commit_start_def resetPeerCommunicationGlobalVars_def)
  moreover have "(peer_step user command)\<^sup>*\<^sup>* ?s final" and fin: "all_finished final"
    using sched unfolding faithful_schedule_def by blast+
  ultimately have "reach (master_init n st) (peer_step user command) final"
    by (blast intro: reach_steps reach_init)
  then show "master_inv n st user command final" by (rule master_reach [OF _ n(1)])
  show "all_finished final" by (rule fin)
qed

lemma master_operation_access:
  "master_operation user command st = ret (r, un, st') \<Longrightarrow> access_control st' = access_control st"
  by (auto simp: master_operation_def Let_def bind_run_ret_iff dest!: perform_operation_ret split: if_splits)

lemma replicated_operation_outcome:
  assumes "replicated_operation schedule tid ps command c = ret c'" "faithful_schedule schedule"
    and "length ps < 2 ^ 64" "threadIdStatsMapping c tid = None"
  shows "threadIdStatsMapping c' tid = None"
    and "\<exists>msg. sent c' = sent c @ [msg] \<and>
      (site c' = site c \<and> msg = sendMessageToSocket 32 (joinTwoStringsWithDelimiter ERROR command SP)
          ''Syncronization Failed'' \<or>
       (\<exists>un. master_operation (client_user c) (cstr (request c)) (site c) = ret (msg, un, site c')))"
proof -
  from assms(1) obtain final m where f:
    "m = resetPeerCommunicationGlobalVars tid (length ps) (threadIdStatsMapping c)"
    "schedule (client_user c) (cstr (request c)) (commit_start tid (length ps) m (site c)) = ret final"
    "site c' = master_store final" "threadIdStatsMapping c' = m(tid := None)"
    "sent c' = sent c @ [if masterOperationCompletionMessage (stats final) = []
        then sendMessageToSocket 32 (joinTwoStringsWithDelimiter ERROR command SP) ''Syncronization Failed''
        else masterOperationCompletionMessage (stats final)]"
    by (rule replicated_operation_cases)
  then show "threadIdStatsMapping c' tid = None" by simp
  have "operation_inv (client_user c) (cstr (request c)) (site c) final"
    using schedule_final(1) [OF assms(2) f(2) [unfolded f(1)] assms(3,4)] by (simp add: master_inv_def)
  with f(3,5) show "\<exists>msg. sent c' = sent c @ [msg] \<and>
      (site c' = site c \<and> msg = sendMessageToSocket 32 (joinTwoStringsWithDelimiter ERROR command SP)
          ''Syncronization Failed'' \<or>
       (\<exists>un. master_operation (client_user c) (cstr (request c)) (site c) = ret (msg, un, site c')))"
    by (auto simp: operation_inv_def split: if_splits)
qed

section \<open>The lock between commands\<close>

lemma handle_command_access:
  assumes "handle_command schedule tid ps tokens c = ret (fl, c')" "faithful_schedule schedule"
    and "length ps < 2 ^ 64" "threadIdStatsMapping c tid = None"
  shows "access_control (site c') = access_control (site c)"
  using assms(1)
  by (auto simp: handle_command_def set_user_def read_command_def local_operation_def bind_run_ret_iff
      dest!: readMessageFromFile_site perform_operation_ret master_operation_access
        replicated_operation_outcome(2) [OF _ assms(2-4)] split: if_splits)

section \<open>Lines of a client\<close>

lemma readlineFromSocket_gap:
  "1 < mx \<Longrightarrow> readlineFromSocket (Sock_In (Gap # es)) buf mx r = readlineFromSocket (Sock_In es) buf mx r"
  by (simp add: readlineFromSocket_def readline_loop.simps)

lemma client_turn_line:
  assumes "plain l" "t \<noteq> []" "set t \<subseteq> {CR, LF}" "length l < 254" "length (request c) = 256"
    and "residue c = NUL" "connection c = Sock_In (gap @ map Byte (l @ t) @ es)" "gap = [] \<or> gap = [Gap]"
    and "es = [] \<or> (\<exists>es'. es = Gap # es')"
  shows "client_turn schedule tid ps c =
    bind_run (handle_command schedule tid ps (tokenize l [SP])
      (c\<lparr>request := put_line 0 (request c) l, residue := NUL, connection := Sock_In es,
         cancel_enabled := False\<rparr>)) (\<lambda>(flow, c2).
         case flow of
           Break \<Rightarrow> ret (False, c2)
         | Continue \<Rightarrow> ret (True, c2)
         | Fall_Through \<Rightarrow> ret (True, c2\<lparr>cancel_enabled := True\<rparr>))"
proof -
  have drained: "drain_terminator (Sock_In es) = (NUL, Sock_In es)"
    using assms(9) by (auto simp: drain_terminator_sock)
  have "readlineFromSocket (connection c) (request c) 255 (residue c) =
      ret (int (length l), put_line 0 (request c) l, NUL, Sock_In es)"
    using readlineFromSocket_line [of NUL l t 255 "request c" es] assms drained
    by (auto simp: residue_prefix_def readlineFromSocket_gap)
  moreover have "tokenize (put_line 0 (request c) l) [SP] = tokenize l [SP]"
    using assms(1) by (simp add: tokenize_def plain_def)
  ultimately show ?thesis by (simp add: client_turn_def recv_nodata_def)
qed

lemma client_turn_error:
  assumes "connection c = Sock_In (Sock_Error # es)" "residue c = NUL"
  shows "client_turn schedule tid ps c =
    bind_run (handle_command schedule tid ps (tokenize (request c) [SP])
      (c\<lparr>connection := Sock_In es, cancel_enabled := False\<rparr>)) (\<lambda>(flow, c2).
         case flow of
           Break \<Rightarrow> ret (False, c2)
         | Continue \<Rightarrow> ret (True, c2)
         | Fall_Through \<Rightarrow> ret (True, c2\<lparr>cancel_enabled := True\<rparr>))"
proof -
  have "readlineFromSocket (connection c) (request c) 255 (residue c) =
      ret (-1, request c, NUL, Sock_In es)"
    using assms by (simp add: readlineFromSocket_def readline_loop.simps)
  moreover have "c\<lparr>residue := NUL\<rparr> = c" using assms(2) by (cases c) simp
  ultimately show ?thesis by (simp add: client_turn_def recv_nodata_def)
qed

section \<open>Whole sessions\<close>

lemma client_turn_cases:
  assumes "client_turn schedule tid ps c = ret (go_on, c')"
  obtains n req r d where
    "readlineFromSocket (connection c) (request c) 255 (residue c) = ret (n, req, r, d)"
    "\<not> go_on" "c' = c\<lparr>request := req, residue := r, connection := d\<rparr>"
  | n req r d fl c2 where
    "handle_command schedule tid ps (tokenize req [SP])
       (c\<lparr>request := req, residue := r, connection := d, cancel_enabled := False\<rparr>) = ret (fl, c2)"
    "c' = c2 \<or> c' = c2\<lparr>cancel_enabled := True\<rparr>"
proof -
  from assms obtain n req r d where
    rd: "readlineFromSocket (connection c) (request c) 255 (residue c) = ret (n, req, r, d)"
    and rest: "(let c1 = c\<lparr>request := req, residue := r, connection := d\<rparr> in
       if n = recv_nodata then ret (False, c1)
       else bind_run (handle_command schedule tid ps (tokenize req [SP]) (c1\<lparr>cancel_enabled := False\<rparr>))
         (\<lambda>(flow, c2). case flow of Break \<Rightarrow> ret (False, c2) | Continue \<Rightarrow> ret (True, c2)
            | Fall_Through \<Rightarrow> ret (True, c2\<lparr>cancel_enabled := True\<rparr>))) = ret (go_on, c')"
    by (auto simp: client_turn_def bind_run_ret_iff)
  show ?thesis
  proof (cases "n = recv_nodata")
    case True
    with rest show ?thesis by (intro that(1) [OF rd]) (auto simp: Let_def)
  next
    case False
    with rest obtain fl c2 where
      h: "handle_command schedule tid ps (tokenize req [SP])
        (c\<lparr>request := req, residue := r, connection := d, cancel_enabled := False\<rparr>) = ret (fl, c2)"
      and e: "(case fl of Break \<Rightarrow> ret (False, c2) | Continue \<Rightarrow> ret (True, c2)
            | Fall_Through \<Rightarrow> ret (True, c2\<lparr>cancel_enabled := True\<rparr>)) = ret (go_on, c')"
      by (auto simp: Let_def bind_run_ret_iff)
    from e have "c' = c2 \<or> c' = c2\<lparr>cancel_enabled := True\<rparr>" by (cases fl) auto
    with h show ?thesis by (rule that(2))
  qed
qed

lemma client_loop_invariant:
  assumes turn: "\<And>c go_on c'. client_turn schedule tid ps c = ret (go_on, c') \<Longrightarrow> P c \<Longrightarrow> P c'"
    and "client_loop schedule tid ps c = ret c'" "P c"
  shows "P c'"
proof -
  have "sch = schedule \<and> t = tid \<and> pl = ps \<longrightarrow> P x \<longrightarrow> (\<forall>c'. y = Inr c' \<longrightarrow> P c')"
    if "client_loop sch t pl x = Some y" for sch t pl x y
    using that
    by (rule client_loop.raw_induct [rotated])
       (auto split: option.splits sum.splits if_splits dest: turn)
  with assms(2,3) show ?thesis by blast
qed

lemma handle_command_map:
  assumes "handle_command schedule tid ps tokens c = ret (fl, c')" "threadIdStatsMapping c tid = None"
  shows "threadIdStatsMapping c' tid = None"
  using assms
  by (auto simp: handle_command_def set_user_def read_command_def local_operation_def bind_run_ret_iff
      elim!: replicated_operation_cases split: if_splits)

lemma client_turn_site:
  assumes "client_turn schedule tid ps c = ret (go_on, c')" "faithful_schedule schedule"
    and "length ps < 2 ^ 64" "threadIdStatsMapping c tid = None"
  shows "threadIdStatsMapping c' tid = None" "access_control (site c') = access_control (site c)"
  using assms(1,4)
  by (auto elim!: client_turn_cases
      dest: handle_command_map handle_command_access [OF _ assms(2,3)])

lemma client_turn_sent:
  assumes "client_turn schedule tid ps c = ret (go_on, c')"
  shows "\<exists>ms. sent c' = sent c @ ms"
  using assms by (auto elim!: client_turn_cases dest!: handle_command_replies)

section \<open>Every session ends\<close>

lemma start_threads_ends: "start_threads ts \<noteq> hang"
  by (induction ts)
     (auto simp: thread_start_def parse_peer_def Let_def bind_run_hang_iff split: prod.splits iff del: not_None_eq)

text \<open>Every thread works on the user and the command the schedule is given.\<close>

lemma threads_started:
  "start_threads (create_threads threadId peersList user req) = ret ps \<Longrightarrow> length ps = length peersList \<and>
    list_all (\<lambda>p. peer_user p = cstr user \<and> peer_command p = cstr req \<and> peer_controller p = threadId) ps"
  by (induction peersList arbitrary: ps)
     (auto simp: create_threads_def thread_start_def bind_run_ret_iff)

definition ending_schedule :: "schedule \<Rightarrow> nat \<Rightarrow> bool" where
  \<comment> \<open>every two-phase commit with \<open>n\<close> peers that starts with the lock free ends\<close>
  "ending_schedule schedule n \<longleftrightarrow>
     (\<forall>user command s. master_init n (master_store s) s \<longrightarrow> write_lock_free (master_store s) \<longrightarrow>
        schedule user command s \<noteq> hang)"

lemma commit_start_init:
  "m tid = None \<Longrightarrow> master_init n st (commit_start tid n (resetPeerCommunicationGlobalVars tid n m) st)"
  by (simp add: master_init_def commit_start_def resetPeerCommunicationGlobalVars_def)

lemma commit_start_store [simp]: "master_store (commit_start tid n m st) = st"
  by (simp add: commit_start_def)

lemma replicated_operation_ends:
  assumes "ending_schedule schedule (length ps)" "threadIdStatsMapping c tid = None" "write_lock_free (site c)"
  shows "replicated_operation schedule tid ps command c \<noteq> hang"
proof -
  have "schedule (client_user c) (cstr (request c)) (commit_start tid (length ps)
      (resetPeerCommunicationGlobalVars tid (length ps) (threadIdStatsMapping c)) (site c)) \<noteq> hang"
    using assms commit_start_init [of "threadIdStatsMapping c" tid "length ps" "site c"]
    by (simp add: ending_schedule_def del: not_None_eq)
  then show ?thesis
    by (auto simp: replicated_operation_def Let_def bind_run_hang_iff start_threads_ends
        split: prod.splits iff del: not_None_eq)
qed

lemma handle_command_ends:
  assumes "ending_schedule schedule (length ps)" "threadIdStatsMapping c tid = None"
    and "write_lock_free (site c)" "\<not> reader_must_wait (access_control (site c))"
  shows "handle_command schedule tid ps tokens c \<noteq> hang"
  using replicated_operation_ends [OF assms(1-3)] assms(3,4)
  by (auto simp: handle_command_def read_command_def local_operation_def bind_run_hang_iff
      readMessageFromFile_ends perform_operation_ends areReplaceArgumentsValid_ends
      split: prod.splits iff del: not_None_eq)

lemma handle_command_connection:
  assumes "handle_command schedule tid ps tokens c = ret (fl, c')"
  shows "connection c' = connection c"
  using assms
  by (auto simp: handle_command_def set_user_def read_command_def local_operation_def bind_run_ret_iff
      replicated_operation_def Let_def getMasterOperationCompletionMessage_def split: if_splits)

text \<open>A session waits for nothing but the bytes of its connection.\<close>

definition session_free :: "nat \<Rightarrow> client_session \<Rightarrow> bool" where
  "session_free tid c \<longleftrightarrow> connection c \<noteq> Bad_Fd \<and> threadIdStatsMapping c tid = None \<and>
     write_lock_free (site c) \<and> \<not> reader_must_wait (access_control (site c))"

lemma client_turn_ends:
  assumes "ending_schedule schedule (length ps)" "session_free tid c"
  shows "client_turn schedule tid ps c \<noteq> hang"
  using assms
  by (auto simp: client_turn_def session_free_def Let_def bind_run_hang_iff readlineFromSocket_ends(1)
      handle_command_ends split: flow.splits iff del: not_None_eq)

lemma flow_goes_on:
  "(case fl of Break \<Rightarrow> ret (False, c) | Continue \<Rightarrow> ret (True, c)
      | Fall_Through \<Rightarrow> ret (True, c\<lparr>cancel_enabled := True\<rparr>)) = ret (True, c') \<Longrightarrow>
   c' = c \<or> c' = c\<lparr>cancel_enabled := True\<rparr>"
  by (cases fl) auto

lemma client_turn_consumes:
  assumes "client_turn schedule tid ps c = ret (True, c')" "connection c \<noteq> Bad_Fd"
  shows "connection c' \<noteq> Bad_Fd \<and> pending_input (connection c') < pending_input (connection c)"
proof -
  from assms(1) obtain n req r d fl c2 where
    rd: "readlineFromSocket (connection c) (request c) 255 (residue c) = ret (n, req, r, d)" "n \<noteq> recv_nodata"
    and h: "handle_command schedule tid ps (tokenize req [SP])
       (c\<lparr>request := req, residue := r, connection := d, cancel_enabled := False\<rparr>) = ret (fl, c2)"
    and c': "c' = c2 \<or> c' = c2\<lparr>cancel_enabled := True\<rparr>"
    by (auto simp: client_turn_def Let_def bind_run_ret_iff split: if_splits dest!: flow_goes_on)
  have "connection c' = d" using handle_command_connection [OF h] c' by auto
  then show ?thesis
    using readlineFromSocket_ends(2) [OF rd(1) assms(2)] rd(2) assms(2)
    by (auto simp: descriptor_kind_bad [symmetric])
qed

lemma client_loop_ends:
  assumes sched: "ending_schedule schedule (length ps)" "faithful_schedule schedule" "length ps < 2 ^ 64"
  shows "session_free tid c \<Longrightarrow> client_loop schedule tid ps c \<noteq> hang"
proof (induction "pending_input (connection c)" arbitrary: c rule: less_induct)
  case less
  have "client_loop schedule tid ps c' \<noteq> hang" if turn: "client_turn schedule tid ps c = ret (True, c')" for c'
  proof (rule less.hyps)
    show "pending_input (connection c') < pending_input (connection c)"
      using client_turn_consumes [OF turn] less.prems by (simp add: session_free_def)
    show "session_free tid c'"
      using client_turn_consumes [OF turn] client_turn_site [OF turn sched(2,3)] less.prems
      by (simp add: session_free_def write_lock_free_def)
  qed
  with client_turn_ends [OF sched(1) less.prems] show ?case
    by (subst client_loop.simps) (auto split: option.splits sum.splits iff del: not_None_eq)
qed

text \<open>A schedule that always ends: the only peer cannot be reached.\<close>

definition unreachable_schedule :: schedule where
  "unreachable_schedule u cmd s =
     (if master_init 1 (master_store s) s then ret (connect_fails 0 s) else hang)"

lemma unreachable_schedule_ends: "ending_schedule unreachable_schedule 1"
  by (simp add: ending_schedule_def unreachable_schedule_def)

lemma unreachable_schedule_faithful: "faithful_schedule unreachable_schedule"
  unfolding faithful_schedule_def
proof (intro allI impI)
  fix user command s s'
  assume "unreachable_schedule user command s = ret s'"
  then have s: "master_init 1 (master_store s) s" and s': "s' = connect_fails 0 s"
    by (auto simp: unreachable_schedule_def split: if_splits)
  have pcs: "peer_pcs s = [Starting]"
    using arg_cong [OF s [unfolded master_init_def], of peer_pcs] by simp
  then have "at_pc s 0 Starting" by (simp add: at_pc_def)
  then have "peer_step user command s s'" unfolding s' by (rule peer_step.connect_refused)
  moreover have "peer_pcs s' = [Finished Connect_Failed]"
    using pcs by (simp add: s' connect_fails_def notifyThreadsToAbort_def goto_def
        broadcast_peers_def Let_def)
  ultimately show "(peer_step user command)\<^sup>*\<^sup>* s s' \<and> all_finished s'"
    by (auto simp: all_finished_def)
qed

section \<open>Properties\<close>


text \<open>A schedule for the examples: one peer, which answers \<open>READY\<close> and \<open>COMMIT_SUCCESS\<close>.\<close>

definition example_schedule :: schedule where
  "example_schedule u cmd s =
     (if s = run_state (master_store s) 1 1 [] [Starting] [[]]
      then bind_run (master_operation u cmd (master_store s)) (\<lambda>(r, un, st').
        if contains ERROR r then hang
        else ret (run_state st' 0 0 r [Finished Confirmed] [[master_message PRECOMMIT u,
               master_message COMMIT cmd, master_message SUCCESS_NOOP []]]))
      else hang)"

lemma reach_from_init: "reach (master_init n st) step s \<Longrightarrow> \<exists>s0. master_init n st s0 \<and> step\<^sup>*\<^sup>* s0 s"
  by (induction rule: reach.induct) (auto intro: rtranclp.rtrancl_into_rtrancl)

lemma example_schedule_faithful: "faithful_schedule example_schedule"
  unfolding faithful_schedule_def
proof (intro allI impI)
  fix user command s s'
  assume "example_schedule user command s = ret s'"
  then obtain r un st' where s: "s = run_state (master_store s) 1 1 [] [Starting] [[]]"
    and op: "master_operation user command (master_store s) = ret (r, un, st')" "\<not> contains ERROR r"
    and s': "s' = run_state st' 0 0 r [Finished Confirmed] [[master_message PRECOMMIT user,
         master_message COMMIT command, master_message SUCCESS_NOOP []]]"
    by (auto simp: example_schedule_def bind_run_ret_iff split: if_splits)
  have "master_init 1 (master_store s) s"
    by (subst s) (simp add: master_init_def run_state_def new_statistics_def)
  then show "(peer_step user command)\<^sup>*\<^sup>* s s' \<and> all_finished s'"
    using reach_from_init [OF run_to_success [OF op]]
    by (auto simp: s' master_init_def all_finished_def run_state_def)
qed

lemma client_loop_turn:
  "client_turn schedule tid ps c = ret (go_on, c') \<Longrightarrow>
   client_loop schedule tid ps c = (if go_on then client_loop schedule tid ps c' else ret c')"
  by (subst client_loop.simps) simp


text \<open>C30: a session ends. Whatever the client sends, in whatever pieces, and wherever its connection
  breaks, the thread that serves it comes back to \<open>accept\<close> as soon as the input is used up,
  if the lock is free when it starts and every two-phase commit ends.\<close>

theorem client_session_ends:
  assumes "ending_schedule schedule (length ps)" "faithful_schedule schedule" "length ps < 2 ^ 64"
    and "write_lock_free st" "\<not> reader_must_wait (access_control st)" "m tid = None" "conn \<noteq> Bad_Fd"
  shows "handle_bulletin_board_client schedule tid ps conn buf st m \<noteq> hang"
proof -
  have "session_free tid (accepted conn buf st m)"
    using assms(4-7) by (simp add: session_free_def accepted_def)
  from client_loop_ends [OF assms(1-3) this] show ?thesis
    by (simp add: handle_bulletin_board_client_def bind_run_hang_iff del: not_None_eq)
qed

theorem client_session_ends_witness:
  "handle_bulletin_board_client unreachable_schedule 7 [''localhost:10000'']
     (Sock_In (map Byte (''WRITE hi'' @ [LF]) @ [Sock_Error])) (replicate 256 NUL) (example_node []) Map.empty
   \<noteq> hang"
  by (rule client_session_ends)
     (simp_all add: unreachable_schedule_ends [simplified] unreachable_schedule_faithful
        write_lock_free_def reader_must_wait_def writer_must_wait_def example_node_def initial_access_def)

text \<open>Every command but \<open>QUIT\<close> is answered with exactly one message, and \<open>QUIT\<close> with none.\<close>

theorem one_reply_per_command:
  assumes "handle_command schedule tid ps tokens c = ret (fl, c')"
  shows "fl = Break \<and> c' = c \<and> tokens ! 0 = ''QUIT'' \<or> fl \<noteq> Break \<and> (\<exists>msg. sent c' = sent c @ [msg])"
  using handle_command_replies [OF assms] assms
  by (auto simp: handle_command_def bind_run_ret_iff split: if_splits)

theorem one_reply_per_command_witness:
  "\<exists>msg. sent (respond 0 ERROR ''Invalid Command Entered!'' (accepted Bad_Fd [] (example_node []) Map.empty)) =
     sent (accepted Bad_Fd [] (example_node []) Map.empty) @ [msg]"
  using one_reply_per_command [of example_schedule 0 "[]" "[''PING'', ''x'']"
      "accepted Bad_Fd [] (example_node []) Map.empty" Fall_Through]
  by (simp add: handle_command_def)

text \<open>With peers, the client is told the truth. Either the answer is that the synchronisation
  failed, and this node has not changed, or the answer is the one of the operation, performed
  once on this node.\<close>

theorem replicated_answer_is_true:
  assumes "replicated_operation schedule tid ps command c = ret c'" "faithful_schedule schedule"
    and "length ps < 2 ^ 64" "threadIdStatsMapping c tid = None"
  shows "\<exists>msg. sent c' = sent c @ [msg] \<and>
    (site c' = site c \<and> msg = sendMessageToSocket 32 (joinTwoStringsWithDelimiter ERROR command SP)
        ''Syncronization Failed'' \<or>
     (\<exists>un. master_operation (client_user c) (cstr (request c)) (site c) = ret (msg, un, site c')))"
  by (rule replicated_operation_outcome(2) [OF assms])

definition example_client :: client_session where
  \<comment> \<open>\<open>ann\<close> has just sent \<open>WRITE hi\<close>\<close>
  "example_client = \<lparr>client_user = ''ann'', request = ''WRITE hi'' @ [NUL], residue = NUL,
     connection = Sock_In [], cancel_enabled = False, sent = [], site = example_node [],
     threadIdStatsMapping = Map.empty\<rparr>"

lemma example_replicated:
  "\<exists>c'. replicated_operation example_schedule 7 [''localhost:10000''] WRITE example_client = ret c'"
proof -
  have "returns (start_threads (create_threads 7 [''localhost:10000''] ''ann'' (''WRITE hi'' @ [NUL])))"
    unfolding returns_def by code_simp
  then obtain threads where peer:
    "start_threads (create_threads 7 [''localhost:10000''] ''ann'' (''WRITE hi'' @ [NUL])) = ret threads"
    by (auto simp: returns_iff)
  have start: "commit_start 7 1 (resetPeerCommunicationGlobalVars 7 1 Map.empty) (example_node []) =
      run_state (example_node []) 1 1 [] [Starting] [[]]"
    by (simp add: commit_start_def resetPeerCommunicationGlobalVars_def run_state_def new_statistics_def)
  have cmd: "cstr (''WRITE hi'' @ [NUL]) = ''WRITE hi''" by code_simp
  have "example_schedule ''ann'' ''WRITE hi'' (run_state (example_node []) 1 1 [] [Starting] [[]]) =
      ret (run_state (posted ''ann'' ''hi'' (example_node [])) 0 0 (createMessage 30 ''WROTE'' ''0'' True)
        [Finished Confirmed] [[master_message PRECOMMIT ''ann'', master_message COMMIT ''WRITE hi'',
          master_message SUCCESS_NOOP []]])"
    using example_operation example_reply by (simp add: example_schedule_def run_state_def)
  then show ?thesis
    using peer start cmd by (simp add: replicated_operation_def example_client_def case_prod_unfold Let_def)
qed

theorem replicated_answer_is_true_witness:
  "\<exists>c' msg. replicated_operation example_schedule 7 [''localhost:10000''] WRITE example_client = ret c' \<and>
     sent c' = [msg]"
proof -
  obtain c' where c': "replicated_operation example_schedule 7 [''localhost:10000''] WRITE example_client = ret c'"
    using example_replicated by blast
  then show ?thesis
    using replicated_answer_is_true [OF c' example_schedule_faithful] by (auto simp: example_client_def)
qed

lemma length_nat_to_string: "n < 10 ^ k \<Longrightarrow> 0 < k \<Longrightarrow> length (nat_to_string n) \<le> k"
proof (induction k arbitrary: n)
  case (Suc k)
  show ?case
  proof (cases "n < 10")
    case True
    then show ?thesis by (simp add: nat_to_string.simps [of n])
  next
    case False
    with Suc.prems have "0 < k" "n div 10 < 10 ^ k" by (cases k; auto)+
    with Suc.IH [of "n div 10"] False show ?thesis by (simp add: nat_to_string.simps [of n])
  qed
qed simp

lemma write_turn:
  assumes "writable (board_file (site c))" "write_lock_free (site c)" "word m" "length m < 240"
    and "length (request c) = 256" "residue c = NUL"
    and "connection c = Sock_In (map Byte (''WRITE '' @ m @ [CR, LF]) @ Gap # es)"
  obtains c1 where "client_turn schedule tid [] c = ret (True, c1)"
    "site c1 = posted (client_user c) m (site c)" "client_user c1 = client_user c"
    "length (request c1) = 256" "residue c1 = NUL" "connection c1 = Sock_In (Gap # es)"
    "sent c1 = sent c @ [createMessage 30 ''WROTE'' (to_string (message_number (site c))) True]"
proof -
  let ?l = "''WRITE '' @ m"
  have l: "plain ?l" "length ?l < 254" using assms(3,4) by (simp_all add: word_def)
  have tok: "tokenize ?l [SP] = [WRITE, m]"
    using tokenize_words [of "[WRITE, m]"] assms(3) by simp
  have conn: "connection c = Sock_In ([] @ map Byte (?l @ [CR, LF]) @ Gap # es)" using assms(7) by simp
  have len: "length (put_line 0 (request c) ?l) = 256" using l(2) assms(5) by (subst length_put_line) simp_all
  let ?c = "c\<lparr>request := put_line 0 (request c) ?l, residue := NUL, connection := Sock_In (Gap # es),
    cancel_enabled := False, site := posted (client_user c) m (site c)\<rparr>"
  have turn: "client_turn schedule tid [] c =
      ret (True, (send_client (createMessage 30 ''WROTE'' (to_string (message_number (site c))) True) ?c)
        \<lparr>cancel_enabled := True\<rparr>)"
    using client_turn_line [OF l(1) _ _ l(2) assms(5,6) conn, of schedule tid "[]"] tok assms(1,2)
    by (simp add: handle_command_def local_operation_def perform_operation_def writeOperation_done)
  show ?thesis
    by (rule that [OF turn]) (use len in simp_all)
qed

lemma read_turn:
  assumes "represents (site c) b" "readable (board_file (site c))" "\<not> reader_must_wait (access_control (site c))"
    and "k < length b" "int k \<le> INT_MAX" "length (request c) = 256" "residue c = NUL"
    and "connection c = Sock_In ([Gap] @ map Byte (''READ '' @ to_string (int k) @ [CR, LF]))"
  obtains c1 where "client_turn schedule tid ps c = ret (True, c1)" "site c1 = site c"
    "sent c1 = sent c @ [sendMessageToSocket 20 ''MESSAGE''
       (to_string (int k) @ [SP] @ fst (b ! k) @ [SLASH] @ snd (b ! k))]"
proof -
  let ?k = "to_string (int k)"
  let ?l = "''READ '' @ ?k"
  have num: "is_number ?k" "stoi ?k = ret (int k)"
    using assms(5) by (simp_all add: stoi_to_string INT_MIN_def)
  then have w: "word ?k" by (auto simp: word_def plain_def is_number_iff dest: isdigit_not_special)
  have "length ?k \<le> 10"
    using length_nat_to_string [of k 10] assms(5) by (simp add: to_string_nonneg INT_MAX_def)
  then have l: "plain ?l" "length ?l < 254" using w by (simp_all add: word_def)
  have tok: "tokenize ?l [SP] = [READ, ?k]"
    using tokenize_words [of "[READ, ?k]"] w by (simp add: word_def)
  have conn: "connection c = Sock_In ([Gap] @ map Byte (?l @ [CR, LF]) @ [])" using assms(8) by simp
  let ?c = "c\<lparr>request := put_line 0 (request c) ?l, residue := NUL, connection := Sock_In [],
    cancel_enabled := False, site := site c\<rparr>"
  have turn: "client_turn schedule tid ps c =
      ret (True, (send_client (sendMessageToSocket 20 ''MESSAGE''
        (to_string (int k) @ [SP] @ fst (b ! k) @ [SLASH] @ snd (b ! k))) ?c)\<lparr>cancel_enabled := True\<rparr>)"
    using client_turn_line [OF l(1) _ _ l(2) assms(6,7) conn, of schedule tid ps] tok num
      readMessageFromFile_finds [OF assms(1-4)]
    by (simp add: handle_command_def read_command_def)
  show ?thesis
    by (rule that [OF turn]) simp_all
qed



text \<open>C40: a failed \<open>read\<close> of the client's socket is taken for a line: the command of the previous
  line is executed again.\<close>

theorem read_error_repeats_command:
  assumes "connection c = Sock_In (Sock_Error # es)" "residue c = NUL"
    and "cstr (request c) = ''WRITE '' @ m" "word m" "available (site c)" "write_lock_free (site c)"
  shows "\<exists>c'. client_turn schedule tid [] c = ret (True, c') \<and> site c' = posted (client_user c) m (site c)"
proof -
  have "tokenize (''WRITE '' @ m) [SP] = [WRITE, m]"
    using tokenize_words [of "[WRITE, m]"] assms(4) by simp
  then have "tokenize (request c) [SP] = [WRITE, m]"
    using assms(3,4) by (simp add: tokenize_def word_def plain_def)
  then show ?thesis
    using client_turn_error [OF assms(1,2), of schedule tid "[]"] assms(5,6)
    by (simp add: handle_command_def local_operation_def perform_operation_def writeOperation_done available_def)
qed

theorem read_error_repeats_command_witness:
  "\<exists>c'. client_turn example_schedule 7 [] (example_client\<lparr>connection := Sock_In [Sock_Error]\<rparr>) = ret (True, c') \<and>
     site c' = posted ''ann'' ''hi'' (example_node [])"
proof -
  have "cstr (request example_client) = ''WRITE '' @ ''hi''"
    unfolding example_client_def by code_simp
  then show ?thesis
    using read_error_repeats_command [where c = "example_client\<lparr>connection := Sock_In [Sock_Error]\<rparr>"
        and m = "''hi''" and es = "[]" and schedule = example_schedule and tid = 7]
    by (simp add: example_client_def word_def)
qed

text \<open>A number that \<open>is_number\<close> accepts and \<open>int\<close> cannot hold makes \<open>stoi\<close> throw in the thread
  of the client, which nothing catches.\<close>

theorem oversized_number_is_fatal:
  assumes "is_number d" "INT_MAX < int (digits_value d)"
  shows "handle_command schedule tid ps [READ, d] c = crash Uncaught_Exception"
  using assms by (simp add: handle_command_def read_command_def stoi_number)

theorem oversized_number_is_fatal_witness:
  "handle_command example_schedule 7 [] [READ, ''99999999999''] example_client = crash Uncaught_Exception"
  by (rule oversized_number_is_fatal)
     (code_simp, simp add: digits_value_def digit_value_def INT_MAX_def)

text \<open>A REPLACE with an invalid argument is answered, changes nothing, and leaves the thread with
  its cancellation disabled, because the loop is continued before it is enabled again.\<close>

theorem invalid_replace_disables_cancellation:
  assumes "areReplaceArgumentsValid a (site c) = ret (False, msg)" "word a" "length a < 240"
    and "length (request c) = 256" "residue c = NUL"
    and "connection c = Sock_In (map Byte (''REPLACE '' @ a @ [CR, LF]))"
  shows "\<exists>c'. client_turn schedule tid ps c = ret (True, c') \<and>
    site c' = site c \<and> sent c' = sent c @ [msg] \<and> \<not> cancel_enabled c'"
proof -
  let ?l = "''REPLACE '' @ a"
  have l: "plain ?l" "length ?l < 254" using assms(2,3) by (simp_all add: word_def)
  have tok: "tokenize ?l [SP] = [REPLACE, a]"
    using tokenize_words [of "[REPLACE, a]"] assms(2) by simp
  have conn: "connection c = Sock_In ([] @ map Byte (?l @ [CR, LF]) @ [])" using assms(6) by simp
  show ?thesis
    using client_turn_line [OF l(1) _ _ l(2) assms(4,5) conn, of schedule tid ps] tok assms(1)
    by (simp add: handle_command_def)
qed

theorem invalid_replace_disables_cancellation_witness:
  "\<exists>c'. client_turn example_schedule 7 [] (example_client\<lparr>request := replicate 256 NUL,
       connection := Sock_In (map Byte (''REPLACE '' @ ''5/x'' @ [CR, LF]))\<rparr>) = ret (True, c') \<and> \<not> cancel_enabled c'"
proof -
  have bad: "areReplaceArgumentsValid ''5/x'' (example_node []) =
      ret (False, createMessage 31 UNKNOWN (to_string 5) True)"
    by code_simp
  show ?thesis
    using invalid_replace_disables_cancellation [where c = "example_client\<lparr>request := replicate 256 NUL,
        connection := Sock_In (map Byte (''REPLACE '' @ ''5/x'' @ [CR, LF]))\<rparr>" and a = "''5/x''"
        and msg = "createMessage 31 UNKNOWN (to_string 5) True"
        and schedule = example_schedule and tid = 7 and ps = "[]"] bad
    by (auto simp: example_client_def word_def)
qed

end
