(* ===== verification/Configuration.thy ===== *)
theory Configuration
  imports Board_Server
begin

text \<open>
  The configuration of a server and its life cycle: the configuration file
  (\<open>readConfigurationParametersFromFile\<close> and \<open>readKeyFromConfigurationFile\<close> of
  \<open>utilities.cpp\<close>), the command line and start-up of \<open>main.cpp\<close>, the thread pools, the
  reconfiguration on \<open>SIGHUP\<close>, the shutdown on \<open>SIGQUIT\<close>, and the debugging preference of
  \<open>logger.cpp\<close>. The results of \<open>getopt\<close> are the list of options with their arguments and
  the list of the remaining arguments.
\<close>

section \<open>The configuration file\<close>

record config =
  cfg_tmax :: int
  cfg_board_port :: int
  cfg_sync_port :: int
  cfg_bbfile :: bytes
  cfg_peers :: "bytes list"
  cfg_daemon :: bool
  cfg_debug :: bool

abbreviation EQUALS :: char where "EQUALS \<equiv> CHR ''=''"

definition apply_key :: "bytes \<Rightarrow> bytes \<Rightarrow> config \<Rightarrow> config run" where
  \<comment> \<open>the seven independent \<open>if\<close>s of the loop body; the keys exclude one another\<close>
  "apply_key key value cfg =
     (if key = ''THMAX'' then bind_run (stoi value) (\<lambda>v. ret (cfg\<lparr>cfg_tmax := v\<rparr>))
      else if key = ''BBPORT'' then bind_run (stoi value) (\<lambda>v. ret (cfg\<lparr>cfg_board_port := v\<rparr>))
      else if key = ''SYNCPORT'' then bind_run (stoi value) (\<lambda>v. ret (cfg\<lparr>cfg_sync_port := v\<rparr>))
      else if key = ''BBFILE'' then ret (cfg\<lparr>cfg_bbfile := value\<rparr>)
      else if key = ''PEERS'' then
        ret (cfg\<lparr>cfg_peers := cfg_peers cfg @ tokenize (convertStringToCharArray value) [SP]\<rparr>)
      else if key = ''DAEMON'' then ret (cfg\<lparr>cfg_daemon := is_true value\<rparr>)
      else if key = ''DEBUG'' then ret (cfg\<lparr>cfg_debug := is_true value\<rparr>)
      else ret cfg)"

definition config_line :: "bytes \<Rightarrow> config \<Rightarrow> config run" where
  \<comment> \<open>the loop body\<close>
  "config_line lineContent cfg =
     (if trim (cstr lineContent) = [] then ret cfg
      else let keyValuePair = tokenize lineContent [EQUALS] in
        bind_run (vector_at keyValuePair 0) (\<lambda>key.
        bind_run (vector_at keyValuePair 1) (\<lambda>value. apply_key key value cfg)))"

partial_function (option) config_loop :: "descriptor \<Rightarrow> bytes \<Rightarrow> config \<Rightarrow> config run" where
  "config_loop file lineContent cfg =
     (case readline file lineContent 255 of
        None \<Rightarrow> None
      | Some (Inl f) \<Rightarrow> Some (Inl f)
      | Some (Inr (n, lineContent', file')) \<Rightarrow>
          if n = recv_nodata then ret cfg
          else (case config_line lineContent' cfg of
                  None \<Rightarrow> None
                | Some (Inl f) \<Rightarrow> Some (Inl f)
                | Some (Inr cfg') \<Rightarrow> config_loop file' lineContent' cfg'))"

type_synonym files = "bytes \<Rightarrow> disk_file option"

definition open_configuration :: "files \<Rightarrow> bytes \<Rightarrow> descriptor" where
  \<comment> \<open>\<open>open(..., O_RDONLY, ...)\<close>; a file that is missing or unreadable gives -1\<close>
  "open_configuration files name = (case files name of None \<Rightarrow> Bad_Fd | Some f \<Rightarrow> open_read f)"

definition readConfigurationParametersFromFile :: "files \<Rightarrow> bytes \<Rightarrow> config \<Rightarrow> config run" where
  "readConfigurationParametersFromFile files configurationFile cfg =
     (let file = open_configuration files configurationFile in
      if file = Bad_Fd then ret cfg else config_loop file (replicate 255 NUL) cfg)"

partial_function (option) key_loop :: "bytes \<Rightarrow> descriptor \<Rightarrow> bytes \<Rightarrow> bytes \<Rightarrow> bytes run" where
  "key_loop keyToRead file lineContent result =
     (case readline file lineContent 255 of
        None \<Rightarrow> None
      | Some (Inl f) \<Rightarrow> Some (Inl f)
      | Some (Inr (n, lineContent', file')) \<Rightarrow>
          if n = recv_nodata then ret result
          else if trim (cstr lineContent') = [] then key_loop keyToRead file' lineContent' result
          else let keyValuePair = tokenize lineContent' [EQUALS] in
            (case vector_at keyValuePair 0 of
               None \<Rightarrow> None
             | Some (Inl f) \<Rightarrow> Some (Inl f)
             | Some (Inr key) \<Rightarrow>
                 if key = keyToRead then vector_at keyValuePair 1
                 else key_loop keyToRead file' lineContent' result))"

definition readKeyFromConfigurationFile :: "files \<Rightarrow> bytes \<Rightarrow> bytes \<Rightarrow> bytes \<Rightarrow> bytes run" where
  "readKeyFromConfigurationFile files keyToRead configurationFile defaultValue =
     (let file = open_configuration files configurationFile in
      if file = Bad_Fd then ret defaultValue
      else key_loop keyToRead file (replicate 255 NUL) defaultValue)"

section \<open>The debugging preference\<close>

definition setDebuggingPreference :: "bool \<Rightarrow> bool \<Rightarrow> bool" where
  \<comment> \<open>the old and the new value of \<open>debuggingModeEnabled\<close>\<close>
  "setDebuggingPreference old shouldDebug = shouldDebug"

definition getDebuggingPreference :: "bool \<Rightarrow> bool" where
  "getDebuggingPreference debuggingModeEnabled = debuggingModeEnabled"

definition debug_printf :: "bool \<Rightarrow> bytes \<Rightarrow> bytes list \<Rightarrow> bytes list" where
  \<comment> \<open>what has been printed\<close>
  "debug_printf debuggingModeEnabled text printed =
     (if debuggingModeEnabled then printed @ [text] else printed)"

definition bool_to_string :: "bool \<Rightarrow> bytes" where
  \<comment> \<open>\<open>std::to_string\<close> of a \<open>bool\<close>, promoted to \<open>int\<close>\<close>
  "bool_to_string b = to_string (if b then 1 else 0)"

section \<open>Thread pools\<close>

text \<open>
  The host decides which thread identifier the \<open>i\<close>-th \<open>pthread_create\<close> gives, if it succeeds,
  and which threads end when they are cancelled.
\<close>

fun createThreads :: "(nat \<Rightarrow> nat option) \<Rightarrow> nat \<Rightarrow> nat \<Rightarrow> nat list \<Rightarrow> int \<times> nat list" where
  \<comment> \<open>from the \<open>i\<close>-th thread on, \<open>k\<close> threads to create\<close>
  "createThreads spawn i 0 threadsCollection = (0, threadsCollection)"
| "createThreads spawn i (Suc k) threadsCollection =
     (case spawn i of
        None \<Rightarrow> (1, threadsCollection)
      | Some tt \<Rightarrow> createThreads spawn (Suc i) k (threadsCollection @ [tt]))"

definition killThreads :: "(nat \<Rightarrow> bool) \<Rightarrow> nat list \<Rightarrow> nat list run" where
  \<comment> \<open>\<open>pthread_join\<close> waits for every thread; then the vector is cleared\<close>
  "killThreads ends threadsToKill = (if list_all ends threadsToKill then ret [] else hang)"

section \<open>The server\<close>

record server =
  configurationFile :: bytes
  debuggingModeEnabled :: bool
  tmax :: int
  bulletinBoardServerPort :: int
  peersList :: "bytes list"
  syncServerPort :: int
  bulletinBoardMasterSocket :: int
  syncronizationMasterSocket :: int
  bulletinBoardServerThreads :: "nat list"
  syncServerThreads :: "nat list"
  server_store :: store

record host =
  network :: net
  spawn_thread :: "nat \<Rightarrow> nat option"
  thread_ends :: "nat \<Rightarrow> bool"

definition NUMBER_OF_SYNCRONIZATION_THREADS :: nat where "NUMBER_OF_SYNCRONIZATION_THREADS = 1"

definition initializeBoardServerGlobalVars :: "int \<Rightarrow> int \<Rightarrow> bytes list \<Rightarrow> server \<Rightarrow> server" where
  "initializeBoardServerGlobalVars port maxThreads peers s =
     s\<lparr>bulletinBoardServerPort := port, tmax := maxThreads, peersList := peers\<rparr>"

definition setSyncServerPort :: "int \<Rightarrow> server \<Rightarrow> server" where
  "setSyncServerPort portToSet s = s\<lparr>syncServerPort := portToSet\<rparr>"

definition startBulletinBoardServer :: "host \<Rightarrow> server \<Rightarrow> server" where
  "startBulletinBoardServer h s =
     s\<lparr>bulletinBoardMasterSocket := createMasterSocket (network h) (bulletinBoardServerPort s),
       bulletinBoardServerThreads :=
         snd (createThreads (spawn_thread h) 0 (nat (tmax s)) (bulletinBoardServerThreads s))\<rparr>"

definition startSyncServer :: "host \<Rightarrow> server \<Rightarrow> server" where
  "startSyncServer h s =
     s\<lparr>syncronizationMasterSocket := createMasterSocket (network h) (syncServerPort s),
       syncServerThreads :=
         snd (createThreads (spawn_thread h) 0 NUMBER_OF_SYNCRONIZATION_THREADS (syncServerThreads s))\<rparr>"

definition terminateBulletinBoardThreadsAndCloseMasterSocket :: "host \<Rightarrow> server \<Rightarrow> server run" where
  "terminateBulletinBoardThreadsAndCloseMasterSocket h s =
     bind_run (killThreads (thread_ends h) (bulletinBoardServerThreads s)) (\<lambda>ts.
       ret (s\<lparr>bulletinBoardServerThreads := ts\<rparr>))"

definition terminateSyncronizationThreadsAndCloseMasterSocket :: "host \<Rightarrow> server \<Rightarrow> server run" where
  "terminateSyncronizationThreadsAndCloseMasterSocket h s =
     bind_run (killThreads (thread_ends h) (syncServerThreads s)) (\<lambda>ts.
       ret (s\<lparr>syncServerThreads := ts\<rparr>))"

definition reconfigureBoardServerGlobalVars :: "bytes \<Rightarrow> server \<Rightarrow> server run" where
  \<comment> \<open>the values the code passes as \<open>ref_ignore\<close> are dropped\<close>
  "reconfigureBoardServerGlobalVars file s =
     bind_run (readConfigurationParametersFromFile (disk (server_store s)) file
         \<lparr>cfg_tmax = tmax s, cfg_board_port = bulletinBoardServerPort s, cfg_sync_port = 0,
          cfg_bbfile = [], cfg_peers = [], cfg_daemon = False, cfg_debug = False\<rparr>) (\<lambda>cfg.
       ret (s\<lparr>tmax := cfg_tmax cfg, bulletinBoardServerPort := cfg_board_port cfg,
              peersList := (if cfg_peers cfg \<noteq> [] then cfg_peers cfg else peersList s)\<rparr>))"

definition reconfigureSyncServerPort :: "bytes \<Rightarrow> server \<Rightarrow> server run" where
  "reconfigureSyncServerPort file s =
     bind_run (readKeyFromConfigurationFile (disk (server_store s)) CONFIGURATION_FILE_SYNCPORT_KEY file
         (to_string (syncServerPort s))) (\<lambda>value.
     bind_run (stoi value) (\<lambda>port. ret (setSyncServerPort port s)))"

definition super_sighup_handler :: "host \<Rightarrow> server \<Rightarrow> server run" where
  "super_sighup_handler h s0 =
     bind_run (terminateBulletinBoardThreadsAndCloseMasterSocket h s0) (\<lambda>s1.
     bind_run (terminateSyncronizationThreadsAndCloseMasterSocket h s1) (\<lambda>s2.
     bind_run (readKeyFromConfigurationFile (disk (server_store s2)) CONFIGURATION_FILE_DEBUG_KEY (configurationFile s2)
         (bool_to_string (getDebuggingPreference (debuggingModeEnabled s2)))) (\<lambda>debug.
     let s3 = s2\<lparr>debuggingModeEnabled := setDebuggingPreference (debuggingModeEnabled s2) (is_true debug)\<rparr> in
     bind_run (readKeyFromConfigurationFile (disk (server_store s3)) CONFIGURATION_FILE_BBFILE_KEY (configurationFile s3)
         (getBulletinBoardFile (server_store s3))) (\<lambda>bbfileNew.
     bind_run (setBulletinBoardFile bbfileNew (server_store s3)) (\<lambda>st.
     bind_run (reconfigureBoardServerGlobalVars (configurationFile s3) (s3\<lparr>server_store := st\<rparr>)) (\<lambda>s4.
     let s5 = startBulletinBoardServer h s4 in
     bind_run (reconfigureSyncServerPort (configurationFile s5) s5) (\<lambda>s6.
       ret (startSyncServer h s6))))))))"

definition super_sigquit_handler :: "host \<Rightarrow> server \<Rightarrow> server run" where
  \<comment> \<open>then every descriptor is closed and the process exits with 0\<close>
  "super_sigquit_handler h s =
     bind_run (terminateBulletinBoardThreadsAndCloseMasterSocket h s)
       (terminateSyncronizationThreadsAndCloseMasterSocket h)"

section \<open>The command line and start-up\<close>

type_synonym option_args = "(char \<times> bytes) list"

definition getConfigurationFileParameterFromTerminal :: "option_args \<Rightarrow> bytes" where
  "getConfigurationFileParameterFromTerminal opts =
     foldl (\<lambda>file (c, optarg). if c = CHR ''c'' then optarg else file) [] opts"

definition apply_option :: "config \<Rightarrow> char \<times> bytes \<Rightarrow> config" where
  "apply_option cfg opt = (case opt of (c, optarg) \<Rightarrow>
     if c = CHR ''b'' then cfg\<lparr>cfg_bbfile := optarg\<rparr>
     else if c = CHR ''T'' then cfg\<lparr>cfg_tmax := atoi optarg\<rparr>
     else if c = CHR ''p'' then cfg\<lparr>cfg_board_port := atoi optarg\<rparr>
     else if c = CHR ''s'' then cfg\<lparr>cfg_sync_port := atoi optarg\<rparr>
     else if c = CHR ''f'' then cfg\<lparr>cfg_daemon := False\<rparr>
     else if c = CHR ''d'' then cfg\<lparr>cfg_debug := True\<rparr>
     else cfg)"

definition default_config :: config where
  "default_config = \<lparr>cfg_tmax = 20, cfg_board_port = 9000, cfg_sync_port = 10000, cfg_bbfile = [],
     cfg_peers = [], cfg_daemon = True, cfg_debug = False\<rparr>"

definition main_configuration :: "files \<Rightarrow> option_args \<Rightarrow> (bytes \<times> config) run" where
  \<comment> \<open>the name of the configuration file and the parameters after the option loop\<close>
  "main_configuration files opts =
     (let given = getConfigurationFileParameterFromTerminal opts;
          file = (if given = [] then ''./bbserv.conf'' else given)
      in bind_run (readConfigurationParametersFromFile files file default_config) (\<lambda>cfg.
           ret (file, foldl apply_option cfg opts)))"

definition process_id_file :: bytes where "process_id_file = ''./bbserv.pid''"

definition writeToProcessIdFile :: "int \<Rightarrow> store \<Rightarrow> store" where
  \<comment> \<open>\<open>open(..., O_WRONLY | O_CREAT | O_TRUNC, ...)\<close>; when it fails the write fails too\<close>
  "writeToProcessIdFile processId st =
     (let buffer = snprintf 255 (to_string processId @ [LF]) in
      case disk st process_id_file of
        Some f \<Rightarrow> if writable f then st\<lparr>disk := (disk st)(process_id_file \<mapsto> f\<lparr>content := buffer\<rparr>)\<rparr> else st
      | None \<Rightarrow>
          if can_create st
          then st\<lparr>disk := (disk st)(process_id_file \<mapsto>
                   \<lparr>content = buffer, readable = True, writable = True\<rparr>)\<rparr>
          else st)"

datatype main_result = Exited int | Serving server

definition main :: "host \<Rightarrow> int \<Rightarrow> int \<Rightarrow> option_args \<Rightarrow> bytes list \<Rightarrow> server \<Rightarrow> main_result run" where
  \<comment> \<open>\<open>background_process\<close> is what \<open>fork\<close> returns in the process that is looked at, \<open>processId\<close>
      its \<open>getpid\<close>; the initial \<open>server\<close> holds the zeroed globals and the disk. The descriptors
      and the log of a daemon are not part of the state\<close>
  "main h background_process processId opts operands s0 =
     bind_run (main_configuration (disk (server_store s0)) opts) (\<lambda>(file, cfg).
       if cfg_bbfile cfg = [] then ret (Exited 1)
       else if cfg_daemon cfg \<and> background_process < 0 then ret (Exited 1)
       else if cfg_daemon cfg \<and> background_process \<noteq> 0 then ret (Exited 0)
       else
         bind_run (setBulletinBoardFile (cfg_bbfile cfg)
                     (writeToProcessIdFile processId (server_store s0))) (\<lambda>st.
         let s1 = s0\<lparr>configurationFile := file, server_store := st,
               debuggingModeEnabled := setDebuggingPreference (debuggingModeEnabled s0) (cfg_debug cfg)\<rparr>;
             s2 = initializeBoardServerGlobalVars (cfg_board_port cfg) (cfg_tmax cfg)
                    (cfg_peers cfg @ operands) s1;
             s3 = startBulletinBoardServer h s2;
             s4 = setSyncServerPort (cfg_sync_port cfg) s3
         in ret (Serving (startSyncServer h s4))))"

section \<open>Reading a configuration file\<close>

fun apply_lines :: "bytes list \<Rightarrow> config \<Rightarrow> config run" where
  "apply_lines [] cfg = ret cfg"
| "apply_lines (l # ls) cfg = bind_run (config_line l cfg) (apply_lines ls)"

fun apply_pairs :: "(bytes \<times> bytes) list \<Rightarrow> config \<Rightarrow> config run" where
  \<comment> \<open>what a list of keys and values means\<close>
  "apply_pairs [] cfg = ret cfg"
| "apply_pairs ((k, v) # kvs) cfg = bind_run (apply_key k v cfg) (apply_pairs kvs)"

lemma config_line_cstr: "cstr buf = l \<Longrightarrow> plain l \<Longrightarrow> config_line buf cfg = config_line l cfg"
  by (simp add: config_line_def tokenize_def plain_def)

lemma config_loop_lines:
  assumes "\<And>l. l \<in> set ls \<Longrightarrow> plain l \<and> length l < 255" "length buf = 255"
  shows "config_loop (File_In (lines_text ls)) buf cfg = apply_lines ls cfg"
  using assms
proof (induction ls arbitrary: buf cfg)
  case Nil
  then show ?case by (subst config_loop.simps) (simp add: readline_file_end)
next
  case (Cons l ls)
  then have l: "plain l" "length l < 255" by auto
  then have rd: "readline (File_In (l @ LF # lines_text ls)) buf 255 =
      ret (int (length l), put_line 0 buf l, File_In (lines_text ls))"
    using Cons.prems(2) readline_file [of l 255 buf "lines_text ls"] by simp
  have line: "config_line (put_line 0 buf l) cfg = config_line l cfg"
    using l by (intro config_line_cstr) (simp_all add: plain_def)
  have rest: "config_loop (File_In (lines_text ls)) (put_line 0 buf l) cfg' = apply_lines ls cfg'" for cfg'
    using Cons.prems l by (intro Cons.IH) (auto simp: length_put_line)
  show ?case
    by (subst config_loop.simps)
       (simp add: rd line rest recv_nodata_def bind_run_def split: option.splits sum.splits)
qed

lemma config_line_pair:
  assumes "k \<noteq> []" "v \<noteq> []" "plain k" "plain v" "EQUALS \<notin> set k" "EQUALS \<notin> set v"
  shows "config_line (k @ EQUALS # v) cfg = apply_key k v cfg"
proof -
  have tok: "tokenize (join EQUALS [k, v]) [EQUALS] = [k, v]"
    using assms by (intro tokenize_join_fields) (auto simp: plain_def)
  have "EQUALS \<notin> set WHITESPACE" by code_simp
  then have "trim (k @ EQUALS # v) \<noteq> []" by (auto simp: trim_empty_iff)
  moreover have "cstr (k @ EQUALS # v) = k @ EQUALS # v"
    using assms by (intro cstr_id) (auto simp: plain_def)
  ultimately show ?thesis using tok by (simp add: config_line_def vector_at_def)
qed

definition good_pair :: "bytes \<times> bytes \<Rightarrow> bool" where
  "good_pair kv \<longleftrightarrow> (case kv of (k, v) \<Rightarrow> k \<noteq> [] \<and> v \<noteq> [] \<and> plain k \<and> plain v \<and>
     EQUALS \<notin> set k \<and> EQUALS \<notin> set v \<and> length k + length v < 254)"

definition pair_line :: "bytes \<times> bytes \<Rightarrow> bytes" where
  "pair_line kv = fst kv @ EQUALS # snd kv"

lemma apply_lines_pairs:
  "list_all good_pair kvs \<Longrightarrow> apply_lines (map pair_line kvs) cfg = apply_pairs kvs cfg"
proof (induction kvs arbitrary: cfg)
  case (Cons kv kvs)
  obtain k v where kv: "kv = (k, v)" by force
  have "config_line (k @ EQUALS # v) cfg = apply_key k v cfg"
    by (rule config_line_pair) (use Cons.prems kv in \<open>simp_all add: good_pair_def\<close>)
  moreover have "apply_lines (map pair_line kvs) = apply_pairs kvs"
    using Cons by (intro ext) simp
  ultimately show ?case by (simp add: kv) (simp add: pair_line_def)
qed simp

lemma pair_line_fits: "good_pair kv \<Longrightarrow> plain (pair_line kv) \<and> length (pair_line kv) < 255"
  by (auto simp: good_pair_def pair_line_def split: prod.splits)

lemma readline_overflow:
  assumes "LF \<notin> set l" "CR \<notin> set l" "i + length l = mx" "length buf = mx"
  shows "readline_loop mx i b buf (File_In (l @ cs)) = crash Out_Of_Bounds"
  using assms
proof (induction l arbitrary: i b buf)
  case Nil
  then show ?case by (simp add: readline_loop.simps end_of_line_def)
next
  case (Cons c l)
  then show ?case by (auto simp: readline_loop.simps [of mx i b buf])
qed

section \<open>Properties\<close>

text \<open>C33: a configuration file of \<open>KEY=value\<close> lines means the sequence of its pairs: each known
  key sets its parameter, in order, and unknown keys are skipped.\<close>

theorem configuration_file_means_its_pairs:
  assumes "files name = Some f" "readable f" "content f = lines_text (map pair_line kvs)"
    and "list_all good_pair kvs"
  shows "readConfigurationParametersFromFile files name cfg = apply_pairs kvs cfg"
proof -
  have "config_loop (File_In (lines_text (map pair_line kvs))) (replicate 255 NUL) cfg =
      apply_lines (map pair_line kvs) cfg"
    using assms(4) pair_line_fits by (intro config_loop_lines) (auto simp: list_all_iff)
  then show ?thesis
    using assms apply_lines_pairs [OF assms(4)]
    by (simp add: readConfigurationParametersFromFile_def open_configuration_def open_read_def)
qed

text \<open>The example is the file \<open>bbserv.conf\<close> of the repository.\<close>

definition bbserv_conf :: "(bytes \<times> bytes) list" where
  "bbserv_conf = [(''THMAX'', ''2''), (''BBPORT'', ''9000''), (''SYNCPORT'', ''10000''),
     (''BBFILE'', ''bbfile''), (''PEERS'', ''localhost:10000''), (''DAEMON'', ''false''), (''DEBUG'', ''false'')]"

definition bbserv_config :: config where
  "bbserv_config = \<lparr>cfg_tmax = 2, cfg_board_port = 9000, cfg_sync_port = 10000, cfg_bbfile = ''bbfile'',
     cfg_peers = [''localhost:10000''], cfg_daemon = False, cfg_debug = False\<rparr>"

lemma bbserv_conf_good: "list_all good_pair bbserv_conf"
  by code_simp

lemma bbserv_conf_numbers:
  "stoi ''2'' = ret 2" "stoi ''9000'' = ret 9000" "stoi ''10000'' = ret 10000"
  by (simp_all add: stoi_number is_number_iff isdigit_def digits_value_def digit_value_def INT_MAX_def)

lemma bbserv_conf_pairs: "apply_pairs bbserv_conf default_config = ret bbserv_config"
proof -
  have "tokenize (convertStringToCharArray ''localhost:10000'') [SP] = [''localhost:10000'']"
    "\<not> is_true ''false''"
    by (code_simp, code_simp)
  then show ?thesis
    by (simp add: bbserv_conf_def apply_key_def bbserv_conf_numbers default_config_def bbserv_config_def)
qed

definition example_files :: files where
  "example_files = [''./bbserv.conf'' \<mapsto>
     \<lparr>content = lines_text (map pair_line bbserv_conf), readable = True, writable = True\<rparr>]"

theorem configuration_file_means_its_pairs_witness:
  "readConfigurationParametersFromFile example_files ''./bbserv.conf'' default_config = ret bbserv_config"
  using configuration_file_means_its_pairs [of example_files "''./bbserv.conf''" _ bbserv_conf default_config]
  by (simp add: example_files_def bbserv_conf_good bbserv_conf_pairs)

text \<open>The buffer for a line is one byte too short for the limit \<open>readline\<close> is given: a line of
  255 bytes makes it write its terminator past the end of the buffer.\<close>

theorem configuration_line_overflow:
  assumes "files name = Some f" "readable f" "content f = l @ rest" "plain l" "length l = 255"
  shows "readConfigurationParametersFromFile files name cfg = crash Out_Of_Bounds"
proof -
  have "readline (File_In (l @ rest)) (replicate 255 NUL) 255 = crash Out_Of_Bounds"
    using assms(4,5) by (simp add: readline_def readlineFromSocket_def readline_overflow plain_def)
  then show ?thesis
    using assms
    by (simp add: readConfigurationParametersFromFile_def open_configuration_def open_read_def config_loop.simps)
qed

theorem configuration_line_overflow_witness:
  "readConfigurationParametersFromFile
     [''c'' \<mapsto> \<lparr>content = replicate 255 (CHR ''x'') @ [], readable = True, writable = False\<rparr>] ''c'' default_config =
   crash Out_Of_Bounds"
  by (rule configuration_line_overflow [where l = "replicate 255 (CHR ''x'')" and rest = "[]"
        and f = "\<lparr>content = replicate 255 (CHR ''x'') @ [], readable = True, writable = False\<rparr>"])
     (simp_all add: plain_def)

text \<open>A line that is not blank and has no \<open>=\<close> makes the reader take a second element of a vector
  that has one.\<close>

theorem configuration_line_without_value:
  assumes "plain l" "EQUALS \<notin> set l" "trim l \<noteq> []"
  shows "config_line l cfg = crash Out_Of_Bounds"
proof -
  have "l \<noteq> []" using assms(3) by (auto simp: trim_empty_iff)
  then have "tokenize (join EQUALS [l]) [EQUALS] = [l]"
    using assms by (intro tokenize_join_fields) (auto simp: plain_def)
  then show ?thesis using assms by (simp add: config_line_def vector_at_def plain_def)
qed

theorem configuration_line_without_value_example:
  "config_line ''DEBUG'' default_config = crash Out_Of_Bounds"
  by (rule configuration_line_without_value) (code_simp, code_simp, code_simp)

definition option_value :: "char \<Rightarrow> 'a \<Rightarrow> (bytes \<Rightarrow> 'a) \<Rightarrow> option_args \<Rightarrow> 'a" where
  "option_value c otherwise f opts =
     (case rev (filter (\<lambda>o'. fst o' = c) opts) of [] \<Rightarrow> otherwise | (_, arg) # _ \<Rightarrow> f arg)"

lemma option_value_simps [simp]:
  "option_value c x f [] = x"
  "option_value c x f (opts @ [(c', arg)]) = (if c' = c then f arg else option_value c x f opts)"
  by (simp_all add: option_value_def)

text \<open>The last option on the command line wins over the earlier ones, and over the file.\<close>

theorem command_line_overrides:
  "foldl apply_option cfg opts =
     cfg\<lparr>cfg_bbfile := option_value (CHR ''b'') (cfg_bbfile cfg) id opts,
         cfg_tmax := option_value (CHR ''T'') (cfg_tmax cfg) atoi opts,
         cfg_board_port := option_value (CHR ''p'') (cfg_board_port cfg) atoi opts,
         cfg_sync_port := option_value (CHR ''s'') (cfg_sync_port cfg) atoi opts,
         cfg_daemon := option_value (CHR ''f'') (cfg_daemon cfg) (\<lambda>_. False) opts,
         cfg_debug := option_value (CHR ''d'') (cfg_debug cfg) (\<lambda>_. True) opts\<rparr>"
proof (induction opts rule: rev_induct)
  case Nil
  then show ?case by simp
next
  case (snoc opt opts)
  then show ?case by (cases opt) (simp add: apply_option_def)
qed

lemma main_serves:
  assumes "main_configuration (disk (server_store boot)) opts = ret (name, cfg)"
    and "cfg_bbfile cfg \<noteq> []" "cfg_daemon cfg \<longrightarrow> child = 0" "cfg_bbfile cfg \<noteq> process_id_file"
    and "disk (server_store boot) (cfg_bbfile cfg) = Some f" "readable f" "content f = lines_text ls"
    and "\<forall>l \<in> set ls. readable_line l"
  shows "\<exists>s. main h child pid opts operands boot = ret (Serving s) \<and>
    configurationFile s = name \<and> bulletinBoardFile (server_store s) = cfg_bbfile cfg \<and>
    message_number (server_store s) = int (length ls) \<and>
    disk (server_store s) = disk (writeToProcessIdFile pid (server_store boot)) \<and>
    peersList s = cfg_peers cfg @ operands \<and> tmax s = cfg_tmax cfg \<and>
    bulletinBoardServerPort s = cfg_board_port cfg \<and> syncServerPort s = cfg_sync_port cfg \<and>
    debuggingModeEnabled s = cfg_debug cfg"
proof -
  have "disk (writeToProcessIdFile pid (server_store boot)) (cfg_bbfile cfg) = Some f"
    using assms(4,5) by (simp add: writeToProcessIdFile_def Let_def split: option.split)
  then have "setBulletinBoardFile (cfg_bbfile cfg) (writeToProcessIdFile pid (server_store boot)) =
      ret ((writeToProcessIdFile pid (server_store boot))
             \<lparr>bulletinBoardFile := cfg_bbfile cfg, message_number := int (length ls)\<rparr>)"
    unfolding setBulletinBoardFile_def
    by (subst set_initial_message_number_lines [of _ f ls]) (use assms in simp_all)
  then show ?thesis
    using assms(1-3)
    by (simp add: main_def Let_def startSyncServer_def setSyncServerPort_def startBulletinBoardServer_def
        initializeBoardServerGlobalVars_def setDebuggingPreference_def)
qed

text \<open>C34: start-up. The server starts exactly when a bulletin board file is named and the process is
  not the parent of the daemon; it then serves the lines of that file as its messages, and its
  peers are those of the configuration file followed by those of the command line.\<close>

theorem main_starts:
  assumes "main_configuration (disk (server_store boot)) opts = ret (name, cfg)"
    and "cfg_bbfile cfg \<noteq> []" "cfg_daemon cfg \<longrightarrow> child = 0" "cfg_bbfile cfg \<noteq> process_id_file"
    and "disk (server_store boot) (cfg_bbfile cfg) = Some f" "readable f" "content f = lines_text ls"
    and "\<forall>l \<in> set ls. readable_line l"
  shows "\<exists>s. main h child pid opts operands boot = ret (Serving s) \<and>
    configurationFile s = name \<and> bulletinBoardFile (server_store s) = cfg_bbfile cfg \<and>
    message_number (server_store s) = int (length ls) \<and>
    disk (server_store s) = disk (writeToProcessIdFile pid (server_store boot)) \<and>
    peersList s = cfg_peers cfg @ operands \<and> tmax s = cfg_tmax cfg \<and>
    bulletinBoardServerPort s = cfg_board_port cfg \<and> syncServerPort s = cfg_sync_port cfg \<and>
    debuggingModeEnabled s = cfg_debug cfg"
  using assms by (rule main_serves)

definition example_host :: host where
  "example_host = \<lparr>network = \<lparr>resolves = \<lambda>_. True, service_port = \<lambda>_. None, new_socket = 5,
     connect_rc = \<lambda>_ _. 0, bind_rc = \<lambda>_ _. 0, listen_rc = \<lambda>_. 0\<rparr>,
     spawn_thread = \<lambda>i. Some i, thread_ends = \<lambda>_. True\<rparr>"

definition example_server :: server where
  "example_server = \<lparr>configurationFile = [], debuggingModeEnabled = False, tmax = 0,
     bulletinBoardServerPort = 0, peersList = [], syncServerPort = 0, bulletinBoardMasterSocket = 0,
     syncronizationMasterSocket = 0, bulletinBoardServerThreads = [], syncServerThreads = [],
     server_store = example_node example_board\<rparr>"

lemma example_lines:
  "disk (example_node example_board) ''board'' =
     Some \<lparr>content = lines_text (board_lines example_board), readable = True, writable = True\<rparr>"
  "\<forall>l \<in> set (board_lines example_board). readable_line l"
  "disk (example_node example_board) ''./bbserv.conf'' = None"
  using good_board_readable [OF example_board_good(1)] by (simp_all add: example_node_def)

theorem main_starts_witness:
  "\<exists>s. main example_host 0 77 [(CHR ''b'', ''board''), (CHR ''T'', ''2'')] [''localhost:10000''] example_server =
         ret (Serving s) \<and> peersList s = [''localhost:10000''] \<and> message_number (server_store s) = 2"
proof -
  let ?cfg = "foldl apply_option default_config [(CHR ''b'', ''board''), (CHR ''T'', ''2'')]"
  have "main_configuration (disk (server_store example_server)) [(CHR ''b'', ''board''), (CHR ''T'', ''2'')] =
      ret (''./bbserv.conf'', ?cfg)"
    using example_lines(3)
    by (simp add: main_configuration_def getConfigurationFileParameterFromTerminal_def example_server_def
        readConfigurationParametersFromFile_def open_configuration_def)
  moreover have "cfg_bbfile ?cfg = ''board''" "cfg_peers ?cfg = []"
    by (simp_all add: apply_option_def default_config_def)
  ultimately show ?thesis
    using main_starts [where opts = "[(CHR ''b'', ''board''), (CHR ''T'', ''2'')]" and child = 0 and pid = 77
        and boot = example_server and h = example_host and operands = "[''localhost:10000'']"
        and ls = "board_lines example_board" and cfg = ?cfg and name = "''./bbserv.conf''"] example_lines
    by (auto simp: example_server_def process_id_file_def)
qed

text \<open>Without a bulletin board file in the configuration or on the command line, nothing is
  started and the exit status is 1.\<close>

theorem main_needs_board_file:
  assumes "main_configuration (disk (server_store boot)) opts = ret (name, cfg)" "cfg_bbfile cfg = []"
  shows "main h child pid opts operands boot = ret (Exited 1)"
  using assms by (simp add: main_def)

theorem main_needs_board_file_witness: "main example_host 0 77 [] [] example_server = ret (Exited 1)"
proof (rule main_needs_board_file)
  show "main_configuration (disk (server_store example_server)) [] = ret (''./bbserv.conf'', default_config)"
    using example_lines(3)
    by (simp add: main_configuration_def getConfigurationFileParameterFromTerminal_def example_server_def
        readConfigurationParametersFromFile_def open_configuration_def)
qed (simp add: default_config_def)

lemma is_true_bool_to_string: "is_true (bool_to_string b) = b"
proof -
  have "is_true (bool_to_string True)" "\<not> is_true (bool_to_string False)" by (code_simp, code_simp)
  then show ?thesis by (cases b) simp_all
qed

text \<open>\<open>SIGHUP\<close> without a readable configuration file keeps every parameter (the debugging
  preference and the port survive their detour through strings), restarts both pools, and counts
  the messages of the board file again.\<close>

theorem sighup_keeps_configuration:
  assumes "open_configuration (disk (server_store s)) (configurationFile s) = Bad_Fd"
    and "list_all (thread_ends h) (bulletinBoardServerThreads s)" "list_all (thread_ends h) (syncServerThreads s)"
    and "disk (server_store s) (bulletinBoardFile (server_store s)) = Some f" "readable f"
    and "content f = lines_text ls" "\<forall>l \<in> set ls. readable_line l"
    and "INT_MIN \<le> syncServerPort s" "syncServerPort s \<le> INT_MAX"
  shows "\<exists>s'. super_sighup_handler h s = ret s' \<and>
    configurationFile s' = configurationFile s \<and> debuggingModeEnabled s' = debuggingModeEnabled s \<and>
    tmax s' = tmax s \<and> bulletinBoardServerPort s' = bulletinBoardServerPort s \<and>
    peersList s' = peersList s \<and> syncServerPort s' = syncServerPort s \<and>
    server_store s' = (server_store s)\<lparr>message_number := int (length ls)\<rparr> \<and>
    bulletinBoardServerThreads s' = snd (createThreads (spawn_thread h) 0 (nat (tmax s)) []) \<and>
    syncServerThreads s' = snd (createThreads (spawn_thread h) 0 1 [])"
proof -
  have board: "setBulletinBoardFile (bulletinBoardFile (server_store s)) (server_store s) =
      ret ((server_store s)\<lparr>message_number := int (length ls)\<rparr>)"
    unfolding setBulletinBoardFile_def
    by (subst set_initial_message_number_lines [of _ f ls]) (use assms in simp_all)
  show ?thesis
    using assms(1-3,8,9) board
    by (simp add: super_sighup_handler_def terminateBulletinBoardThreadsAndCloseMasterSocket_def
        terminateSyncronizationThreadsAndCloseMasterSocket_def killThreads_def readKeyFromConfigurationFile_def
        is_true_bool_to_string getDebuggingPreference_def setDebuggingPreference_def Let_def
        reconfigureBoardServerGlobalVars_def readConfigurationParametersFromFile_def
        reconfigureSyncServerPort_def stoi_to_string setSyncServerPort_def
        startBulletinBoardServer_def startSyncServer_def NUMBER_OF_SYNCRONIZATION_THREADS_def
        del: createThreads.simps)
qed

theorem sighup_keeps_configuration_witness:
  "\<exists>s'. super_sighup_handler example_host (example_server\<lparr>server_store := (example_node example_board)\<lparr>message_number := 9\<rparr>\<rparr>) = ret s' \<and>
     message_number (server_store s') = 2"
proof -
  let ?s = "example_server\<lparr>server_store := (example_node example_board)\<lparr>message_number := 9\<rparr>\<rparr>"
  have "\<exists>s'. super_sighup_handler example_host ?s = ret s' \<and>
    configurationFile s' = configurationFile ?s \<and> debuggingModeEnabled s' = debuggingModeEnabled ?s \<and>
    tmax s' = tmax ?s \<and> bulletinBoardServerPort s' = bulletinBoardServerPort ?s \<and>
    peersList s' = peersList ?s \<and> syncServerPort s' = syncServerPort ?s \<and>
    server_store s' = (server_store ?s)\<lparr>message_number := int (length (board_lines example_board))\<rparr> \<and>
    bulletinBoardServerThreads s' = snd (createThreads (spawn_thread example_host) 0 (nat (tmax ?s)) []) \<and>
    syncServerThreads s' = snd (createThreads (spawn_thread example_host) 0 1 [])"
    by (rule sighup_keeps_configuration
        [where f = "\<lparr>content = lines_text (board_lines example_board), readable = True, writable = True\<rparr>"])
       (use example_lines(2) in \<open>simp_all add: example_server_def example_host_def example_node_def
          open_configuration_def INT_MIN_def INT_MAX_def\<close>)
  then show ?thesis by auto
qed

end
