(* ===== verification/Process_Descriptors.thy ===== *)
theory Process_Descriptors
  imports Configuration
begin

text \<open>
  The descriptors of the process in \<open>main.cpp\<close>: what a daemon does to them at start-up, so
  that its standard streams are \<open>/dev/null\<close> and the log file, and what \<open>SIGQUIT\<close> does. The
  table is a list; its entry at a descriptor is the path of the open file. \<open>open\<close> and \<open>dup\<close>
  give the lowest free descriptor, as POSIX says. Also the two functions of \<open>logger.cpp\<close> and
  \<open>file-operations.cpp\<close> that no other theory needs.
\<close>

section \<open>The table\<close>

type_synonym descriptor_table = "bytes option list"

definition lowest_free :: "descriptor_table \<Rightarrow> nat" where
  "lowest_free tbl = length (takeWhile (\<lambda>e. e \<noteq> None) tbl)"

definition install :: "bytes \<Rightarrow> descriptor_table \<Rightarrow> int \<times> descriptor_table" where
  "install path tbl =
     (let i = lowest_free tbl
      in (int i, if i < length tbl then tbl[i := Some path] else tbl @ [Some path]))"

definition open_path :: "(bytes \<Rightarrow> bool) \<Rightarrow> bytes \<Rightarrow> descriptor_table \<Rightarrow> int \<times> descriptor_table" where
  \<comment> \<open>\<open>openable\<close> says which paths the host lets the process open or create\<close>
  "open_path openable path tbl = (if openable path then install path tbl else (-1, tbl))"

definition close_descriptor :: "int \<Rightarrow> descriptor_table \<Rightarrow> descriptor_table" where
  \<comment> \<open>\<open>close\<close> of a descriptor that is not open fails and changes nothing\<close>
  "close_descriptor fd tbl =
     (if 0 \<le> fd \<and> nat fd < length tbl then tbl[nat fd := None] else tbl)"

definition dup_descriptor :: "int \<Rightarrow> descriptor_table \<Rightarrow> int \<times> descriptor_table" where
  "dup_descriptor fd tbl =
     (if 0 \<le> fd \<and> nat fd < length tbl
      then (case tbl ! nat fd of None \<Rightarrow> (-1, tbl) | Some path \<Rightarrow> install path tbl)
      else (-1, tbl))"

section \<open>Start-up and shutdown\<close>

definition daemon_descriptors ::
    "(bytes \<Rightarrow> bool) \<Rightarrow> nat \<Rightarrow> descriptor_table \<Rightarrow> descriptor_table" where
  \<comment> \<open>the descriptors of the child after \<open>fork\<close>; \<open>dtablesize\<close> is \<open>getdtablesize()\<close>\<close>
  "daemon_descriptors openable dtablesize tbl =
     (let tbl1 = fold close_descriptor (rev (map int [0..<dtablesize])) tbl;
          (fd, tbl2) = open_path openable ''/dev/tty'' tbl1;
          tbl3 = close_descriptor fd tbl2;
          (_, tbl4) = open_path openable ''/dev/null'' tbl3;
          (fd', tbl5) = open_path openable ''./bbserv.log'' tbl4;
          (_, tbl6) = dup_descriptor fd' tbl5
      in tbl6)"

definition quit_descriptors :: "nat \<Rightarrow> descriptor_table \<Rightarrow> descriptor_table" where
  \<comment> \<open>the loop of \<open>super_sigquit_handler\<close> up to \<open>rlim_max\<close>\<close>
  "quit_descriptors rlim_max tbl = fold close_descriptor (map int [0..<rlim_max]) tbl"

section \<open>Small functions\<close>

definition debug_sleep :: "bool \<Rightarrow> int \<Rightarrow> int list \<Rightarrow> int list" where
  \<comment> \<open>the delays, in seconds, asked of \<open>nanosleep\<close>\<close>
  "debug_sleep enabled sleepDurationInSeconds slept =
     (if enabled then slept @ [sleepDurationInSeconds] else slept)"

definition get_initial_message_number :: "store \<Rightarrow> int" where
  "get_initial_message_number st = message_number st"

section \<open>Lemmas\<close>

lemma length_close [simp]: "length (close_descriptor fd tbl) = length tbl"
  by (simp add: close_descriptor_def)

lemma length_fold_close [simp]: "length (fold close_descriptor fds tbl) = length tbl"
  by (induction fds arbitrary: tbl) simp_all

lemma nth_fold_close:
  "i < length tbl \<Longrightarrow>
   fold close_descriptor fds tbl ! i = (if int i \<in> set fds then None else tbl ! i)"
  by (induction fds arbitrary: tbl) (auto simp: close_descriptor_def nth_list_update)

lemma fold_close_all:
  assumes "length tbl \<le> dtablesize" "set fds = int ` {0..<dtablesize}"
  shows "fold close_descriptor fds tbl = replicate (length tbl) None"
  using assms by (intro nth_equalityI) (auto simp: nth_fold_close)

lemma install_simps [simp]:
  "install path [] = (0, [Some path])"
  "install path (None # tbl) = (0, Some path # tbl)"
  "install path (Some p # tbl) = (case install path tbl of (fd, tbl') \<Rightarrow> (fd + 1, Some p # tbl'))"
  by (simp_all add: install_def lowest_free_def Let_def)

lemma install_free: "install path (replicate n None) = (0, Some path # replicate (n - 1) None)"
  by (cases n) simp_all

lemma tty_leaves_nothing:
  "(case open_path openable path (replicate n None) of (fd, tbl) \<Rightarrow> close_descriptor fd tbl) =
   replicate (if openable path then max 1 n else n) None"
  by (cases n) (auto simp: open_path_def install_free close_descriptor_def max_def)

section \<open>Properties\<close>

text \<open>Whatever was open before, a daemon runs with \<open>/dev/null\<close> as its standard input and the log
  file as its standard output and standard error, and with no other descriptor, whether or not
  it had a terminal.\<close>

theorem daemon_standard_streams:
  assumes "length tbl \<le> dtablesize" "openable ''/dev/null''" "openable ''./bbserv.log''"
  shows "\<exists>k. daemon_descriptors openable dtablesize tbl =
    [Some ''/dev/null'', Some ''./bbserv.log'', Some ''./bbserv.log''] @ replicate k None"
proof -
  obtain n where n: "(case open_path openable ''/dev/tty'' (replicate (length tbl) None) of
      (fd, tbl) \<Rightarrow> close_descriptor fd tbl) = replicate n None"
    using tty_leaves_nothing by blast
  have closed: "fold close_descriptor (rev (map int [0..<dtablesize])) tbl = replicate (length tbl) None"
    using assms(1) by (intro fold_close_all) auto
  have "daemon_descriptors openable dtablesize tbl =
      (case open_path openable ''/dev/null'' (replicate n None) of (_, tbl4) \<Rightarrow>
       case open_path openable ''./bbserv.log'' tbl4 of (fd', tbl5) \<Rightarrow> snd (dup_descriptor fd' tbl5))"
    unfolding daemon_descriptors_def closed n [symmetric] by (simp add: Let_def case_prod_unfold)
  then show ?thesis
    using assms(2,3)
    by (auto simp: open_path_def install_free dup_descriptor_def)
qed

theorem daemon_standard_streams_witness:
  "\<exists>k. daemon_descriptors (\<lambda>path. path \<noteq> ''/dev/tty'') 4 [Some ''tty'', Some ''tty'', None, Some ''x''] =
    [Some ''/dev/null'', Some ''./bbserv.log'', Some ''./bbserv.log''] @ replicate k None"
  by (rule daemon_standard_streams) simp_all

lemma quit_closes_everything:
  "length tbl \<le> rlim_max \<Longrightarrow> quit_descriptors rlim_max tbl = replicate (length tbl) None"
  unfolding quit_descriptors_def by (intro fold_close_all) auto

end
