(* ===== verification/Process_Setup.thy ===== *)
theory Process_Setup
  imports Process_Descriptors
begin

text \<open>
  What \<open>main\<close> does to its process before it serves anyone: process group, controlling terminal,
  descriptors, signal dispositions, and the mask under which files are created. Modes are
  \<open>12 word\<close>s, as in \<open>mode_t\<close>. What \<open>main\<close> does to the disk and the two servers is the function
  \<open>main\<close> of the theory \<open>Configuration\<close>.
\<close>

unbundle bit_operations_syntax

section \<open>Modes\<close>

type_synonym mode = "12 word"

abbreviation S_IRUSR :: mode where "S_IRUSR \<equiv> 256"
abbreviation S_IWUSR :: mode where "S_IWUSR \<equiv> 128"
abbreviation S_IRGRP :: mode where "S_IRGRP \<equiv> 32"
abbreviation S_IWGRP :: mode where "S_IWGRP \<equiv> 16"
abbreviation S_IROTH :: mode where "S_IROTH \<equiv> 4"
abbreviation S_IWOTH :: mode where "S_IWOTH \<equiv> 2"

definition open_mode :: mode where
  \<comment> \<open>the third argument of every \<open>open\<close> of the program\<close>
  "open_mode = S_IRGRP OR S_IROTH OR S_IRUSR OR S_IWUSR OR S_IWGRP OR S_IWOTH"

definition server_mask :: mode where
  \<comment> \<open>\<open>0137\<close>, in octal\<close>
  "server_mask = 1 * 64 + 3 * 8 + 7"

section \<open>The process\<close>

datatype posix_signal = SIGPIPE | SIGHUP | SIGINT | SIGQUIT

datatype disposition = SIG_DFL | SIG_IGN | Runs_sighup_handler | Runs_sigquit_handler

record os_process =
  own_pid :: int
  process_group :: int
  terminal :: bool                          \<comment> \<open>has a controlling terminal\<close>
  descriptors :: descriptor_table
  file_mask :: mode
  modes :: "bytes \<Rightarrow> mode option"          \<comment> \<open>the modes of the files there are\<close>
  handling :: "posix_signal \<Rightarrow> disposition"

definition create_file :: "bytes \<Rightarrow> os_process \<Rightarrow> os_process" where
  \<comment> \<open>\<open>O_CREAT\<close>: a file that exists keeps its mode\<close>
  "create_file path p = (case modes p path of
     None \<Rightarrow> p\<lparr>modes := (modes p)(path \<mapsto> open_mode AND NOT (file_mask p))\<rparr>
   | Some _ \<Rightarrow> p)"

definition become_daemon :: "(bytes \<Rightarrow> bool) \<Rightarrow> nat \<Rightarrow> os_process \<Rightarrow> os_process" where
  \<comment> \<open>the child of \<open>fork\<close>; \<open>TIOCNOTTY\<close> gives up the terminal that \<open>/dev/tty\<close> stands for\<close>
  "become_daemon openable dtablesize p =
     (let p1 = p\<lparr>process_group := own_pid p,
                 descriptors := daemon_descriptors openable dtablesize (descriptors p),
                 terminal := terminal p \<and> \<not> openable ''/dev/tty''\<rparr>
      in if openable ''./bbserv.log'' then create_file ''./bbserv.log'' p1 else p1)"

definition on_signal :: "posix_signal \<Rightarrow> disposition \<Rightarrow> os_process \<Rightarrow> os_process" where
  "on_signal s d p = p\<lparr>handling := (handling p)(s := d)\<rparr>"

definition set_umask :: "mode \<Rightarrow> os_process \<Rightarrow> os_process" where
  "set_umask m p = p\<lparr>file_mask := m AND 511\<rparr>"

definition main_process :: "(bytes \<Rightarrow> bool) \<Rightarrow> nat \<Rightarrow> bool \<Rightarrow> bytes \<Rightarrow> os_process \<Rightarrow> os_process" where
  \<comment> \<open>from the \<open>fork\<close> of a daemon to the loop of \<open>sleep\<close>; the board file is created when its
      messages are first counted\<close>
  "main_process openable dtablesize isDaemon bbfile p =
     (let p1 = if isDaemon then become_daemon openable dtablesize p else p;
          p2 = set_umask server_mask (on_signal SIGPIPE SIG_IGN p1);
          p3 = if openable process_id_file then create_file process_id_file p2 else p2;
          p4 = if openable bbfile then create_file bbfile p3 else p3
      in on_signal SIGQUIT Runs_sigquit_handler (on_signal SIGHUP Runs_sighup_handler p4))"

section \<open>Lemmas\<close>

lemma create_file_fields [simp]:
  "own_pid (create_file path p) = own_pid p" "process_group (create_file path p) = process_group p"
  "terminal (create_file path p) = terminal p" "descriptors (create_file path p) = descriptors p"
  "file_mask (create_file path p) = file_mask p" "handling (create_file path p) = handling p"
  by (simp_all add: create_file_def split: option.splits)

lemma create_file_modes [simp]:
  "modes (create_file path p) path' =
     (if path' = path \<and> modes p path = None then Some (open_mode AND NOT (file_mask p)) else modes p path')"
  by (auto simp: create_file_def split: option.splits)

lemma become_daemon_fields [simp]:
  "own_pid (become_daemon openable k p) = own_pid p"
  "process_group (become_daemon openable k p) = own_pid p"
  "terminal (become_daemon openable k p) \<longleftrightarrow> terminal p \<and> \<not> openable ''/dev/tty''"
  "descriptors (become_daemon openable k p) = daemon_descriptors openable k (descriptors p)"
  "handling (become_daemon openable k p) = handling p" "file_mask (become_daemon openable k p) = file_mask p"
  by (simp_all add: become_daemon_def Let_def)

lemma set_up_fields [simp]:
  "own_pid (on_signal s d p) = own_pid p" "process_group (on_signal s d p) = process_group p"
  "terminal (on_signal s d p) = terminal p" "descriptors (on_signal s d p) = descriptors p"
  "modes (on_signal s d p) = modes p" "file_mask (on_signal s d p) = file_mask p"
  "handling (on_signal s d p) = (handling p)(s := d)"
  "own_pid (set_umask m p) = own_pid p" "process_group (set_umask m p) = process_group p"
  "terminal (set_umask m p) = terminal p" "descriptors (set_umask m p) = descriptors p"
  "modes (set_umask m p) = modes p" "handling (set_umask m p) = handling p"
  by (simp_all add: on_signal_def set_umask_def)

lemma masked_mode: "open_mode AND NOT (file_mask (set_umask server_mask p)) = S_IRUSR OR S_IWUSR OR S_IRGRP"
  by (simp add: set_umask_def open_mode_def server_mask_def)

section \<open>Properties\<close>

text \<open>A server that runs as a daemon leads its own process group, has given up the terminal, writes
  its output to the log, is not killed by a client that closes its connection, and creates the file
  of its process id and the board file readable by owner and group only, writable by the owner. The
  log is created before the mask is set, so its mode depends on who starts the server.\<close>

theorem daemon_is_detached:
  assumes "length (descriptors p) \<le> dtablesize" "\<And>path. openable path"
    and "modes p process_id_file = None" "modes p bbfile = None" "modes p ''./bbserv.log'' = None"
    and "bbfile \<noteq> ''./bbserv.log''"
    and q: "q = main_process openable dtablesize True bbfile p"
  shows "process_group q = own_pid p" "\<not> terminal q"
    and "\<exists>k. descriptors q = [Some ''/dev/null'', Some ''./bbserv.log'', Some ''./bbserv.log''] @ replicate k None"
    and "handling q SIGPIPE = SIG_IGN" "handling q SIGHUP = Runs_sighup_handler"
    and "handling q SIGQUIT = Runs_sigquit_handler"
    and "modes q process_id_file = Some (S_IRUSR OR S_IWUSR OR S_IRGRP)"
    and "modes q bbfile = Some (S_IRUSR OR S_IWUSR OR S_IRGRP)"
    and "modes q ''./bbserv.log'' = Some (open_mode AND NOT (file_mask p))"
proof -
  have made: "modes (become_daemon openable dtablesize p) =
      (modes p)(''./bbserv.log'' \<mapsto> open_mode AND NOT (file_mask p))"
    using assms(2,5) by (auto simp: become_daemon_def Let_def fun_eq_iff)
  have pid: "process_id_file \<noteq> ''./bbserv.log''" by (simp add: process_id_file_def)
  show "process_group q = own_pid p" "\<not> terminal q"
    using assms(2) by (simp_all add: q main_process_def Let_def)
  show "\<exists>k. descriptors q = [Some ''/dev/null'', Some ''./bbserv.log'', Some ''./bbserv.log''] @ replicate k None"
    using daemon_standard_streams [OF assms(1), of openable] assms(2) by (simp add: q main_process_def Let_def)
  show "handling q SIGPIPE = SIG_IGN" "handling q SIGHUP = Runs_sighup_handler"
    "handling q SIGQUIT = Runs_sigquit_handler"
    by (simp_all add: q main_process_def Let_def)
  show "modes q process_id_file = Some (S_IRUSR OR S_IWUSR OR S_IRGRP)"
    "modes q bbfile = Some (S_IRUSR OR S_IWUSR OR S_IRGRP)"
    "modes q ''./bbserv.log'' = Some (open_mode AND NOT (file_mask p))"
    using assms(2-6) pid by (simp_all add: q main_process_def Let_def made masked_mode)
qed

end
