(* ===== verification/Server_Threads.thy ===== *)
theory Server_Threads
  imports Board_Server
begin

text \<open>
  The threads of the two pools: the outer loops of \<open>handle_bulletin_board_client\<close> and
  \<open>handle_sync_server_client\<close>, which accept one connection after the other, and what
  \<open>pthread_cancel\<close> does to them. Cancellation is deferred: it acts while the thread waits
  (in \<open>accept\<close>, in a read of its connection, in the calls after the loop), and only while the
  thread has its cancellation enabled; then the \<open>cleanup_handler\<close> that was pushed after
  \<open>accept\<close> closes the connection. Descriptors are kept as the lists of those the thread got
  from \<open>accept\<close> and of those it closed.
\<close>

section \<open>A session as a service\<close>

record 'c service =
  begins :: "store \<Rightarrow> 'c \<Rightarrow> bool"        \<comment> \<open>the state after \<open>accept\<close>, on a node\<close>
  serves :: "'c \<Rightarrow> bool \<times> 'c \<Rightarrow> bool"     \<comment> \<open>one turn of the loop, and whether it goes on\<close>
  finishes :: "'c \<Rightarrow> 'c run"               \<comment> \<open>what follows the loop, up to \<open>shutdown\<close>\<close>
  cancellable :: "'c \<Rightarrow> bool"
  node_of :: "'c \<Rightarrow> store"

definition board_service :: "schedule \<Rightarrow> nat \<Rightarrow> bytes list \<Rightarrow> client_session service" where
  "board_service schedule tid ps =
     \<lparr>begins = (\<lambda>st c. \<exists>conn buf m. conn \<noteq> Bad_Fd \<and> m tid = None \<and> c = accepted conn buf st m),
      serves = (\<lambda>c r. client_turn schedule tid ps c = ret r),
      finishes = (\<lambda>c. ret (respond 40 ''BYE'' ''This is Goodbye.'' c)),
      cancellable = cancel_enabled, node_of = site\<rparr>"

record sync_thread =
  protocol :: sync_session
  last_n :: int                 \<comment> \<open>the value \<open>n\<close> the loop ended with\<close>
  sync_cancel_enabled :: bool

definition sync_turn :: "poll_outcome \<Rightarrow> sync_thread \<Rightarrow> (bool \<times> sync_thread) run" where
  \<comment> \<open>one evaluation of the loop condition and, when it holds, of the loop body; cancellation is
      disabled by the first statement of the body and enabled by the last\<close>
  "sync_turn e c =
     (case recv_nonblock e 255 of (n, req) \<Rightarrow>
        if n = recv_nodata then ret (False, c\<lparr>last_n := n\<rparr>)
        else if n = 0 \<or> n < 0 then ret (False, c\<lparr>last_n := n, sync_cancel_enabled := False\<rparr>)
        else bind_run (sync_request req) (\<lambda>request.
             bind_run (handle_sync_command (tokenize request [SP]) (protocol c)) (\<lambda>(stop, s').
               ret (\<not> stop, \<lparr>protocol = s', last_n = n, sync_cancel_enabled = \<not> stop\<rparr>))))"

definition sync_accepted :: "store \<Rightarrow> sync_thread" where
  "sync_accepted st = \<lparr>protocol = new_session st, last_n = 0, sync_cancel_enabled = True\<rparr>"

definition sync_service :: "sync_thread service" where
  "sync_service =
     \<lparr>begins = (\<lambda>st c. c = sync_accepted st),
      serves = (\<lambda>c r. \<exists>e. sync_turn e c = ret r),
      finishes = (\<lambda>c. bind_run (end_of_session (last_n c) (protocol c)) (\<lambda>s. ret (c\<lparr>protocol := s\<rparr>))),
      cancellable = sync_cancel_enabled, node_of = (\<lambda>c. node (protocol c))\<rparr>"

text \<open>The turns of a slave are the receive loop of \<open>Sync_Server\<close>.\<close>

lemma sync_loop_turn:
  "sync_loop (e # es) (protocol c) =
     bind_run (sync_turn e c) (\<lambda>(go_on, c').
       if go_on then sync_loop es (protocol c') else ret (Some (last_n c'), protocol c'))"
  by (auto simp: sync_turn_def bind_run_assoc split: prod.split
      intro!: arg_cong [where f = "bind_run _"] ext)

section \<open>The outer loop\<close>

datatype 'c stage =
    Accepting
  | Serving int 'c     \<comment> \<open>the condition of the inner loop, with the connection\<close>
  | Leaving int 'c     \<comment> \<open>after the inner loop\<close>
  | Closing int 'c     \<comment> \<open>before \<open>shutdown\<close> and \<open>close\<close>\<close>
  | Ended              \<comment> \<open>the thread has returned or was cancelled\<close>

record 'c pool_thread =
  stage :: "'c stage"
  cancel_pending :: bool
  opened :: "int list"
  closed :: "int list"
  home :: store        \<comment> \<open>the node between two connections, and after the end\<close>

definition cleanup_handler :: "int \<Rightarrow> 'c pool_thread \<Rightarrow> 'c pool_thread" where
  "cleanup_handler socketToClose t = t\<lparr>closed := closed t @ [socketToClose]\<rparr>"

fun can_cancel :: "'c service \<Rightarrow> 'c stage \<Rightarrow> bool" where
  "can_cancel sv Accepting = True"
| "can_cancel sv (Serving fd c) = cancellable sv c"
| "can_cancel sv (Leaving fd c) = cancellable sv c"
| "can_cancel sv (Closing fd c) = cancellable sv c"
| "can_cancel sv Ended = False"

definition leave_node :: "'c service \<Rightarrow> 'c \<Rightarrow> 'c pool_thread \<Rightarrow> 'c pool_thread" where
  "leave_node sv c t = t\<lparr>home := node_of sv c\<rparr>"

fun cancelled :: "'c service \<Rightarrow> 'c stage \<Rightarrow> 'c pool_thread \<Rightarrow> 'c pool_thread" where
  \<comment> \<open>the thread stops where it is, its pushed handlers run\<close>
  "cancelled sv (Serving fd c) t = (cleanup_handler fd (leave_node sv c t))\<lparr>stage := Ended\<rparr>"
| "cancelled sv (Leaving fd c) t = (cleanup_handler fd (leave_node sv c t))\<lparr>stage := Ended\<rparr>"
| "cancelled sv (Closing fd c) t = (cleanup_handler fd (leave_node sv c t))\<lparr>stage := Ended\<rparr>"
| "cancelled sv p t = t\<lparr>stage := Ended\<rparr>"

inductive pool_step :: "'c service \<Rightarrow> 'c pool_thread \<Rightarrow> 'c pool_thread \<Rightarrow> bool"
  for sv :: "'c service" where
  accept_fails: "stage t = Accepting \<Longrightarrow> pool_step sv t (t\<lparr>stage := Ended\<rparr>)"
| accepts: "stage t = Accepting \<Longrightarrow> 0 \<le> slave_socket \<Longrightarrow> begins sv (home t) c \<Longrightarrow>
    pool_step sv t (t\<lparr>stage := Serving slave_socket c, opened := opened t @ [slave_socket]\<rparr>)"
| turn: "stage t = Serving fd c \<Longrightarrow> serves sv c (go_on, c') \<Longrightarrow>
    pool_step sv t (t\<lparr>stage := (if go_on then Serving fd c' else Leaving fd c')\<rparr>)"
| finish: "stage t = Leaving fd c \<Longrightarrow> finishes sv c = ret c' \<Longrightarrow>
    pool_step sv t (t\<lparr>stage := Closing fd c'\<rparr>)"
| close: "stage t = Closing fd c \<Longrightarrow>
    pool_step sv t ((leave_node sv c t)\<lparr>stage := Accepting, closed := closed t @ [fd]\<rparr>)"
| cancel_request: "pool_step sv t (t\<lparr>cancel_pending := True\<rparr>)"
| cancel: "cancel_pending t \<Longrightarrow> can_cancel sv (stage t) \<Longrightarrow>
    pool_step sv t (cancelled sv (stage t) t)"

inductive_cases pool_stepE: "pool_step sv t t'"

definition pool_init :: "store \<Rightarrow> 'c pool_thread \<Rightarrow> bool" where
  "pool_init st t \<longleftrightarrow>
     t = \<lparr>stage = Accepting, cancel_pending = False, opened = [], closed = [], home = st\<rparr>"

section \<open>Descriptors\<close>

fun connections :: "'c stage \<Rightarrow> int list" where
  "connections (Serving fd c) = [fd]"
| "connections (Leaving fd c) = [fd]"
| "connections (Closing fd c) = [fd]"
| "connections p = []"

definition descriptors_inv :: "'c pool_thread \<Rightarrow> bool" where
  "descriptors_inv t \<longleftrightarrow> opened t = closed t @ connections (stage t)"

lemma cancelled_fields [simp]:
  "stage (cancelled sv p t) = Ended" "opened (cancelled sv p t) = opened t"
  "closed (cancelled sv p t) = closed t @ connections p"
  by (cases p; simp add: cleanup_handler_def leave_node_def)+

lemma descriptors_step: "pool_step sv t t' \<Longrightarrow> descriptors_inv t \<Longrightarrow> descriptors_inv t'"
  by (erule pool_stepE) (simp_all add: descriptors_inv_def leave_node_def)

interpretation pool_descriptors: inductive_invariant "pool_init st" "pool_step sv" descriptors_inv
  for st sv
  by unfold_locales (simp add: pool_init_def descriptors_inv_def, rule descriptors_step)

section \<open>Invariants of the session of a thread\<close>

text \<open>
  \<open>P\<close> holds while the thread waits in the condition of the inner loop, \<open>Q\<close> from the end of
  the loop on, and \<open>N\<close> of the node between connections.
\<close>

fun session_holds :: "('c \<Rightarrow> bool) \<Rightarrow> ('c \<Rightarrow> bool) \<Rightarrow> 'c stage \<Rightarrow> bool" where
  "session_holds P Q (Serving fd c) = P c"
| "session_holds P Q (Leaving fd c) = Q c"
| "session_holds P Q (Closing fd c) = Q c"
| "session_holds P Q p = True"

locale session_invariant =
  fixes sv :: "'c service" and P :: "'c \<Rightarrow> bool" and Q :: "'c \<Rightarrow> bool" and N :: "store \<Rightarrow> bool"
  assumes begins_inv: "begins sv st c \<Longrightarrow> N st \<Longrightarrow> P c"
    and serves_inv: "serves sv c (go_on, c') \<Longrightarrow> P c \<Longrightarrow> if go_on then P c' else Q c'"
    and finishes_inv: "finishes sv c = ret c' \<Longrightarrow> Q c \<Longrightarrow> Q c'"
    and node_inv: "P c \<or> Q c \<Longrightarrow> N (node_of sv c)"
begin

lemma cancelled_home: "N (home t) \<Longrightarrow> session_holds P Q p \<Longrightarrow> N (home (cancelled sv p t))"
  by (cases p) (auto simp: cleanup_handler_def leave_node_def node_inv)

lemma session_step:
  "pool_step sv t t' \<Longrightarrow> session_holds P Q (stage t) \<and> N (home t) \<Longrightarrow>
   session_holds P Q (stage t') \<and> N (home t')"
  by (erule pool_stepE)
     (auto simp: leave_node_def node_inv cancelled_home intro: begins_inv finishes_inv
        dest: serves_inv split: if_splits)

lemma session_reach:
  "reach (pool_init st) (pool_step sv) t \<Longrightarrow> N st \<Longrightarrow> session_holds P Q (stage t) \<and> N (home t)"
proof (induction rule: reach.induct)
  case (reach_init t)
  then show ?case by (simp add: pool_init_def)
next
  case (reach_step t t')
  then show ?case using session_step by blast
qed

end

definition rejected_replace :: "client_session \<Rightarrow> bool" where
  \<comment> \<open>the last line was a REPLACE with an invalid argument\<close>
  "rejected_replace c \<longleftrightarrow> (\<exists>a msg. tokenize (request c) [SP] = [REPLACE, a] \<and>
     areReplaceArgumentsValid a (site c) = ret (False, msg))"

lemma two_tokens: "length ts = 2 \<Longrightarrow> ts = [ts ! 0, ts ! 1]"
  by (cases ts rule: list.exhaust; cases "tl ts" rule: list.exhaust) auto

lemma handle_command_continue:
  assumes "handle_command schedule tid ps tokens c = ret (Continue, c')"
  shows "request c' = request c" "site c' = site c"
    "\<exists>a msg. tokens = [REPLACE, a] \<and> areReplaceArgumentsValid a (site c) = ret (False, msg)"
proof -
  from assms obtain msg where len: "length tokens = 2" and t: "tokens ! 0 = REPLACE"
    and v: "areReplaceArgumentsValid (tokens ! 1) (site c) = ret (False, msg)"
    and c': "c' = send_client msg c"
    by (auto simp: handle_command_def bind_run_ret_iff split: if_splits)
  show "request c' = request c" "site c' = site c" by (simp_all add: c')
  show "\<exists>a msg. tokens = [REPLACE, a] \<and> areReplaceArgumentsValid a (site c) = ret (False, msg)"
    using two_tokens [OF len] t v by metis
qed

lemma client_turn_cancel:
  assumes "client_turn schedule tid ps c = ret (True, c')"
  shows "cancel_enabled c' \<or> rejected_replace c'"
proof -
  from assms obtain n req r d fl c2 where
    h: "handle_command schedule tid ps (tokenize req [SP])
       (c\<lparr>request := req, residue := r, connection := d, cancel_enabled := False\<rparr>) = ret (fl, c2)"
    and e: "(case fl of Break \<Rightarrow> ret (False, c2) | Continue \<Rightarrow> ret (True, c2)
      | Fall_Through \<Rightarrow> ret (True, c2\<lparr>cancel_enabled := True\<rparr>)) = ret (True, c')"
    by (auto simp: client_turn_def Let_def bind_run_ret_iff split: if_splits)
  show ?thesis
  proof (cases fl)
    case Continue
    with e have "c' = c2" by simp
    with handle_command_continue [OF h [unfolded Continue]] show ?thesis
      by (auto simp: rejected_replace_def)
  qed (use e in auto)
qed

interpretation board_cancel: session_invariant "board_service schedule tid ps"
    "\<lambda>c. cancel_enabled c \<or> rejected_replace c" "\<lambda>c. True" "\<lambda>st. True" for schedule tid ps
  by unfold_locales
     (auto simp: board_service_def accepted_def respond_def send_client_def dest: client_turn_cancel)

lemma sync_turn_cancel: "sync_turn e c = ret (True, c') \<Longrightarrow> sync_cancel_enabled c'"
  by (cases "recv_nonblock e 255") (auto simp: sync_turn_def bind_run_ret_iff split: if_splits)

interpretation sync_cancel: session_invariant sync_service sync_cancel_enabled "\<lambda>c. True" "\<lambda>st. True"
  by unfold_locales (auto simp: sync_service_def sync_accepted_def dest: sync_turn_cancel)

lemma board_lock:
  assumes "faithful_schedule schedule" "length ps < 2 ^ 64"
  shows "session_invariant (board_service schedule tid ps)
    (\<lambda>c. threadIdStatsMapping c tid = None \<and> access_control (site c) = a)
    (\<lambda>c. access_control (site c) = a) (\<lambda>st. access_control st = a)"
  using client_turn_site [OF _ assms]
  by unfold_locales (auto simp: board_service_def accepted_def)

section \<open>Cancellation\<close>

lemma cancel_now:
  "cancel_pending t \<Longrightarrow> can_cancel sv (stage t) \<Longrightarrow> \<exists>t'. (pool_step sv)\<^sup>*\<^sup>* t t' \<and> stage t' = Ended"
  by (blast intro: pool_step.cancel cancelled_fields(1) r_into_rtranclp)

lemma cancel_closing:
  assumes "cancel_pending t" "stage t = Closing fd c"
  shows "\<exists>t'. (pool_step sv)\<^sup>*\<^sup>* t t' \<and> stage t' = Ended"
proof -
  let ?t = "(leave_node sv c t)\<lparr>stage := Accepting, closed := closed t @ [fd]\<rparr>"
  have "pool_step sv t ?t" by (rule pool_step.close [OF assms(2)])
  moreover have "\<exists>t'. (pool_step sv)\<^sup>*\<^sup>* ?t t' \<and> stage t' = Ended"
    by (rule cancel_now) (simp_all add: leave_node_def assms(1))
  ultimately show ?thesis by (blast intro: converse_rtranclp_into_rtranclp)
qed

lemma cancel_leaving:
  assumes "cancel_pending t" "stage t = Leaving fd c" "finishes sv c = ret c'"
  shows "\<exists>t'. (pool_step sv)\<^sup>*\<^sup>* t t' \<and> stage t' = Ended"
proof -
  have "pool_step sv t (t\<lparr>stage := Closing fd c'\<rparr>)" by (rule pool_step.finish [OF assms(2,3)])
  moreover have "\<exists>t'. (pool_step sv)\<^sup>*\<^sup>* (t\<lparr>stage := Closing fd c'\<rparr>) t' \<and> stage t' = Ended"
    by (rule cancel_closing [of _ fd c']) (simp_all add: assms(1))
  ultimately show ?thesis by (blast intro: converse_rtranclp_into_rtranclp)
qed

section \<open>A slave up to its commit\<close>

lemma sync_turn_message:
  assumes "plain l" "l \<noteq> []" "length l < 255"
    and "handle_sync_command (tokenize l [SP]) (protocol c) = ret (stop, s)"
  shows "sync_turn (delivered (l @ [LF])) c =
    ret (\<not> stop, \<lparr>protocol = s, last_n = 1 + int (length l), sync_cancel_enabled = \<not> stop\<rparr>)"
  using assms by (simp add: sync_turn_def recv_message recv_nodata_def sync_request_last)

lemma sync_turn_precommit:
  assumes "word user" "length user \<le> 239" "protocol c = new_session st"
  obtains c' where "sync_turn (delivered (master_message PRECOMMIT user)) c = ret (True, c')"
    "protocol c' = acknowledged user st" "sync_cancel_enabled c'"
proof -
  obtain l where l: "master_message PRECOMMIT user = l @ [LF]" "plain l" "l \<noteq> []" "length l < 255"
      "tokenize l [SP] = [''5.0'', PRECOMMIT, user]"
    using message_precommit [OF assms(1,2)] by blast
  have "handle_sync_command (tokenize l [SP]) (protocol c) = ret (False, acknowledged user st)"
    by (simp add: l(5) assms(3) handle_sync_command_def vector_at_def new_session_def acknowledged_def
          reply_master_def)
  from sync_turn_message [OF l(2-4) this]
  have turn: "sync_turn (delivered (master_message PRECOMMIT user)) c = ret (True,
      \<lparr>protocol = acknowledged user st, last_n = 1 + int (length l), sync_cancel_enabled = True\<rparr>)"
    by (simp add: l(1))
  show ?thesis by (rule that [OF turn]) simp_all
qed

lemma sync_turn_commit:
  assumes "available st" "write_lock_free st" "wire_ok u WRITE m" "protocol c = acknowledged u st"
  obtains c' where "sync_turn (delivered (master_message COMMIT (WRITE @ SP # m))) c = ret (True, c')"
    "currentStatus (protocol c') = AWAITING_SUCCESS_OR_UNDO_BROADCAST"
    "node (protocol c') = held (posted u m st)" "sync_cancel_enabled c'"
proof -
  obtain l where l: "master_message COMMIT (WRITE @ SP # m) = l @ [LF]" "plain l" "l \<noteq> []"
      "length l < 255" "tokenize l [SP] = [''5.0'', COMMIT, WRITE, m]"
    using message_commit [OF assms(3)] by blast
  have "available st \<and> write_lock_free st" using assms(1,2) by simp
  then obtain s where s: "handle_sync_command (tokenize l [SP]) (protocol c) = ret (False, s)"
      "currentStatus s = AWAITING_SUCCESS_OR_UNDO_BROADCAST" "node s = held (posted u m st)"
    unfolding l(5) assms(4) by (rule write_commit.commit_handled)
  have turn: "sync_turn (delivered (master_message COMMIT (WRITE @ SP # m))) c = ret (True,
      \<lparr>protocol = s, last_n = 1 + int (length l), sync_cancel_enabled = True\<rparr>)"
    unfolding l(1) using sync_turn_message [OF l(2-4) s(1)] by simp
  show ?thesis by (rule that [OF turn]) (simp_all add: s(2,3))
qed

lemma sync_thread_turn:
  assumes "reach init (pool_step sync_service) t" "stage t = Serving fd c" "sync_turn e c = ret (True, c')"
  shows "reach init (pool_step sync_service) (t\<lparr>stage := Serving fd c'\<rparr>)"
  using reach_step [OF assms(1) pool_step.turn [OF assms(2), of sync_service True c']] assms(3)
  by (auto simp: sync_service_def)

section \<open>Properties\<close>

text \<open>C26: no descriptor leaks and none is closed twice. Whatever happens to a thread of a pool, the
  connections it has closed are, in order, those it has accepted, except for the one it serves;
  once it has ended, by \<open>return\<close> or by cancellation, none is left.\<close>

theorem pool_thread_leaks_nothing:
  assumes "reach (pool_init st) (pool_step sv) t"
  shows "opened t = closed t @ connections (stage t) \<and> (stage t = Ended \<longrightarrow> opened t = closed t)"
  using pool_descriptors.inv_reach [OF assms] by (auto simp: descriptors_inv_def)

definition example_thread :: "client_session pool_thread" where
  \<comment> \<open>a thread that serves a client on descriptor 5, and is to be cancelled\<close>
  "example_thread = \<lparr>stage = Serving 5 (accepted (Sock_In []) [] (example_node []) Map.empty),
     cancel_pending = True, opened = [5], closed = [], home = example_node []\<rparr>"

lemma example_thread_reachable:
  "reach (pool_init (example_node [])) (pool_step (board_service schedule tid ps)) example_thread"
proof -
  let ?sv = "board_service schedule tid ps"
  let ?t = "\<lparr>stage = Accepting, cancel_pending = False, opened = [], closed = [], home = example_node []\<rparr>"
  let ?c = "accepted (Sock_In []) [] (example_node []) Map.empty"
  have "reach (pool_init (example_node [])) (pool_step ?sv) ?t" by (rule reach_init) (simp add: pool_init_def)
  from reach_step [OF this pool_step.accepts [of ?t 5 ?sv ?c]]
  have "reach (pool_init (example_node [])) (pool_step ?sv) (?t\<lparr>stage := Serving 5 ?c, opened := [5]\<rparr>)"
    by (force simp: board_service_def)
  from reach_step [OF this pool_step.cancel_request] show ?thesis by (simp add: example_thread_def)
qed

theorem pool_thread_leaks_nothing_witness: "opened example_thread = closed example_thread @ [5]"
  using pool_thread_leaks_nothing [OF example_thread_reachable] by (simp add: example_thread_def)



text \<open>A thread of the board server leaves the lock of the node as it found it, also when it is
  cancelled in the middle of a session.\<close>

theorem board_thread_keeps_the_lock:
  assumes "reach (pool_init st) (pool_step (board_service schedule tid ps)) t"
    and "faithful_schedule schedule" "length ps < 2 ^ 64"
  shows "access_control (home t) = access_control st"
  using session_invariant.session_reach [OF board_lock [OF assms(2,3)] assms(1)] by blast

theorem board_thread_keeps_the_lock_witness:
  "access_control (home example_thread) = access_control (example_node [])"
  by (rule board_thread_keeps_the_lock [where ps = "[]" and tid = 7, OF example_thread_reachable example_schedule_faithful]) simp



end
