(* ===== verification/Crossing_Commits.thy ===== *)
theory Crossing_Commits
  imports Server_Threads
begin

text \<open>
  Two nodes that are each other's peer, with a client on each: \<open>board-server.cpp\<close>,
  \<open>peer-communication.cpp\<close>, \<open>sync-server.cpp\<close> and \<open>file-operations.cpp\<close> together. On a node the
  thread of the two-phase commit its client has started and the session of the
  synchronisation thread work on the same board, under the same lock. A message is read in
  the order it was sent, and a read may time out.
\<close>

section \<open>Two nodes\<close>

record cluster_node =
  master_part :: master               \<comment> \<open>its \<open>master_store\<close> is the store of the node\<close>
  heard :: nat                        \<comment> \<open>answers the master has read\<close>
  slave_part :: "sync_thread option"  \<comment> \<open>the session with the other node's master\<close>
  messages_read :: nat                \<comment> \<open>messages this session has read\<close>
  slave_replies :: "bytes list"       \<comment> \<open>what it has sent\<close>

abbreviation node_store :: "cluster_node \<Rightarrow> store" where
  "node_store n \<equiv> master_store (master_part n)"

definition put_slave :: "sync_thread option \<Rightarrow> sync_session \<Rightarrow> cluster_node \<Rightarrow> cluster_node" where
  "put_slave c s n = n\<lparr>slave_part := c, slave_replies := replies s,
     master_part := (master_part n)\<lparr>master_store := node s\<rparr>\<rparr>"

definition slave_event :: "poll_outcome \<Rightarrow> cluster_node \<Rightarrow> cluster_node run" where
  \<comment> \<open>a turn of the session and, when it was the last one, its end\<close>
  "slave_event e n = (case slave_part n of
     None \<Rightarrow> hang
   | Some c \<Rightarrow>
       bind_run (sync_turn e (c\<lparr>protocol := (protocol c)\<lparr>node := node_store n\<rparr>\<rparr>)) (\<lambda>(go_on, c').
         if go_on then ret (put_slave (Some c') (protocol c') n)
         else bind_run (end_of_session (last_n c') (protocol c')) (\<lambda>s. ret (put_slave None s n))))"

definition sent_to_peer :: "cluster_node \<Rightarrow> bytes list" where
  "sent_to_peer n = outbox (master_part n) ! 0"

inductive node_step :: "bytes \<Rightarrow> bytes \<Rightarrow> cluster_node \<Rightarrow> cluster_node \<Rightarrow> cluster_node \<Rightarrow> bool"
  for user :: bytes and command :: bytes and other :: cluster_node where
  master_goes_on: "advance user command 0 (master_part n) = ret s \<Longrightarrow>
    node_step user command other n (n\<lparr>master_part := s\<rparr>)"
| master_refused: "peer_pcs (master_part n) ! 0 = Starting \<Longrightarrow>
    node_step user command other n (n\<lparr>master_part := connect_fails 0 (master_part n)\<rparr>)"
| master_hears: "heard n < length (slave_replies other) \<Longrightarrow>
    receive 0 (delivered (slave_replies other ! heard n)) (master_part n) = ret s \<Longrightarrow>
    node_step user command other n (n\<lparr>master_part := s, heard := heard n + 1\<rparr>)"
| master_gives_up: "receive 0 Poll_Timeout (master_part n) = ret s \<Longrightarrow>
    node_step user command other n (n\<lparr>master_part := s\<rparr>)"
| slave_accepts: "slave_part n = None \<Longrightarrow> messages_read n = 0 \<Longrightarrow> sent_to_peer other \<noteq> [] \<Longrightarrow>
    node_step user command other n (n\<lparr>slave_part := Some (sync_accepted (node_store n))\<rparr>)"
| slave_hears: "messages_read n < length (sent_to_peer other) \<Longrightarrow>
    slave_event (delivered (sent_to_peer other ! messages_read n)) n = ret n' \<Longrightarrow>
    node_step user command other n (n'\<lparr>messages_read := messages_read n + 1\<rparr>)"
| slave_gives_up: "slave_event Poll_Timeout n = ret n' \<Longrightarrow> node_step user command other n n'"

type_synonym cluster = "bool \<Rightarrow> cluster_node"

inductive cluster_step :: "(bool \<Rightarrow> bytes) \<Rightarrow> (bool \<Rightarrow> bytes) \<Rightarrow> cluster \<Rightarrow> cluster \<Rightarrow> bool"
  for users :: "bool \<Rightarrow> bytes" and commands :: "bool \<Rightarrow> bytes" where
  one_node: "node_step (users i) (commands i) (c (\<not> i)) (c i) n \<Longrightarrow>
    cluster_step users commands c (c(i := n))"

definition cluster_start :: "store \<Rightarrow> cluster_node" where
  "cluster_start st = \<lparr>master_part = run_state st 1 1 [] [Starting] [[]], heard = 0,
     slave_part = None, messages_read = 0, slave_replies = []\<rparr>"

definition cluster_init :: "(bool \<Rightarrow> store) \<Rightarrow> cluster \<Rightarrow> bool" where
  \<comment> \<open>both clients have just sent their commands\<close>
  "cluster_init sts c \<longleftrightarrow> c = (\<lambda>i. cluster_start (sts i))"

text \<open>The nodes can take a step each, one after the other.\<close>

lemma lockstep:
  assumes "reach init (cluster_step users commands) A"
    and "\<And>i other. other = A (\<not> i) \<or> other = B (\<not> i) \<Longrightarrow> node_step (users i) (commands i) other (A i) (B i)"
  shows "reach init (cluster_step users commands) B"
proof -
  have s: "cluster_step users commands A (A(True := B True))"
    by (rule one_node) (rule assms(2), simp)
  note r = reach_step [OF assms(1), OF s]
  let ?A = "A(True := B True)"
  have "node_step (users False) (commands False) (?A (\<not> False)) (?A False) (B False)"
    using assms(2) [of "B True" False] by simp
  then have "cluster_step users commands ?A (?A(False := B False))" by (rule one_node)
  moreover have "?A(False := B False) = B"
  proof
    fix i show "(?A(False := B False)) i = B i" by (cases i) simp_all
  qed
  ultimately have "cluster_step users commands ?A B" by simp
  from reach_step [OF r, OF this] show ?thesis .
qed

section \<open>The messages\<close>

definition ready_reply :: bytes where
  "ready_reply = sendMessageToSocket 50 READY ''User stored. Syncronization Server available.''"

definition success_reply :: "int \<Rightarrow> bytes" where
  "success_reply k = sendMessageToSocket 50 COMMIT_SUCCESS (createMessage 30 ''WROTE'' (to_string k) False)"

lemma classify_ready: "classify_response PRECOMMIT_SENT (delivered ready_reply) = ret On_Ready"
  unfolding ready_reply_def by code_simp

lemma classify_line:
  assumes "plain l" "l \<noteq> []" "length l < 255" "tokenize l [SP] = token0 # token1 # rest"
  shows "classify_response status (delivered (l @ [LF])) =
    ret (if token1 = READY \<and> status = PRECOMMIT_SENT then On_Ready
         else if token1 = COMMIT_SUCCESS \<and> status = COMMIT_SENT then On_Commit_Success
         else if token1 = COMMIT_UNSUCCESS \<and> status = COMMIT_SENT then On_Commit_Unsuccess
         else On_Other)"
proof -
  have "tokenize ((l @ [LF])[length l := NUL]) [SP] = tokenize l [SP]"
    using assms(1) by (simp add: tokenize_def plain_def list_update_append)
  then show ?thesis
    using assms by (simp add: classify_response_def recv_message recv_nodata_def vector_at_def)
qed

lemma success_line:
  assumes "0 \<le> k" "k \<le> INT_MAX"
  obtains l rest where "success_reply k = l @ [LF]" "plain l" "l \<noteq> []" "length l < 255"
    "tokenize l [SP] = ''5.0'' # COMMIT_SUCCESS # rest"
proof -
  let ?k = "to_string k"
  let ?l = "join SP [''5.0'', COMMIT_SUCCESS, ''3.0'', ''WROTE'', ?k]"
  have "length ?k \<le> 10"
    using length_nat_to_string [of "nat k" 10] assms by (simp add: to_string_nonneg INT_MAX_def)
  moreover have k: "word ?k" using assms(1) by (simp add: word_def)
  ultimately have "success_reply k = ?l @ [LF]" "plain ?l" "?l \<noteq> []" "length ?l < 255"
    by (simp_all add: success_reply_def sendMessageToSocket_def createMessage_def fmt_codes word_def)
  moreover have "tokenize ?l [SP] = [''5.0'', COMMIT_SUCCESS, ''3.0'', ''WROTE'', ?k]"
    using k by (intro tokenize_words) (simp add: word_def)
  ultimately show ?thesis by (rule that)
qed

lemma classify_success:
  assumes "0 \<le> k" "k \<le> INT_MAX"
  shows "classify_response COMMIT_SENT (delivered (success_reply k)) = ret On_Commit_Success"
  by (rule success_line [OF assms]) (simp add: classify_line)

section \<open>The slave of a WRITE\<close>

definition committed_session :: "bytes \<Rightarrow> bytes \<Rightarrow> store \<Rightarrow> sync_session" where
  "committed_session u m st = \<lparr>currentStatus = AWAITING_SUCCESS_OR_UNDO_BROADCAST,
     undoCommitOperation = Undo_Write (getBulletinBoardFileSize st), operationPerformed = WRITE,
     session_user = u, replies = [ready_reply, success_reply (message_number st)],
     node = held (posted u m st)\<rparr>"

lemma turn_precommit:
  assumes "word u" "length u \<le> 239"
  obtains c where "sync_turn (delivered (master_message PRECOMMIT u)) (sync_accepted st) = ret (True, c)"
    "protocol c = acknowledged u st"
  using sync_turn_precommit [OF assms, of "sync_accepted st" st] by (auto simp: sync_accepted_def)

lemma turn_commit:
  assumes "available st" "write_lock_free st" "wire_ok u WRITE m" "protocol c = acknowledged u st"
  obtains c' where "sync_turn (delivered (master_message COMMIT (WRITE @ SP # m))) c = ret (True, c')"
    "protocol c' = committed_session u m st"
proof -
  obtain l where l: "master_message COMMIT (WRITE @ SP # m) = l @ [LF]" "plain l" "l \<noteq> []"
      "length l < 255" "tokenize l [SP] = [''5.0'', COMMIT, WRITE, m]"
    using message_commit [OF assms(3)] by blast
  have "handle_sync_command (tokenize l [SP]) (protocol c) = ret (False, committed_session u m st)"
    using assms(1,2)
    by (simp add: l(5) assms(4) handle_sync_command_def vector_at_def perform_operation_def available_def
          writeOperation_done reply_wrote_no_error Let_def reply_master_def committed_session_def
          acknowledged_def new_session_def ready_reply_def success_reply_def)
  from sync_turn_message [OF l(2-4) this]
  have turn: "sync_turn (delivered (master_message COMMIT (WRITE @ SP # m))) c = ret (True,
      \<lparr>protocol = committed_session u m st, last_n = 1 + int (length l), sync_cancel_enabled = True\<rparr>)"
    unfolding l(1) by simp
  show ?thesis by (rule that [OF turn]) simp
qed

lemma turn_timeout: "sync_turn Poll_Timeout c = ret (False, c\<lparr>last_n := recv_nodata\<rparr>)"
  by (simp add: sync_turn_def recv_nonblock_def recv_nodata_def)

lemma committed_timeout:
  assumes "available st" "write_lock_free st"
  shows "end_of_session recv_nodata (committed_session u m st) = ret ((committed_session u m st)\<lparr>node := st\<rparr>)"
  using assms write_op.release_original [of st] undo_write_restores [of st u m]
  by (simp add: end_of_session_def committed_session_def available_def release_write_lock_def)

section \<open>A run of both nodes\<close>

definition meeting :: "store \<Rightarrow> 64 word \<Rightarrow> 64 word \<Rightarrow> bytes \<Rightarrow> peer_pc \<Rightarrow> bytes list \<Rightarrow> nat \<Rightarrow>
    sync_thread option \<Rightarrow> nat \<Rightarrow> bytes list \<Rightarrow> cluster_node" where
  "meeting st a b r p out h sl k rs = \<lparr>master_part = run_state st a b r [p] [out], heard = h,
     slave_part = sl, messages_read = k, slave_replies = rs\<rparr>"

lemma accepted_node [simp]: "node (protocol (sync_accepted st)) = st"
  by (simp add: sync_accepted_def new_session_def)

lemma meeting_fields [simp]:
  "node_store (meeting st a b r p out h sl k rs) = st"
  "sent_to_peer (meeting st a b r p out h sl k rs) = out"
  "slave_replies (meeting st a b r p out h sl k rs) = rs"
  "slave_part (meeting st a b r p out h sl k rs) = sl"
  "messages_read (meeting st a b r p out h sl k rs) = k"
  "(meeting st a b r p out h sl k rs)\<lparr>messages_read := k'\<rparr> = meeting st a b r p out h sl k' rs"
  by (simp_all add: meeting_def run_state_def sent_to_peer_def)

lemmas run_simps = run_state_def goto_def send_peer_def

lemma run_connects:
  "advance u c 0 (run_state st a b r [Starting] [out]) =
     ret (run_state st a b r [Receiving PRECOMMIT_SENT] [out @ [master_message PRECOMMIT u]])"
  by (simp add: advance_def connect_succeeds_def run_simps)

lemma run_ready:
  "receive 0 (delivered ready_reply) (run_state st 1 b r [Receiving PRECOMMIT_SENT] [out]) =
     ret (run_state st 0 b r [Ready_Decided] [out])"
  by (simp add: receive_def classify_ready run_simps on_ready_def broadcast_peers_def)

lemma run_commits:
  "advance u c 0 (run_state st a b r [Ready_Decided] [out]) =
     ret (run_state st a b r [Receiving COMMIT_SENT] [out @ [master_message COMMIT c]])"
  by (simp add: advance_def ready_decide_def run_simps)

lemma run_success:
  assumes "0 \<le> k" "k \<le> INT_MAX"
  shows "receive 0 (delivered (success_reply k)) (run_state st a 1 r [Receiving COMMIT_SENT] [out]) =
     ret (run_state st a 0 r [Commit_Decided] [out])"
  by (simp add: receive_def classify_success [OF assms] run_simps on_commit_success_def broadcast_peers_def)

lemma run_decides:
  "advance u c 0 (run_state st a b r [Commit_Decided] [out]) = ret (run_state st a b r [Operating] [out])"
  by (simp add: advance_def commit_decide_def run_simps)

lemma run_operates:
  assumes "available st" "write_lock_free st" "wire_ok u WRITE m"
  shows "advance u (WRITE @ SP # m) 0 (run_state st a b [] [Operating] [out]) =
     ret (run_state (posted u m st) a b (createMessage 30 ''WROTE'' (to_string (message_number st)) True)
       [Confirming] [out])"
  using write_commit.master_operation_command [OF assms(3), of st] assms(1,2)
  by (simp add: advance_def operate_def run_simps writeOperation_done available_def)

lemma run_confirms:
  assumes "\<not> contains ERROR r"
  shows "advance u c 0 (run_state st a b r [Confirming] [out]) =
     ret (run_state st a b r [Finished Confirmed] [out @ [master_message SUCCESS_NOOP []]])"
  using assms by (simp add: advance_def confirm_def run_simps)

lemma meeting_goes_on:
  assumes "advance u c 0 (run_state st a b r [p] [out]) = ret (run_state st' a' b' r' [p'] [out'])"
  shows "node_step u c other (meeting st a b r p out h sl k rs) (meeting st' a' b' r' p' out' h sl k rs)"
  using master_goes_on [of u c "meeting st a b r p out h sl k rs"] assms by (simp add: meeting_def)

lemma meeting_hears:
  assumes "receive 0 (delivered (slave_replies other ! h)) (run_state st a b r [p] [out]) =
      ret (run_state st' a' b' r' [p'] [out'])" "h < length (slave_replies other)"
  shows "node_step u c other (meeting st a b r p out h sl k rs)
    (meeting st' a' b' r' p' out' (Suc h) sl k rs)"
  using master_hears [of "meeting st a b r p out h sl k rs" other] assms by (simp add: meeting_def)

lemma meeting_accepts:
  assumes "sent_to_peer other \<noteq> []"
  shows "node_step u c other (meeting st a b r p out h None 0 rs)
    (meeting st a b r p out h (Some (sync_accepted st)) 0 rs)"
  using slave_accepts [of "meeting st a b r p out h None 0 rs" other] assms
  by (simp add: meeting_def run_state_def)

lemma meeting_slave_hears:
  assumes "sync_turn (delivered (sent_to_peer other ! k)) t = ret (True, t')"
    and "k < length (sent_to_peer other)" "node (protocol t) = st" "node (protocol t') = st'"
  shows "node_step u c other (meeting st a b r p out h (Some t) k rs)
    (meeting st' a b r p out h (Some t') (Suc k) (replies (protocol t')))"
proof -
  have "slave_event (delivered (sent_to_peer other ! k)) (meeting st a b r p out h (Some t) k rs) =
      ret (meeting st' a b r p out h (Some t') k (replies (protocol t')))"
    using assms by (auto simp: meeting_def run_state_def slave_event_def put_slave_def)
  with slave_hears [of "meeting st a b r p out h (Some t) k rs" other] assms(2) show ?thesis
    by fastforce
qed

lemma meeting_slave_gives_up:
  assumes "end_of_session recv_nodata (protocol t) = ret s"
    and "node (protocol t) = st" "node s = st'" "replies s = rs"
  shows "node_step u c other (meeting st a b r p out h (Some t) k rs)
    (meeting st' a b r p out h None k rs)"
proof (rule slave_gives_up)
  show "slave_event Poll_Timeout (meeting st a b r p out h (Some t) k rs) =
      ret (meeting st' a b r p out h None k rs)"
    using assms by (auto simp: meeting_def run_state_def slave_event_def put_slave_def turn_timeout)
qed

text \<open>Both transactions in step: up to the \<open>COMMIT\<close>s, and up to the point where both masters want to
  write.\<close>

abbreviation crossing :: "(bool \<Rightarrow> store) \<Rightarrow> (bool \<Rightarrow> bytes) \<Rightarrow> (bool \<Rightarrow> bytes) \<Rightarrow> cluster \<Rightarrow> bool" where
  "crossing st u m \<equiv> reach (cluster_init st) (cluster_step u (\<lambda>i. WRITE @ SP # m i))"

abbreviation precommit :: "bytes \<Rightarrow> bytes" where
  "precommit u \<equiv> master_message PRECOMMIT u"

abbreviation commit :: "bytes \<Rightarrow> bytes" where
  "commit m \<equiv> master_message COMMIT (WRITE @ SP # m)"

lemma crossing_commits_sent:
  assumes "\<And>i. word (u i)" "\<And>i. length (u i) \<le> 239"
  obtains t where "\<And>i. protocol (t i) = acknowledged (u (\<not> i)) (st i)"
    "crossing st u m (\<lambda>i. meeting (st i) 0 1 [] (Receiving COMMIT_SENT) [precommit (u i), commit (m i)] 1
       (Some (t i)) 1 [ready_reply])"
proof -
  have "\<forall>i. \<exists>t. sync_turn (delivered (precommit (u (\<not> i)))) (sync_accepted (st i)) = ret (True, t) \<and>
      protocol t = acknowledged (u (\<not> i)) (st i)"
    using turn_precommit [OF assms] by metis
  then obtain t where t: "\<And>i. sync_turn (delivered (precommit (u (\<not> i)))) (sync_accepted (st i)) = ret (True, t i)"
      "\<And>i. protocol (t i) = acknowledged (u (\<not> i)) (st i)" by metis
  have r: "replies (protocol (t i)) = [ready_reply]" for i
    by (simp add: t(2) acknowledged_def new_session_def reply_master_def ready_reply_def)
  have "crossing st u m (\<lambda>i. meeting (st i) 1 1 [] Starting [] 0 None 0 [])"
    by (rule reach_init) (simp add: cluster_init_def cluster_start_def meeting_def fun_eq_iff)
  then have "crossing st u m (\<lambda>i. meeting (st i) 1 1 [] (Receiving PRECOMMIT_SENT) [precommit (u i)] 0 None 0 [])"
    by (rule lockstep) (rule meeting_goes_on, simp add: run_connects)
  then have "crossing st u m (\<lambda>i. meeting (st i) 1 1 [] (Receiving PRECOMMIT_SENT) [precommit (u i)] 0
      (Some (sync_accepted (st i))) 0 [])"
    by (rule lockstep) (rule meeting_accepts, auto)
  then have "crossing st u m (\<lambda>i. meeting (st i) 1 1 [] (Receiving PRECOMMIT_SENT) [precommit (u i)] 0
      (Some (t i)) (Suc 0) (replies (protocol (t i))))"
    by (rule lockstep) (rule meeting_slave_hears, auto simp: t)
  then have "crossing st u m (\<lambda>i. meeting (st i) 0 1 [] Ready_Decided [precommit (u i)] (Suc 0)
      (Some (t i)) (Suc 0) [ready_reply])"
    unfolding r by (rule lockstep) (rule meeting_hears, auto simp: run_ready)
  then have "crossing st u m (\<lambda>i. meeting (st i) 0 1 [] (Receiving COMMIT_SENT)
      [precommit (u i), commit (m i)] (Suc 0) (Some (t i)) (Suc 0) [ready_reply])"
    by (rule lockstep) (rule meeting_goes_on, simp add: run_commits)
  then show ?thesis by (intro that [of t] t(2)) simp
qed

lemma crossing_commits_waiting:
  assumes "\<And>i. available (st i)" "\<And>i. write_lock_free (st i)" "\<And>i. wire_ok (u i) WRITE (m i)"
    and "\<And>i. message_number (st i) = k" "0 \<le> k" "k \<le> INT_MAX"
  obtains t where "\<And>i. protocol (t i) = committed_session (u (\<not> i)) (m (\<not> i)) (st i)"
    "crossing st u m (\<lambda>i. meeting (held (posted (u (\<not> i)) (m (\<not> i)) (st i))) 0 0 [] Operating
       [precommit (u i), commit (m i)] 2 (Some (t i)) 2 [ready_reply, success_reply k])"
proof -
  let ?h = "\<lambda>i. held (posted (u (\<not> i)) (m (\<not> i)) (st i))" and ?out = "\<lambda>i. [precommit (u i), commit (m i)]"
  obtain t1 where t1: "\<And>i. protocol (t1 i) = acknowledged (u (\<not> i)) (st i)"
    and run: "crossing st u m (\<lambda>i. meeting (st i) 0 1 [] (Receiving COMMIT_SENT) (?out i) 1
       (Some (t1 i)) 1 [ready_reply])"
    using crossing_commits_sent [of u st m] assms(3) by (auto simp: wire_ok_def)
  have "\<forall>i. \<exists>t. sync_turn (delivered (commit (m (\<not> i)))) (t1 i) = ret (True, t) \<and>
      protocol t = committed_session (u (\<not> i)) (m (\<not> i)) (st i)"
    using turn_commit [OF assms(1-3) t1] by metis
  then obtain t where t: "\<And>i. sync_turn (delivered (commit (m (\<not> i)))) (t1 i) = ret (True, t i)"
      "\<And>i. protocol (t i) = committed_session (u (\<not> i)) (m (\<not> i)) (st i)" by metis
  have r: "replies (protocol (t i)) = [ready_reply, success_reply k]" for i
    by (simp add: t(2) committed_session_def assms(4))
  from run have "crossing st u m (\<lambda>i. meeting (?h i) 0 1 [] (Receiving COMMIT_SENT) (?out i) 1
      (Some (t i)) (Suc 1) (replies (protocol (t i))))"
    by (rule lockstep) (rule meeting_slave_hears, insert t(1), auto simp: t(2) t1 committed_session_def)
  then have "crossing st u m (\<lambda>i. meeting (?h i) 0 0 [] Commit_Decided (?out i) (Suc 1)
      (Some (t i)) (Suc 1) [ready_reply, success_reply k])"
    unfolding r by (rule lockstep) (rule meeting_hears, auto simp: run_success assms(5,6))
  then have "crossing st u m (\<lambda>i. meeting (?h i) 0 0 [] Operating (?out i) (Suc 1)
      (Some (t i)) (Suc 1) [ready_reply, success_reply k])"
    by (rule lockstep) (rule meeting_goes_on, simp add: run_decides)
  then show ?thesis by (intro that [of t] t(2)) (simp add: numeral_2_eq_2)
qed

end
