(* ===== verification/Crossing_Outcome.thy ===== *)
theory Crossing_Outcome
  imports Crossing_Commits
begin

text \<open>
  How two crossing commits end. From the point where both masters want to write on, a node is in
  one of seven stages; the theory lists them, with the state of the node in each, shows that
  the steps of the nodes are the moves between stages, and reads off the boards at the end.
\<close>

section \<open>Stages\<close>

datatype crossing_stage =
    Waiting       \<comment> \<open>the slave holds the lock, the master waits for it\<close>
  | Undone        \<comment> \<open>the slave timed out and undid the other node's WRITE\<close>
  | Wrote         \<comment> \<open>the master has written\<close>
  | Told          \<comment> \<open>and told the other node\<close>
  | Kept          \<comment> \<open>the slave was told to keep the other node's WRITE\<close>
  | Wrote_After   \<comment> \<open>the master has written after it\<close>
  | Told_After

fun moves :: "bool \<Rightarrow> crossing_stage \<Rightarrow> crossing_stage set" where
  \<comment> \<open>the flag: the other node has sent its verdict\<close>
  "moves told Waiting = (if told then {Undone, Kept} else {Undone})"
| "moves told Undone = {Wrote}"
| "moves told Wrote = {Told}"
| "moves told Kept = {Wrote_After}"
| "moves told Wrote_After = {Told_After}"
| "moves told p = {}"

definition told :: "crossing_stage \<Rightarrow> bool" where
  "told p \<longleftrightarrow> p = Told \<or> p = Told_After"

definition after_other :: "crossing_stage \<Rightarrow> bool" where
  "after_other p \<longleftrightarrow> p = Kept \<or> p = Wrote_After \<or> p = Told_After"

definition noop :: bytes where
  "noop = master_message SUCCESS_NOOP []"

record crossing_data =
  stores :: "bool \<Rightarrow> store"
  users :: "bool \<Rightarrow> bytes"
  messages :: "bool \<Rightarrow> bytes"
  slaves :: "bool \<Rightarrow> sync_thread"
  count :: int

definition post :: "crossing_data \<Rightarrow> bool \<Rightarrow> store \<Rightarrow> store" where
  "post x i st = posted (users x i) (messages x i) st"

definition wrote_reply :: "int \<Rightarrow> bytes" where
  "wrote_reply k = createMessage 30 ''WROTE'' (to_string k) True"

fun stage_store :: "crossing_data \<Rightarrow> bool \<Rightarrow> crossing_stage \<Rightarrow> store" where
  "stage_store x i Waiting = held (post x (\<not> i) (stores x i))"
| "stage_store x i Undone = stores x i"
| "stage_store x i Wrote = post x i (stores x i)"
| "stage_store x i Told = post x i (stores x i)"
| "stage_store x i Kept = post x (\<not> i) (stores x i)"
| "stage_store x i Wrote_After = post x i (post x (\<not> i) (stores x i))"
| "stage_store x i Told_After = post x i (post x (\<not> i) (stores x i))"

fun stage_answer :: "crossing_data \<Rightarrow> crossing_stage \<Rightarrow> bytes" where
  "stage_answer x Wrote = wrote_reply (count x)"
| "stage_answer x Told = wrote_reply (count x)"
| "stage_answer x Wrote_After = wrote_reply (count x + 1)"
| "stage_answer x Told_After = wrote_reply (count x + 1)"
| "stage_answer x p = []"

fun stage_pc :: "crossing_stage \<Rightarrow> peer_pc" where
  "stage_pc Wrote = Confirming" | "stage_pc Wrote_After = Confirming"
| "stage_pc Told = Finished Confirmed" | "stage_pc Told_After = Finished Confirmed"
| "stage_pc p = Operating"

definition stage_node :: "crossing_data \<Rightarrow> bool \<Rightarrow> crossing_stage \<Rightarrow> cluster_node" where
  "stage_node x i p = meeting (stage_store x i p) 0 0 (stage_answer x p) (stage_pc p)
     ([precommit (users x i), commit (messages x i)] @ (if told p then [noop] else [])) 2
     (if p = Waiting then Some (slaves x i) else None) (if after_other p then 3 else 2)
     [ready_reply, success_reply (count x)]"

section \<open>Messages and turns\<close>

lemma turn_noop:
  assumes "protocol t = committed_session u m st"
  obtains n where "0 < n" "sync_turn (delivered noop) t = ret (False,
    \<lparr>protocol = (committed_session u m st)\<lparr>node := release_write_lock (held (posted u m st))\<rparr>,
     last_n = n, sync_cancel_enabled = False\<rparr>)"
proof -
  have "handle_sync_command (tokenize ''5.0 SUCCESS_NOOP '' [SP]) (protocol t) =
      ret (True, (committed_session u m st)\<lparr>node := release_write_lock (held (posted u m st))\<rparr>)"
    by (simp add: assms tokenize_bare handle_sync_command_def vector_at_def committed_session_def)
  from sync_turn_message [OF _ _ _ this] show ?thesis
    by (intro that [of "1 + int (length ''5.0 SUCCESS_NOOP '')"]) (simp_all add: noop_def message_bare)
qed

section \<open>The steps of a node\<close>

abbreviation write_of :: "crossing_data \<Rightarrow> bool \<Rightarrow> bytes" where
  "write_of x i \<equiv> WRITE @ SP # messages x i"

definition crossing_ready :: "crossing_data \<Rightarrow> bool" where
  "crossing_ready x \<longleftrightarrow> (\<forall>i. available (stores x i) \<and> write_lock_free (stores x i) \<and>
     message_number (stores x i) = count x \<and> wire_ok (users x i) WRITE (messages x i) \<and>
     protocol (slaves x i) = committed_session (users x (\<not> i)) (messages x (\<not> i)) (stores x i))"

lemma crossing_readyD:
  assumes "crossing_ready x"
  shows "available (stores x i)" "write_lock_free (stores x i)" "message_number (stores x i) = count x"
    "wire_ok (users x i) WRITE (messages x i)"
    "protocol (slaves x i) = committed_session (users x (\<not> i)) (messages x (\<not> i)) (stores x i)"
  using assms by (simp_all add: crossing_ready_def)

lemma post_fields [simp]:
  "available (post x i st) = available st" "write_lock_free (post x i st) = write_lock_free st"
  "message_number (post x i st) = message_number st + 1"
  by (simp_all add: post_def available_def write_lock_free_def)

lemma stage_fields [simp]:
  "master_part (stage_node x i p) = run_state (stage_store x i p) 0 0 (stage_answer x p) [stage_pc p]
     [[precommit (users x i), commit (messages x i)] @ (if told p then [noop] else [])]"
  "heard (stage_node x i p) = 2" "messages_read (stage_node x i p) = (if after_other p then 3 else 2)"
  "slave_part (stage_node x i p) = (if p = Waiting then Some (slaves x i) else None)"
  "slave_replies (stage_node x i p) = [ready_reply, success_reply (count x)]"
  "sent_to_peer (stage_node x i p) =
     [precommit (users x i), commit (messages x i)] @ (if told p then [noop] else [])"
  by (simp_all add: stage_node_def, simp_all add: meeting_def)

lemma stage_eqI:
  assumes "master_part n = master_part (stage_node x i p)" "heard n = 2"
    "slave_part n = slave_part (stage_node x i p)" "messages_read n = messages_read (stage_node x i p)"
    "slave_replies n = [ready_reply, success_reply (count x)]"
  shows "n = stage_node x i p"
  using assms by (intro cluster_node.equality) simp_all

fun next_own :: "crossing_stage \<Rightarrow> crossing_stage option" where
  "next_own Undone = Some Wrote" | "next_own Wrote = Some Told" | "next_own Kept = Some Wrote_After"
| "next_own Wrote_After = Some Told_After" | "next_own p = None"

lemma run_waits:
  assumes "available st" "\<not> write_lock_free st" "wire_ok u WRITE m"
  shows "advance u (WRITE @ SP # m) 0 (run_state st a b [] [Operating] [out]) = hang"
proof -
  have "writeOperation u m False Undo_Nothing st = hang"
    using perform_operation_waits [OF assms(1,2), of "WRITE" u m] by (simp add: perform_operation_def)
  then show ?thesis
    using write_commit.master_operation_command [OF assms(3), of st]
    by (simp add: advance_def operate_def run_state_def)
qed

lemma stage_advance:
  assumes "crossing_ready x"
  shows "advance (users x i) (write_of x i) 0 (master_part (stage_node x i p)) =
    (case next_own p of None \<Rightarrow> hang | Some q \<Rightarrow> ret (master_part (stage_node x i q)))"
proof (cases p)
  case Waiting
  have "available (held (post x (\<not> i) (stores x i)))" "\<not> write_lock_free (held (post x (\<not> i) (stores x i)))"
    using crossing_readyD(1,2) [OF assms, of i] write_op.effect_held_blocks [of "stores x i"]
    by (simp_all add: post_def available_def)
  from run_waits [OF this crossing_readyD(4) [OF assms]] show ?thesis by (simp add: Waiting told_def)
next
  case Undone
  then show ?thesis
    using run_operates [OF crossing_readyD(1,2,4) [OF assms], of i]
    by (simp add: told_def post_def wrote_reply_def crossing_readyD(3) [OF assms])
next
  case Kept
  then show ?thesis
    using run_operates [of "post x (\<not> i) (stores x i)" "users x i" "messages x i"]
      crossing_readyD(1,2,4) [OF assms, of i]
    by (simp add: told_def wrote_reply_def crossing_readyD(3) [OF assms] post_def [of x i])
next
  case Wrote
  then show ?thesis
    using run_confirms [of "wrote_reply (count x)"] reply_wrote_no_error
    by (simp add: told_def wrote_reply_def noop_def)
next
  case Wrote_After
  then show ?thesis
    using run_confirms [of "wrote_reply (count x + 1)"] reply_wrote_no_error
    by (simp add: told_def wrote_reply_def noop_def)
qed (simp_all add: advance_def run_state_def)

lemma stage_receive: "receive 0 e (master_part (stage_node x i p)) = hang"
  by (cases p) (simp_all add: receive_def run_state_def)

lemma slave_at_stage:
  assumes "crossing_ready x"
  shows "(slaves x i)\<lparr>protocol := (protocol (slaves x i))\<lparr>node := stage_store x i Waiting\<rparr>\<rparr> = slaves x i"
  by (simp add: crossing_readyD(5) [OF assms] committed_session_def post_def)

lemma stage_timeout:
  assumes "crossing_ready x"
  shows "slave_event Poll_Timeout (stage_node x i p) = (if p = Waiting then ret (stage_node x i Undone) else hang)"
proof (cases "p = Waiting")
  case True
  let ?s = "committed_session (users x (\<not> i)) (messages x (\<not> i)) (stores x i)"
  have "end_of_session recv_nodata ?s = ret (?s\<lparr>node := stores x i\<rparr>)"
    by (rule committed_timeout [OF crossing_readyD(1,2) [OF assms]])
  then have "slave_event Poll_Timeout (stage_node x i Waiting) =
      ret (put_slave None (?s\<lparr>node := stores x i\<rparr>) (stage_node x i Waiting))"
    using slave_at_stage [OF assms, of i]
    by (simp add: slave_event_def turn_timeout run_state_def crossing_readyD(5) [OF assms])
  also have "put_slave None (?s\<lparr>node := stores x i\<rparr>) (stage_node x i Waiting) = stage_node x i Undone"
    by (rule stage_eqI) (simp_all add: put_slave_def run_state_def told_def after_other_def committed_session_def
        crossing_readyD(3) [OF assms])
  finally show ?thesis using True by simp
qed (simp add: slave_event_def)

lemma stage_noop:
  assumes "crossing_ready x"
  shows "\<exists>n. slave_event (delivered noop) (stage_node x i Waiting) = ret n \<and>
    n\<lparr>messages_read := 3\<rparr> = stage_node x i Kept"
proof -
  let ?s = "committed_session (users x (\<not> i)) (messages x (\<not> i)) (stores x i)"
  let ?st = "release_write_lock (held (posted (users x (\<not> i)) (messages x (\<not> i)) (stores x i)))"
  obtain n where "0 < n" "sync_turn (delivered noop) (slaves x i) = ret (False,
      \<lparr>protocol = ?s\<lparr>node := ?st\<rparr>, last_n = n, sync_cancel_enabled = False\<rparr>)"
    using turn_noop [OF crossing_readyD(5) [OF assms]] by metis
  then have "slave_event (delivered noop) (stage_node x i Waiting) =
      ret (put_slave None (?s\<lparr>node := ?st\<rparr>) (stage_node x i Waiting))"
    using slave_at_stage [OF assms, of i]
    by (simp add: slave_event_def run_state_def end_of_session_def recv_nodata_def)
  moreover have "?st = post x (\<not> i) (stores x i)"
    using write_op.release_effect [of "stores x i"] crossing_readyD(1,2) [OF assms]
    by (simp add: release_write_lock_def post_def)
  then have "(put_slave None (?s\<lparr>node := ?st\<rparr>) (stage_node x i Waiting))\<lparr>messages_read := 3\<rparr> = stage_node x i Kept"
    by (intro stage_eqI) (simp_all add: put_slave_def run_state_def told_def after_other_def committed_session_def
        crossing_readyD(3) [OF assms])
  ultimately show ?thesis by blast
qed

text \<open>The steps of a node are the moves between stages, and nothing else.\<close>

lemma next_own_moves: "next_own p = Some q \<Longrightarrow> q \<in> moves t p"
  by (cases p) auto

lemma stage_own_step:
  assumes "next_own p = Some q"
  shows "(stage_node x i p)\<lparr>master_part := master_part (stage_node x i q)\<rparr> = stage_node x i q"
  using assms by (intro stage_eqI) (cases p; auto simp: told_def after_other_def)+

lemma stage_step_moves:
  assumes ready: "crossing_ready x"
    and step: "node_step (users x i) (write_of x i) (stage_node x (\<not> i) q) (stage_node x i p) n"
  shows "\<exists>p' \<in> moves (told q) p. n = stage_node x i p'"
  using step
proof cases
  case (master_goes_on s)
  then obtain p' where "next_own p = Some p'" "s = master_part (stage_node x i p')"
    using stage_advance [OF ready, of i p] by (auto split: option.splits)
  then show ?thesis using master_goes_on(1) stage_own_step next_own_moves by metis
next
  case master_refused
  then show ?thesis by (cases p) (simp_all add: run_state_def)
next
  case (slave_hears n')
  have "told q" "\<not> after_other p" "p = Waiting"
    using slave_hears(2,3) by (auto simp: slave_event_def split: if_splits)
  then have "slave_event (delivered noop) (stage_node x i Waiting) = ret n'" "n = n'\<lparr>messages_read := 3\<rparr>"
    using slave_hears by (simp_all add: nth_append)
  then show ?thesis using stage_noop [OF ready, of i] \<open>told q\<close> \<open>p = Waiting\<close> by auto
next
  case slave_gives_up
  then show ?thesis using stage_timeout [OF ready, of i p] by (auto split: if_splits)
qed (use stage_receive [of _ x i p] in \<open>auto simp: after_other_def split: if_splits\<close>)

lemma stage_moves_step:
  assumes ready: "crossing_ready x" and p': "next_own p = Some p' \<or> p = Waiting \<and> p' = Undone"
  shows "node_step (users x i) (write_of x i) other (stage_node x i p) (stage_node x i p')"
  using p'
proof
  assume n: "next_own p = Some p'"
  then have "advance (users x i) (write_of x i) 0 (master_part (stage_node x i p)) =
      ret (master_part (stage_node x i p'))"
    using stage_advance [OF ready, of i p] by simp
  from master_goes_on [OF this] show ?thesis unfolding stage_own_step [OF n] .
next
  assume "p = Waiting \<and> p' = Undone"
  then show ?thesis using stage_timeout [OF ready, of i p] by (auto intro: slave_gives_up)
qed

section \<open>Runs\<close>

definition stages :: "crossing_data \<Rightarrow> (bool \<Rightarrow> crossing_stage) \<Rightarrow> cluster" where
  "stages x f = (\<lambda>i. stage_node x i (f i))"

definition orderly :: "(bool \<Rightarrow> crossing_stage) \<Rightarrow> bool" where
  \<comment> \<open>only one of the nodes has been told to keep the other's WRITE, and it was told by the other\<close>
  "orderly f \<longleftrightarrow> (\<forall>i. after_other (f i) \<longrightarrow> f (\<not> i) = Told)"

lemma orderly_move:
  assumes "orderly f" "p \<in> moves (told (f (\<not> i))) (f i)"
  shows "orderly (f(i := p))"
proof -
  have own: "f (\<not> i) = Told" if "after_other p"
  proof (cases "f i = Waiting")
    case True
    with assms(2) that have "told (f (\<not> i))" by (auto simp: after_other_def split: if_splits)
    moreover have "\<not> after_other (f (\<not> i))" using assms(1) True by (force simp: orderly_def)
    ultimately show ?thesis by (auto simp: told_def after_other_def)
  next
    case False
    then have "after_other (f i)" using assms(2) that by (cases "f i") (auto simp: after_other_def)
    then show ?thesis using assms(1) by (simp add: orderly_def)
  qed
  have "\<not> after_other (f (\<not> i))"
  proof
    assume "after_other (f (\<not> i))"
    then have "f i = Told" using assms(1) by (force simp: orderly_def)
    with assms(2) show False by simp
  qed
  with own assms(1) show ?thesis by (auto simp: orderly_def)
qed

abbreviation crossing_step :: "crossing_data \<Rightarrow> cluster \<Rightarrow> cluster \<Rightarrow> bool" where
  "crossing_step x \<equiv> cluster_step (users x) (write_of x)"

lemma stages_step:
  assumes "crossing_ready x" "crossing_step x (stages x f) c" "orderly f"
  shows "\<exists>g. c = stages x g \<and> orderly g"
  using assms(2)
proof cases
  case (one_node i n)
  then obtain p where p: "p \<in> moves (told (f (\<not> i))) (f i)" "n = stage_node x i p"
    using stage_step_moves [OF assms(1), of i "f (\<not> i)" "f i" n] by (auto simp: stages_def)
  then have "c = stages x (f(i := p))" using one_node(1) by (auto simp: stages_def)
  then show ?thesis using orderly_move [OF assms(3) p(1)] by blast
qed

lemma stages_steps:
  assumes "crossing_ready x" "(crossing_step x)\<^sup>*\<^sup>* (stages x (\<lambda>i. Waiting)) c"
  shows "\<exists>g. c = stages x g \<and> orderly g"
  using assms(2)
proof (induction rule: rtranclp_induct)
  case base
  then show ?case by (auto simp: orderly_def after_other_def)
next
  case step
  then show ?case using stages_step [OF assms(1)] by blast
qed

lemma reach_rtranclp: "reach (\<lambda>s. s = a) step b \<Longrightarrow> step\<^sup>*\<^sup>* a b"
  by (induction rule: reach.induct) auto

lemma stages_lockstep:
  assumes "crossing_ready x" "reach init (crossing_step x) (stages x (\<lambda>i. p))"
    and "next_own p = Some q \<or> p = Waiting \<and> q = Undone"
  shows "reach init (crossing_step x) (stages x (\<lambda>i. q))"
  using assms(2) unfolding stages_def by (rule lockstep) (rule stage_moves_step [OF assms(1,3)])

lemma stages_finish:
  assumes "crossing_ready x"
  shows "(crossing_step x)\<^sup>*\<^sup>* (stages x (\<lambda>i. Waiting)) (stages x (\<lambda>i. Told))"
proof (rule reach_rtranclp)
  let ?run = "reach (\<lambda>c. c = stages x (\<lambda>i. Waiting)) (crossing_step x)"
  have "?run (stages x (\<lambda>i. Waiting))" by (rule reach_init) (rule refl)
  then have "?run (stages x (\<lambda>i. Undone))" by (rule stages_lockstep [OF assms]) simp
  then have "?run (stages x (\<lambda>i. Wrote))" by (rule stages_lockstep [OF assms]) simp
  then show "?run (stages x (\<lambda>i. Told))" by (rule stages_lockstep [OF assms]) simp
qed

definition commits_done :: "cluster \<Rightarrow> bool" where
  "commits_done c \<longleftrightarrow> (\<forall>i. all_finished (master_part (c i)) \<and> slave_part (c i) = None)"

lemma stages_done: "commits_done (stages x g) \<longleftrightarrow> (\<forall>i. told (g i))"
proof -
  have "all_finished (master_part (stage_node x i p)) \<and> slave_part (stage_node x i p) = None \<longleftrightarrow> told p" for i p
    by (cases p) (simp_all add: all_finished_def run_state_def told_def)
  then show ?thesis by (simp only: commits_done_def stages_def)
qed

lemma orderly_done:
  assumes "orderly g" "\<And>i. told (g i)"
  obtains i where "g i = Told" "g (\<not> i) = Told \<or> g (\<not> i) = Told_After"
proof (cases "g True = Told")
  case True
  then show ?thesis using assms(2) [of False] that [of True] by (auto simp: told_def)
next
  case False
  then have "g True = Told_After" using assms(2) [of True] by (simp add: told_def)
  then show ?thesis using assms(1) that [of False] by (force simp: orderly_def after_other_def)
qed

definition last_posts_fit :: "crossing_data \<Rightarrow> board \<Rightarrow> bool" where
  \<comment> \<open>the nodes hold \<open>b\<close>, and each message fits as the next line and as the one after it\<close>
  "last_posts_fit x b \<longleftrightarrow> (\<forall>i. represents (stores x i) b \<and> good_entry (users x i, messages x i) \<and>
     length (line_of (int (length b)) (users x i) (messages x i)) < 254 \<and>
     length (line_of (int (length b) + 1) (users x i) (messages x i)) < 254)"

lemma post_represents:
  assumes "last_posts_fit x b"
  shows "represents (post x i (stores x i)) (b @ [(users x i, messages x i)])"
    and "represents (post x i (post x (\<not> i) (stores x i)))
           (b @ [(users x (\<not> i), messages x (\<not> i)), (users x i, messages x i)])"
proof -
  have fit: "represents (stores x i) b" "good_entry (users x j, messages x j)"
    "length (line_of (int (length b)) (users x j) (messages x j)) < 254"
    "length (line_of (1 + int (length b)) (users x j) (messages x j)) < 254" for i j
    using assms by (simp_all add: last_posts_fit_def add.commute)
  have post: "represents (post x j (stores x i)) (b @ [(users x j, messages x j)])" for i j
    unfolding post_def by (rule represents_posted [OF fit(1-3)])
  show "represents (post x i (stores x i)) (b @ [(users x i, messages x i)])" by (rule post)
  show "represents (post x i (post x (\<not> i) (stores x i)))
      (b @ [(users x (\<not> i), messages x (\<not> i)), (users x i, messages x i)])"
    using represents_posted [OF post [of "\<not> i" i] fit(2) [of i]] fit(4) [of i] by (simp add: post_def [of x i])
qed

lemma stages_outcome:
  assumes "crossing_ready x" "(crossing_step x)\<^sup>*\<^sup>* (stages x (\<lambda>i. Waiting)) c" "commits_done c"
    and "last_posts_fit x b"
  shows "\<exists>k. masterOperationCompletionMessage (stats (master_part (c i))) = wrote_reply k"
    and "\<exists>i. represents (node_store (c i)) (b @ [(users x i, messages x i)]) \<and>
       (represents (node_store (c (\<not> i))) (b @ [(users x (\<not> i), messages x (\<not> i))]) \<or>
        represents (node_store (c (\<not> i)))
          (b @ [(users x i, messages x i), (users x (\<not> i), messages x (\<not> i))]))"
proof -
  obtain g where g: "c = stages x g" "orderly g" using stages_steps [OF assms(1,2)] by blast
  then have told: "told (g i)" for i using assms(3) by (simp add: stages_done)
  show "\<exists>k. masterOperationCompletionMessage (stats (master_part (c i))) = wrote_reply k"
    using told [of i] by (auto simp: told_def g(1) stages_def run_state_def)
  obtain i where "g i = Told" "g (\<not> i) = Told \<or> g (\<not> i) = Told_After"
    using orderly_done [OF g(2) told] by blast
  then show "\<exists>i. represents (node_store (c i)) (b @ [(users x i, messages x i)]) \<and>
       (represents (node_store (c (\<not> i))) (b @ [(users x (\<not> i), messages x (\<not> i))]) \<or>
        represents (node_store (c (\<not> i)))
          (b @ [(users x i, messages x i), (users x (\<not> i), messages x (\<not> i))]))"
    using post_represents [OF assms(4)] post_represents [OF assms(4), of "\<not> i"]
    by (intro exI [of _ i]) (auto simp: g(1) stages_def run_state_def)
qed

section \<open>Properties\<close>


definition example_user :: "bool \<Rightarrow> bytes" where
  "example_user i = (if i then ''ann'' else ''bob'')"

definition example_message :: "bool \<Rightarrow> bytes" where
  "example_message i = (if i then ''hi'' else ''yo'')"

lemma example_words:
  "wire_ok (example_user i) WRITE (example_message i)" "good_entry (example_user i, example_message i)"
  "length (line_of (int (length ([] :: board))) (example_user i) (example_message i)) < 254"
  "length (line_of (int (length ([] :: board)) + 1) (example_user i) (example_message i)) < 254"
  by (cases i; simp add: example_user_def example_message_def wire_ok_def word_def;
      simp add: line_of_def to_string_nonneg nat_to_string_digit)+


end
