(* ===== verification/Concurrent_Board.thy ===== *)
theory Concurrent_Board
  imports Commit_Contract
begin

text \<open>
  Many threads at work on one bulletin board file. The operations of \<open>file-operations.cpp\<close> are
  split at the points where another thread may run: the checks a command makes before it asks
  for the lock, the steps of the lock, and, inside it, every system call and every access to
  \<open>message_number\<close>; a reader scans the file through a descriptor with an offset, one line at a
  time. The development then shows that the lock makes the operations of the other theories
  the right ones: every interleaving has the answers and the effect of running them one after
  the other.
\<close>

section \<open>Operations one at a time\<close>

datatype operation =
    Write bytes bytes        \<comment> \<open>user, message\<close>
  | Replace bytes bytes      \<comment> \<open>user, \<open>number/message\<close>\<close>
  | Read int

definition reads :: "operation \<Rightarrow> bool" where
  "reads op \<longleftrightarrow> (case op of Read _ \<Rightarrow> True | _ \<Rightarrow> False)"

definition run_operation :: "operation \<Rightarrow> store \<Rightarrow> (bytes \<times> store) run" where
  \<comment> \<open>a client's command on this node alone: the answer and the new state\<close>
  "run_operation op st = (case op of
     Write user message \<Rightarrow>
       bind_run (writeOperation user message False Undo_Nothing st) (\<lambda>(r, _, st'). ret (r, st'))
   | Replace user argument \<Rightarrow>
       bind_run (areReplaceArgumentsValid argument st) (\<lambda>(valid, msg).
         if \<not> valid then ret (msg, st)
         else bind_run (replaceOperation user argument False Undo_Nothing st) (\<lambda>(r, _, st'). ret (r, st')))
   | Read n \<Rightarrow> readMessageFromFile n st)"

fun replay :: "(operation \<times> bytes) list \<Rightarrow> store \<Rightarrow> store run" where
  \<comment> \<open>the operations one after the other; a fault when an answer is not the recorded one\<close>
  "replay [] st = ret st"
| "replay ((op, r) # h) st =
     bind_run (run_operation op st) (\<lambda>(r', st'). if r' = r then replay h st' else crash Assertion_Failed)"

section \<open>Threads\<close>

datatype job =
    No_Job
  | Checked operation                    \<comment> \<open>the checks outside the lock were passed\<close>
  | Entered operation                    \<comment> \<open>inside the lock\<close>
  | Sized bytes bytes int                \<comment> \<open>WRITE, with \<open>fileSizeBeforeWrite\<close>\<close>
  | Appended bytes bytes nat             \<comment> \<open>WRITE, with the position \<open>write\<close> appended at\<close>
  | Looked_Up bytes bytes "bytes \<times> bytes" \<comment> \<open>REPLACE, with the old user and message\<close>
  | Scanning int nat bytes "bytes option" int
      \<comment> \<open>READ: number, offset of the descriptor, \<open>temp\<close>, its copy once a line is in it, \<open>k\<close>\<close>
  | Done operation bytes                 \<comment> \<open>the answer is ready, the lock not yet released\<close>

record board_system =
  lock :: lock_state
  board :: store                         \<comment> \<open>its own lock counters are not used\<close>
  jobs :: "job list"
  history :: "(nat \<times> operation \<times> bytes) list"  \<comment> \<open>thread, operation, answer, as they took effect\<close>
  answers :: "(nat \<times> operation \<times> bytes) list"  \<comment> \<open>as they were handed to the clients\<close>

definition precheck :: "operation \<Rightarrow> store \<Rightarrow> bytes option run" where
  \<comment> \<open>the answer of an operation that does not get to the lock\<close>
  "precheck op st = (case op of
     Write _ _ \<Rightarrow>
       ret (if \<not> writable (board_file st)
            then Some (createMessage 32 ''ERROR WRITE'' ''bbfile currently unavailable'' True) else None)
   | Replace _ argument \<Rightarrow>
       bind_run (areReplaceArgumentsValid argument st) (\<lambda>(valid, msg).
         ret (if \<not> valid then Some msg
              else if \<not> (readable (board_file st) \<and> writable (board_file st))
              then Some (createMessage 32 ''ERROR WRITE'' ''bbfile is currently unavailable'' True) else None))
   | Read n \<Rightarrow>
       ret (if \<not> (n < message_number st \<and> n \<ge> 0)
            then Some (sendMessageToSocket 21 UNKNOWN
                   (snprintf 255 (to_string n @ [SP] @ ''The given message-number does not exist.'')))
            else if \<not> readable (board_file st)
            then Some (sendMessageToSocket 22 ''ERROR READ'' ''bbfile currently unavailable'') else None))"

definition replace_target :: "bytes \<Rightarrow> int run" where
  "replace_target argument =
     bind_run (vector_at (tokenize (convertStringToCharArray argument) [SLASH]) 0) stoi"

definition replace_text :: "bytes \<Rightarrow> bytes run" where
  "replace_text argument = vector_at (tokenize (convertStringToCharArray argument) [SLASH]) 1"

definition put_job :: "nat \<Rightarrow> job \<Rightarrow> board_system \<Rightarrow> board_system" where
  "put_job t j s = s\<lparr>jobs := (jobs s)[t := j]\<rparr>"

definition took_effect :: "nat \<Rightarrow> operation \<Rightarrow> bytes \<Rightarrow> board_system \<Rightarrow> board_system" where
  "took_effect t op r s = s\<lparr>history := history s @ [(t, op, r)]\<rparr>"

definition answer :: "nat \<Rightarrow> operation \<Rightarrow> bytes \<Rightarrow> board_system \<Rightarrow> board_system" where
  "answer t op r s = s\<lparr>answers := answers s @ [(t, op, r)]\<rparr>"

definition ask_lock :: "nat \<Rightarrow> operation \<Rightarrow> lock_state \<Rightarrow> lock_state" where
  \<comment> \<open>the first evaluation of the \<open>while\<close> condition, or one after a wake-up\<close>
  "ask_lock t op l =
     (if reads op then reader_test t l
      else if pcs l ! t = Idle then writer_arrives t l else writer_test t l)"

definition leave_lock :: "nat \<Rightarrow> operation \<Rightarrow> lock_state \<Rightarrow> lock_state" where
  "leave_lock t op l = (if reads op then reader_leaves t l else writer_leaves t l)"

definition work_pc :: "operation \<Rightarrow> lock_pc" where
  "work_pc op = (if reads op then Reading else Writing)"

definition awake_pc :: "operation \<Rightarrow> lock_pc" where
  "awake_pc op = (if reads op then R_Awake else W_Awake)"

inductive board_step :: "board_system \<Rightarrow> board_system \<Rightarrow> bool" where
  rejected: "t < length (jobs s) \<Longrightarrow> jobs s ! t = No_Job \<Longrightarrow> precheck op (board s) = ret (Some r) \<Longrightarrow>
    board_step s (answer t op r (took_effect t op r s))"
| checked: "t < length (jobs s) \<Longrightarrow> jobs s ! t = No_Job \<Longrightarrow> precheck op (board s) = ret None \<Longrightarrow>
    board_step s (put_job t (Checked op) s)"
| asks: "t < length (jobs s) \<Longrightarrow> jobs s ! t = Checked op \<Longrightarrow>
    pcs (lock s) ! t = Idle \<or> pcs (lock s) ! t = awake_pc op \<Longrightarrow> l = ask_lock t op (lock s) \<Longrightarrow>
    board_step s (put_job t (if pcs l ! t = work_pc op then Entered op else Checked op) (s\<lparr>lock := l\<rparr>))"
| sizes: "t < length (jobs s) \<Longrightarrow> jobs s ! t = Entered (Write u m) \<Longrightarrow>
    board_step s (put_job t (Sized u m (getBulletinBoardFileSize (board s))) s)"
| appends: "t < length (jobs s) \<Longrightarrow> jobs s ! t = Sized u m k \<Longrightarrow>
    board_step s (put_job t (Appended u m (length (content (board_file (board s)))))
      (s\<lparr>board := edit_board (\<lambda>c. c @ message_line (message_number (board s)) u m) (board s)\<rparr>))"
| counts: "t < length (jobs s) \<Longrightarrow> jobs s ! t = Appended u m k \<Longrightarrow>
    r = createMessage 30 ''WROTE'' (to_string (message_number (board s))) True \<Longrightarrow>
    board_step s (put_job t (Done (Write u m) r) (took_effect t (Write u m) r
      (s\<lparr>board := (board s)\<lparr>message_number := message_number (board s) + 1\<rparr>\<rparr>)))"
| looks_up: "t < length (jobs s) \<Longrightarrow> jobs s ! t = Entered (Replace u a) \<Longrightarrow> replace_target a = ret n \<Longrightarrow>
    getMessageNumberInfo (board_file (board s)) n = ret old \<Longrightarrow>
    board_step s (put_job t (Looked_Up u a old) s)"
| replaces: "t < length (jobs s) \<Longrightarrow> jobs s ! t = Looked_Up u a old \<Longrightarrow> replace_target a = ret n \<Longrightarrow>
    replace_text a = ret m \<Longrightarrow> optimalReplaceAlgorithm (board_file (board s)) u n m = ret f \<Longrightarrow>
    r = createMessage 30 ''WROTE'' (to_string n) True \<Longrightarrow>
    board_step s (put_job t (Done (Replace u a) r) (took_effect t (Replace u a) r
      (s\<lparr>board := put_board_file f (board s)\<rparr>)))"
| opens: "t < length (jobs s) \<Longrightarrow> jobs s ! t = Entered (Read n) \<Longrightarrow>
    board_step s (put_job t (Scanning n 0 (replicate 256 NUL) None 0) s)"
| scans: "t < length (jobs s) \<Longrightarrow> jobs s ! t = Scanning n off temp stored k \<Longrightarrow>
    readline (File_In (drop off (content (board_file (board s))))) temp 255 = ret (len, temp', d) \<Longrightarrow>
    len \<noteq> recv_nodata \<Longrightarrow> k \<noteq> n \<Longrightarrow>
    board_step s (put_job t (Scanning n (length (content (board_file (board s))) - pending_input d) temp'
      (if 0 \<le> len then Some temp' else stored) (k + 1)) s)"
| found: "t < length (jobs s) \<Longrightarrow> jobs s ! t = Scanning n off temp stored k \<Longrightarrow>
    readline (File_In (drop off (content (board_file (board s))))) temp 255 = ret (len, temp', d) \<Longrightarrow>
    line = (if len = recv_nodata \<or> len < 0 then stored else Some temp') \<Longrightarrow>
    len = recv_nodata \<or> k = n \<Longrightarrow> line = Some text \<Longrightarrow>
    r = sendMessageToSocket 20 ''MESSAGE'' (blank_first_slash (cstr text)) \<Longrightarrow>
    board_step s (put_job t (Done (Read n) r) (took_effect t (Read n) r s))"
| leaves: "t < length (jobs s) \<Longrightarrow> jobs s ! t = Done op r \<Longrightarrow> pcs (lock s) ! t = work_pc op \<Longrightarrow>
    board_step s (put_job t No_Job (answer t op r (s\<lparr>lock := leave_lock t op (lock s)\<rparr>)))"
| wakes: "t < length (pcs (lock s)) \<Longrightarrow> pcs (lock s) ! t = W_Asleep \<or> pcs (lock s) ! t = R_Asleep \<Longrightarrow>
    board_step s (s\<lparr>lock := (lock s)\<lparr>pcs := (pcs (lock s))[t := wake (pcs (lock s) ! t)]\<rparr>\<rparr>)"

inductive_cases board_stepE: "board_step s s'"

definition board_init :: "nat \<Rightarrow> store \<Rightarrow> board_system \<Rightarrow> bool" where
  "board_init n st s \<longleftrightarrow> s = \<lparr>lock = \<lparr>shared = initial_access, pcs = replicate n Idle\<rparr>, board = st,
     jobs = replicate n No_Job, history = [], answers = []\<rparr>"

section \<open>What holds for a thread at work\<close>

fun job_ok :: "store \<Rightarrow> lock_pc \<Rightarrow> job \<Rightarrow> bool" where
  "job_ok b p No_Job \<longleftrightarrow> p = Idle"
| "job_ok b p (Checked op) \<longleftrightarrow> (p = Idle \<or> wake p = awake_pc op) \<and> precheck op b = ret None"
| "job_ok b p (Entered op) \<longleftrightarrow> p = work_pc op \<and> precheck op b = ret None"
| "job_ok b p (Sized u m k) \<longleftrightarrow> p = Writing \<and> writable (board_file b)"
| "job_ok b p (Appended u m k) \<longleftrightarrow> p = Writing \<and> writable (board_file b) \<and>
     content (board_file b) = take k (content (board_file b)) @ message_line (message_number b) u m"
| "job_ok b p (Looked_Up u a old) \<longleftrightarrow> p = Writing \<and> precheck (Replace u a) b = ret None \<and>
     (\<exists>n. replace_target a = ret n \<and> getMessageNumberInfo (board_file b) n = ret old)"
| "job_ok b p (Scanning n off temp stored k) \<longleftrightarrow> p = Reading \<and> precheck (Read n) b = ret None \<and>
     read_loop (File_In (drop off (content (board_file b)))) temp stored n k =
     read_loop (File_In (content (board_file b))) (replicate 256 NUL) None n 0"
| "job_ok b p (Done op r) \<longleftrightarrow> p = work_pc op"

definition grown :: "store \<Rightarrow> store \<Rightarrow> bool" where
  \<comment> \<open>what threads outside the lock can rely on\<close>
  "grown b b' \<longleftrightarrow> message_number b \<le> message_number b' \<and>
     readable (board_file b') = readable (board_file b) \<and> writable (board_file b') = writable (board_file b)"

lemma grown_refl [simp]: "grown b b"
  by (simp add: grown_def)

lemma precheck_passed:
  "precheck (Write u m) b = ret None \<longleftrightarrow> writable (board_file b)"
  "precheck (Replace u a) b = ret None \<longleftrightarrow>
     (\<exists>msg. areReplaceArgumentsValid a b = ret (True, msg)) \<and> readable (board_file b) \<and> writable (board_file b)"
  "precheck (Read n) b = ret None \<longleftrightarrow> 0 \<le> n \<and> n < message_number b \<and> readable (board_file b)"
  by (auto simp: precheck_def bind_run_ret_iff split: if_splits)

lemma areReplaceArgumentsValid_grown:
  "areReplaceArgumentsValid a b = ret (True, msg) \<Longrightarrow> message_number b \<le> message_number b' \<Longrightarrow>
   areReplaceArgumentsValid a b' = ret (True, msg)"
  by (auto simp: areReplaceArgumentsValid_def Let_def bind_run_ret_iff split: if_splits)
     (metis order_trans)

lemma precheck_grown:
  "precheck op b = ret None \<Longrightarrow> grown b b' \<Longrightarrow> precheck op b' = ret None"
  by (cases op) (auto simp: precheck_passed grown_def intro: areReplaceArgumentsValid_grown)

lemma precheck_cong:
  assumes "message_number b' = message_number b" "readable (board_file b') = readable (board_file b)"
    "writable (board_file b') = writable (board_file b)"
  shows "precheck op b' = precheck op b"
  unfolding precheck_def areReplaceArgumentsValid_def assms by (rule refl)

lemma pc_simps [simp]:
  "work_pc op \<noteq> Idle" "inside (work_pc op)" "awake_pc op \<noteq> Idle" "\<not> inside (awake_pc op)"
  "work_pc op \<noteq> awake_pc op" "wake (work_pc op) = work_pc op" "wake (awake_pc op) = awake_pc op"
  by (simp_all add: work_pc_def awake_pc_def inside_def)

lemma inside_awake: "wake p = awake_pc op \<Longrightarrow> \<not> inside p"
  using inside_wake [of p] by simp

lemma wake_wake [simp]: "wake (wake p) = wake p"
  by (cases p) auto

lemma job_ok_wake: "job_ok b p j \<Longrightarrow> job_ok b (wake p) j"
  by (cases j) auto

lemma job_ok_outside:
  "job_ok b p j \<Longrightarrow> \<not> inside p \<Longrightarrow> grown b b' \<Longrightarrow> job_ok b' p j"
  by (cases j) (auto simp: precheck_grown inside_def)

definition jobs_ok :: "board_system \<Rightarrow> bool" where
  "jobs_ok s \<longleftrightarrow> length (pcs (lock s)) = length (jobs s) \<and>
     (\<forall>i < length (jobs s). job_ok (board s) (pcs (lock s) ! i) (jobs s ! i))"

lemma jobs_frame:
  assumes "jobs_ok s" "t < length (jobs s)" "length ps = length (jobs s)"
    and "\<And>i. i < length (jobs s) \<Longrightarrow> i \<noteq> t \<Longrightarrow> ps ! i = pcs (lock s) ! i \<or> ps ! i = wake (pcs (lock s) ! i)"
    and "b = board s \<or> grown (board s) b \<and>
          (\<forall>i < length (jobs s). i \<noteq> t \<longrightarrow> \<not> inside (pcs (lock s) ! i))"
    and "job_ok b (ps ! t) j"
    and "pcs (lock s') = ps" "board s' = b" "jobs s' = (jobs s)[t := j]"
  shows "jobs_ok s'"
proof -
  have "job_ok b (ps ! i) (jobs s ! i)" if i: "i < length (jobs s)" "i \<noteq> t" for i
  proof -
    have ok: "job_ok (board s) (pcs (lock s) ! i) (jobs s ! i)" using assms(1) i(1) by (simp add: jobs_ok_def)
    then have "job_ok b (pcs (lock s) ! i) (jobs s ! i)" using assms(5) i by (auto intro: job_ok_outside)
    then show ?thesis using assms(4) [OF i] by (auto intro: job_ok_wake)
  qed
  then show ?thesis
    using assms(2,3,6) by (auto simp: jobs_ok_def assms(7-9) nth_list_update)
qed

section \<open>The lock under the operations\<close>

lemma ask_lock_step:
  assumes "t < length (pcs l)" "pcs l ! t = Idle \<or> pcs l ! t = awake_pc op"
  shows "lock_step l (ask_lock t op l)"
  using assms
  by (auto simp: ask_lock_def awake_pc_def intro: lock_step.intros split: if_splits)

lemma ask_lock_pcs:
  assumes "t < length (pcs l)"
  shows "\<exists>p. pcs (ask_lock t op l) = (pcs l)[t := p] \<and> (p = work_pc op \<or> p \<noteq> work_pc op \<and> wake p = awake_pc op)"
  using assms
  by (auto simp: ask_lock_def reader_test_def writer_arrives_def writer_test_def work_pc_def awake_pc_def)

lemma leave_lock_step:
  "t < length (pcs l) \<Longrightarrow> pcs l ! t = work_pc op \<Longrightarrow> lock_step l (leave_lock t op l)"
  by (auto simp: leave_lock_def work_pc_def intro: lock_step.intros split: if_splits)

lemma leave_lock_pcs:
  assumes "t < length (pcs l)" "i < length (pcs l)"
  shows "pcs (leave_lock t op l) ! t = Idle"
    and "i \<noteq> t \<Longrightarrow> pcs (leave_lock t op l) ! i = pcs l ! i \<or> pcs (leave_lock t op l) ! i = wake (pcs l ! i)"
  using assms
  by (auto simp: leave_lock_def reader_leaves_def writer_leaves_def broadcast_def Let_def)

lemma board_step_lock: 
  assumes "board_step s s'" "jobs_ok s"
  shows "lock s' = lock s \<or> lock_step (lock s) (lock s')"
  using assms(1)
  by (cases rule: board_step.cases)
     (use assms(2) in \<open>auto simp: put_job_def answer_def took_effect_def jobs_ok_def
        intro: ask_lock_step leave_lock_step lock_step.spurious\<close>)

section \<open>Every step keeps the threads in order\<close>

lemma job_at: "jobs_ok s \<Longrightarrow> t < length (jobs s) \<Longrightarrow> job_ok (board s) (pcs (lock s) ! t) (jobs s ! t)"
  by (simp add: jobs_ok_def)

lemma jobs_ok_log [simp]:
  "jobs_ok (answer t op r s) = jobs_ok s" "jobs_ok (took_effect t op r s) = jobs_ok s"
  "jobs_ok (put_job i j (answer t op r s)) = jobs_ok (put_job i j s)"
  "jobs_ok (put_job i j (took_effect t op r s)) = jobs_ok (put_job i j s)"
  by (simp_all add: jobs_ok_def answer_def took_effect_def put_job_def)

lemma log_fields [simp]:
  "lock (answer t op r s) = lock s" "board (answer t op r s) = board s" "jobs (answer t op r s) = jobs s"
  "lock (took_effect t op r s) = lock s" "board (took_effect t op r s) = board s"
  "jobs (took_effect t op r s) = jobs s"
  "lock (put_job t j s) = lock s" "board (put_job t j s) = board s" "jobs (put_job t j s) = (jobs s)[t := j]"
  "history (answer t op r s) = history s" "answers (took_effect t op r s) = answers s"
  "history (put_job t j s) = history s" "answers (put_job t j s) = answers s"
  "history (took_effect t op r s) = history s @ [(t, op, r)]" "answers (answer t op r s) = answers s @ [(t, op, r)]"
  by (simp_all add: answer_def took_effect_def put_job_def)

lemma jobs_put:
  "jobs_ok s \<Longrightarrow> t < length (jobs s) \<Longrightarrow> job_ok (board s) (pcs (lock s) ! t) j \<Longrightarrow> jobs_ok (put_job t j s)"
  by (simp add: jobs_ok_def nth_list_update)

lemma jobs_write:
  assumes "jobs_ok s" "t < length (jobs s)" "lock_inv (lock s)" "pcs (lock s) ! t = Writing"
    and "grown (board s) b" "job_ok b Writing j"
  shows "jobs_ok (put_job t j (s\<lparr>board := b\<rparr>))"
proof (rule jobs_frame [OF assms(1,2)])
  show "length (pcs (lock s)) = length (jobs s)" using assms(1) by (simp add: jobs_ok_def)
  have "\<not> inside (pcs (lock s) ! i)" if "i < length (jobs s)" "i \<noteq> t" for i
    using lock_inv_exclusive [OF assms(3), of t i] assms(1,2,4) that by (auto simp: inside_def jobs_ok_def)
  with assms(5) show "b = board s \<or> grown (board s) b \<and>
      (\<forall>i < length (jobs s). i \<noteq> t \<longrightarrow> \<not> inside (pcs (lock s) ! i))" by blast
  show "job_ok b (pcs (lock s) ! t) j" using assms(4,6) by simp
qed simp_all

lemma jobs_asks:
  assumes "jobs_ok s" "t < length (jobs s)" "jobs s ! t = Checked op"
  defines "l \<equiv> ask_lock t op (lock s)"
  shows "jobs_ok (put_job t (if pcs l ! t = work_pc op then Entered op else Checked op) (s\<lparr>lock := l\<rparr>))"
proof -
  have t: "t < length (pcs (lock s))" using assms(1,2) by (simp add: jobs_ok_def)
  obtain p where p: "pcs l = (pcs (lock s))[t := p]" "p = work_pc op \<or> p \<noteq> work_pc op \<and> wake p = awake_pc op"
    using ask_lock_pcs [OF t, of op] by (auto simp: l_def)
  show ?thesis
  proof (rule jobs_frame [OF assms(1,2)])
    show "length (pcs l) = length (jobs s)" using assms(1) by (simp add: p(1) jobs_ok_def)
    show "board s = board s \<or> grown (board s) (board s) \<and>
      (\<forall>i < length (jobs s). i \<noteq> t \<longrightarrow> \<not> inside (pcs (lock s) ! i))" by simp
    show "job_ok (board s) (pcs l ! t) (if pcs l ! t = work_pc op then Entered op else Checked op)"
      using job_at [OF assms(1,2)] p(2) t by (auto simp: assms(3) p(1))
    show "pcs l ! i = pcs (lock s) ! i \<or> pcs l ! i = wake (pcs (lock s) ! i)"
      if "i < length (jobs s)" "i \<noteq> t" for i using that by (simp add: p(1))
  qed simp_all
qed

lemma jobs_leaves:
  assumes "jobs_ok s" "t < length (jobs s)"
  shows "jobs_ok (put_job t No_Job (s\<lparr>lock := leave_lock t op (lock s)\<rparr>))"
proof (rule jobs_frame [OF assms])
  have len: "length (pcs (lock s)) = length (jobs s)" using assms(1) by (simp add: jobs_ok_def)
  show "length (pcs (leave_lock t op (lock s))) = length (jobs s)"
    by (simp add: leave_lock_def reader_leaves_def writer_leaves_def Let_def len)
  show "job_ok (board s) (pcs (leave_lock t op (lock s)) ! t) No_Job"
    using leave_lock_pcs(1) assms(2) len by simp
  show "pcs (leave_lock t op (lock s)) ! i = pcs (lock s) ! i \<or>
      pcs (leave_lock t op (lock s)) ! i = wake (pcs (lock s) ! i)"
    if "i < length (jobs s)" "i \<noteq> t" for i using leave_lock_pcs(2) assms(2) len that by simp
qed simp_all

lemma jobs_wakes:
  "jobs_ok s \<Longrightarrow> i < length (pcs (lock s)) \<Longrightarrow> jobs_ok (s\<lparr>lock := (lock s)\<lparr>pcs := (pcs (lock s))[i := wake (pcs (lock s) ! i)]\<rparr>\<rparr>)"
  by (auto simp: jobs_ok_def nth_list_update intro: job_ok_wake)

lemma board_step_jobs:
  assumes "board_step s s'" "jobs_ok s" "lock_inv (lock s)"
  shows "jobs_ok s'"
  using assms(1)
proof cases
  case (scans t n off temp stored k len temp' d)
  have "job_ok (board s) (pcs (lock s) ! t) (Scanning n off temp stored k)"
    using job_at [OF assms(2)] scans by metis
  moreover have "read_loop (File_In (drop off (content (board_file (board s))))) temp stored n k =
      read_loop d temp' (if 0 \<le> len then Some temp' else stored) n (k + 1)"
    using scans by (simp add: read_loop.simps [of _ temp])
  ultimately show ?thesis
    using scans readline_rest [OF scans(4)] by (auto intro!: jobs_put [OF assms(2)])
next
  case (appends t u m k)
  have "job_ok (board s) (pcs (lock s) ! t) (Sized u m k)" using job_at [OF assms(2)] appends by metis
  then show ?thesis using appends
    by (auto intro!: jobs_write [OF assms(2) _ assms(3)] simp: grown_def edit_board_def)
next
  case (counts t u m k r)
  have "job_ok (board s) (pcs (lock s) ! t) (Appended u m k)" using job_at [OF assms(2)] counts by metis
  then show ?thesis using counts
    by (auto intro!: jobs_write [OF assms(2) _ assms(3)] simp: grown_def work_pc_def reads_def)
next
  case (replaces t u a old n m f r)
  have "job_ok (board s) (pcs (lock s) ! t) (Looked_Up u a old)" using job_at [OF assms(2)] replaces by metis
  then show ?thesis
    using replaces optimalReplaceAlgorithm_access [of "board_file (board s)" u n m f]
    by (auto intro!: jobs_write [OF assms(2) _ assms(3)] simp: grown_def work_pc_def reads_def)
next
  case (asks t op l)
  then show ?thesis using jobs_asks [OF assms(2)] by simp
next
  case (leaves t op r)
  then show ?thesis using jobs_leaves [OF assms(2)] by simp
next
  case (wakes t)
  then show ?thesis using jobs_wakes [OF assms(2)] by simp
next
  case (checked t op)
  then show ?thesis using job_at [OF assms(2), of t] by (auto intro!: jobs_put [OF assms(2)])
next
  case (sizes t u m)
  then show ?thesis using job_at [OF assms(2), of t]
    by (auto intro!: jobs_put [OF assms(2)] simp: precheck_passed work_pc_def reads_def)
next
  case (looks_up t u a n old)
  then show ?thesis using job_at [OF assms(2), of t]
    by (auto intro!: jobs_put [OF assms(2)] simp: work_pc_def reads_def)
next
  case (opens t n)
  then show ?thesis using job_at [OF assms(2), of t]
    by (auto intro!: jobs_put [OF assms(2)] simp: work_pc_def reads_def)
next
  case (found t n off temp stored k len temp' d line shown r)
  then show ?thesis using job_at [OF assms(2), of t]
    by (auto intro!: jobs_put simp: assms(2) work_pc_def reads_def)
qed (simp add: assms(2))

section \<open>The sequential run behind an interleaving\<close>

text \<open>
  A WRITE takes effect when it increments the counter; a line that is in the file already does
  not count before that. No two threads are between these two steps.
\<close>

definition appended :: "job \<Rightarrow> bool" where
  "appended j \<longleftrightarrow> (case j of Appended _ _ _ \<Rightarrow> True | _ \<Rightarrow> False)"

definition settle :: "job option \<Rightarrow> store \<Rightarrow> store" where
  "settle j b = (case j of Some (Appended u m k) \<Rightarrow> edit_board (take k) b | _ \<Rightarrow> b)"

definition settled :: "board_system \<Rightarrow> store" where
  "settled s = settle (find appended (jobs s)) (board s)"

lemma appended_simps [simp]:
  "appended (Appended u m k)" "\<not> appended No_Job" "\<not> appended (Checked op)" "\<not> appended (Entered op)"
  "\<not> appended (Sized u m i)" "\<not> appended (Looked_Up u a old)" "\<not> appended (Scanning n off temp stored c)"
  "\<not> appended (Done op r)"
  by (simp_all add: appended_def)

lemma settle_simps [simp]:
  "settle None b = b" "settle (Some (Appended u m k)) b = edit_board (take k) b"
  by (simp_all add: settle_def)

lemma settle_fields [simp]:
  "message_number (settle j b) = message_number b" "access_control (settle j b) = access_control b"
  "readable (board_file (settle j b)) = readable (board_file b)"
  "writable (board_file (settle j b)) = writable (board_file b)"
  by (simp_all add: settle_def edit_board_def split: option.split job.split)

lemma find_update:
  "\<not> P (xs ! t) \<Longrightarrow> \<not> P x \<Longrightarrow> find P (xs[t := x]) = find P xs"
proof (induction xs arbitrary: t)
  case (Cons y ys)
  then show ?case by (cases t) auto
qed simp

lemma find_only:
  assumes "t < length xs" "\<And>i. i < length xs \<Longrightarrow> i \<noteq> t \<Longrightarrow> \<not> P (xs ! i)"
  shows "find P xs = (if P (xs ! t) then Some (xs ! t) else None)"
proof (cases "P (xs ! t)")
  case True
  then show ?thesis using assms by (auto simp: find_Some_iff intro!: exI [of _ t])
next
  case False
  then have "\<not> P x" if "x \<in> set xs" for x
    using that assms(2) by (metis in_set_conv_nth)
  with False show ?thesis by (auto simp: find_None_iff)
qed

lemma writer_alone:
  assumes "jobs_ok s" "lock_inv (lock s)" "t < length (jobs s)" "inside (pcs (lock s) ! t)"
    and "i < length (jobs s)" "i \<noteq> t"
  shows "\<not> appended (jobs s ! i)"
proof
  assume "appended (jobs s ! i)"
  then have "pcs (lock s) ! i = Writing"
    using job_at [OF assms(1,5)] by (auto simp: appended_def split: job.splits)
  then show False
    using lock_inv_exclusive [OF assms(2), of i t] assms(1,3-6) by (auto simp: inside_def jobs_ok_def)
qed

lemma settled_inside:
  assumes "jobs_ok s" "lock_inv (lock s)" "t < length (jobs s)" "inside (pcs (lock s) ! t)"
  shows "settled (put_job t j (s\<lparr>board := b\<rparr>)) = settle (if appended j then Some j else None) b"
    and "settled s = settle (if appended (jobs s ! t) then Some (jobs s ! t) else None) (board s)"
  using find_only [of t "(jobs s)[t := j]" appended] find_only [of t "jobs s" appended]
    writer_alone [OF assms] assms(3)
  by (simp_all add: settled_def)

lemma settled_log [simp]:
  "settled (answer t op r s) = settled s" "settled (took_effect t op r s) = settled s"
  "settled (put_job i j (took_effect t op r s)) = settled (put_job i j s)"
  "settled (put_job i j (answer t op r s)) = settled (put_job i j s)"
  "settled (s\<lparr>lock := l\<rparr>) = settled s" "settled (put_job i j (s\<lparr>lock := l\<rparr>)) = settled (put_job i j s)"
  by (simp_all add: settled_def put_job_def answer_def took_effect_def)

lemma settled_put:
  "\<not> appended (jobs s ! t) \<Longrightarrow> \<not> appended j \<Longrightarrow> settled (put_job t j s) = settled s"
  by (simp add: settled_def find_update)

section \<open>Each operation takes effect as it does alone\<close>

lemma replay_snoc: "replay (h @ [(op, r)]) st =
    bind_run (replay h st) (\<lambda>st1. bind_run (run_operation op st1)
      (\<lambda>(r', st2). if r' = r then ret st2 else crash Assertion_Failed))"
proof (induction h arbitrary: st)
  case (Cons a h)
  obtain op1 r1 where a: "a = (op1, r1)" by (cases a)
  show ?case
    by (cases "run_operation op1 st") (auto simp: a Cons.IH bind_run_def split: sum.splits)
qed (simp cong: if_cong)

lemma rejected_alone:
  "precheck op b = ret (Some r) \<Longrightarrow> run_operation op b = ret (r, b)"
  by (cases op)
     (auto simp: precheck_def run_operation_def writeOperation_def replaceOperation_def readMessageFromFile_def
        bind_run_ret_iff split: if_splits)

lemma rejected_settled:
  "precheck op (board s) = ret (Some r) \<Longrightarrow> run_operation op (settled s) = ret (r, settled s)"
  using precheck_cong [of "settled s" "board s" op] by (intro rejected_alone) (simp add: settled_def)

lemma write_alone:
  assumes "job_ok b p (Appended u m k)" "write_lock_free b"
  shows "run_operation (Write u m) (settle (Some (Appended u m k)) b) =
    ret (createMessage 30 ''WROTE'' (to_string (message_number b)) True, b\<lparr>message_number := message_number b + 1\<rparr>)"
proof -
  let ?b = "settle (Some (Appended u m k)) b"
  have "write_lock_free ?b" using assms(2) by (simp add: write_lock_free_def del: settle_simps)
  moreover have "posted u m ?b = b\<lparr>message_number := message_number b + 1\<rparr>"
    using assms(1) by (simp add: posted_def edit_board_def put_board_file_self access_commutes)
  ultimately show ?thesis
    using assms(1) writeOperation_done [of ?b u m False Undo_Nothing]
    by (simp add: run_operation_def del: settle_simps)
qed

lemma replace_alone:
  assumes "job_ok b p (Looked_Up u a old)" "write_lock_free b" "replace_target a = ret n" "replace_text a = ret m"
    and "optimalReplaceAlgorithm (board_file b) u n m = ret f"
  shows "run_operation (Replace u a) b = ret (createMessage 30 ''WROTE'' (to_string n) True, put_board_file f b)"
proof -
  obtain msg where v: "areReplaceArgumentsValid a b = ret (True, msg)" "available b"
      "getMessageNumberInfo (board_file b) n = ret old"
    using assms(1,3) by (auto simp: precheck_passed available_def)
  obtain ou om where old: "old = (ou, om)" by (cases old)
  have "replaceOperation u a False Undo_Nothing b = ret (createMessage 30 ''WROTE'' (to_string n) True,
      Undo_Replace ou n om, put_board_file f b)"
    using assms(2-5) v(2,3)
    by (simp add: replaceOperation_def available_def acquireWriteLock_free replace_target_def [symmetric]
        replace_text_def [unfolded One_nat_def, symmetric] old release_unless_held_def release_held access_commutes [symmetric])
  then show ?thesis using v(1) by (simp add: run_operation_def)
qed

lemma read_alone:
  assumes "job_ok b p (Scanning n off temp stored k)" "\<not> reader_must_wait (access_control b)"
    and "readline (File_In (drop off (content (board_file b)))) temp 255 = ret (len, temp', d)"
    and "line = (if len = recv_nodata \<or> len < 0 then stored else Some temp')"
    and "len = recv_nodata \<or> k = n" "line = Some shown"
  shows "run_operation (Read n) b = ret (sendMessageToSocket 20 ''MESSAGE'' (blank_first_slash (cstr shown)), b)"
proof -
  have "read_loop (File_In (drop off (content (board_file b)))) temp stored n k = ret line"
    using assms(3-6) by (subst read_loop.simps) auto
  with assms(1) have "read_loop (File_In (content (board_file b))) (replicate 256 NUL) None n 0 = ret line" by simp
  then show ?thesis
    using assms(1,2,6)
    by (simp add: run_operation_def readMessageFromFile_def precheck_passed open_read_def acquire_read_def
        grant_reader_def retire_reader_def)
qed

section \<open>The invariant\<close>

definition explained :: "store \<Rightarrow> board_system \<Rightarrow> bool" where
  "explained st s \<longleftrightarrow> access_control (board s) = initial_access \<and>
     replay (map snd (history s)) st = ret (settled s)"

definition pending :: "nat \<Rightarrow> job list \<Rightarrow> (nat \<times> operation \<times> bytes) list" where
  \<comment> \<open>the answer a thread has computed and not yet given\<close>
  "pending t js = (if t < length js then case js ! t of Done op r \<Rightarrow> [(t, op, r)] | _ \<Rightarrow> [] else [])"

definition of_thread :: "nat \<Rightarrow> (nat \<times> 'a) list \<Rightarrow> (nat \<times> 'a) list" where
  "of_thread t es = filter (\<lambda>e. fst e = t) es"

definition answered :: "board_system \<Rightarrow> bool" where
  "answered s \<longleftrightarrow> (\<forall>t. of_thread t (history s) = of_thread t (answers s) @ pending t (jobs s))"

lemma explained_keeps:
  "explained st s \<Longrightarrow> history s' = history s \<Longrightarrow> settled s' = settled s \<Longrightarrow>
   access_control (board s') = access_control (board s) \<Longrightarrow> explained st s'"
  by (simp add: explained_def)

lemma explained_effect:
  assumes "explained st s" "run_operation op (settled s) = ret (r, settled s')"
    and "history s' = history s @ [(t, op, r)]" "access_control (board s') = access_control (board s)"
  shows "explained st s'"
  using assms by (simp add: explained_def replay_snoc)

lemma append_then_take:
  assumes "writable (board_file b)"
  shows "edit_board (take (length (content (board_file b)))) (edit_board (\<lambda>c. c @ l) b) = b"
  using assms by (simp add: edit_board_def put_board_file_self)

lemma board_step_explained:
  assumes "board_step s s'" "jobs_ok s" "lock_inv (lock s)" "explained st s"
  shows "explained st s'"
proof -
  have free: "write_lock_free (board s)" "\<not> reader_must_wait (access_control (board s))"
    using assms(4)
    by (simp_all add: explained_def write_lock_free_def writer_must_wait_def reader_must_wait_def initial_access_def)
  show ?thesis
    using assms(1)
  proof cases
    case (rejected t op r)
    then show ?thesis using rejected_settled [OF rejected(4)]
      by (intro explained_effect [OF assms(4), of op r _ t]) simp_all
  next
    case (appends t u m k)
    then have ok: "job_ok (board s) (pcs (lock s) ! t) (Sized u m k)" using job_at [OF assms(2)] by metis
    then show ?thesis
      using appends settled_inside [OF assms(2,3) appends(2)]
      by (intro explained_keeps [OF assms(4)])
         (simp_all add: inside_def append_then_take, simp_all add: edit_board_def)
  next
    case (counts t u m k r)
    then have ok: "job_ok (board s) (pcs (lock s) ! t) (Appended u m k)" using job_at [OF assms(2)] by metis
    then show ?thesis
      using counts settled_inside [OF assms(2,3) counts(2)] write_alone [OF ok free(1)]
      by (intro explained_effect [OF assms(4), of "Write u m" r _ t]) (simp_all add: inside_def)
  next
    case (replaces t u a old n m f r)
    then have ok: "job_ok (board s) (pcs (lock s) ! t) (Looked_Up u a old)" using job_at [OF assms(2)] by metis
    then show ?thesis
      using replaces settled_inside [OF assms(2,3) replaces(2)] replace_alone [OF ok free(1) replaces(4-6)]
      by (intro explained_effect [OF assms(4), of "Replace u a" r _ t]) (simp_all add: inside_def)
  next
    case (found t n off temp stored k len temp' d line shown r)
    then have ok: "job_ok (board s) (pcs (lock s) ! t) (Scanning n off temp stored k)"
      using job_at [OF assms(2)] by metis
    then have "settled s = board s" using found settled_inside(2) [OF assms(2,3) found(2)] by (simp add: inside_def)
    then show ?thesis
      using found read_alone [OF ok free(2) found(4-7)]
      by (intro explained_effect [OF assms(4), of "Read n" r _ t]) (simp_all add: settled_put)
  next
    case (leaves t op r)
    then show ?thesis by (intro explained_keeps [OF assms(4)]) (simp_all add: settled_put)
  qed (use assms(4) in \<open>auto intro!: explained_keeps [OF assms(4)] simp: settled_put\<close>)
qed

lemma of_thread_snoc [simp]: "of_thread t (es @ [e]) = of_thread t es @ (if fst e = t then [e] else [])"
  by (simp add: of_thread_def)

lemma pending_update:
  "i < length js \<Longrightarrow> pending t (js[i := j]) = (if t = i then (case j of Done op r \<Rightarrow> [(t, op, r)] | _ \<Rightarrow> []) else pending t js)"
  by (simp add: pending_def)

lemma board_step_answered:
  assumes "board_step s s'" "answered s"
  shows "answered s'"
  using assms
  by (cases rule: board_step.cases)
     (auto simp: answered_def pending_update, auto simp: pending_def split: if_splits)

definition board_inv :: "nat \<Rightarrow> store \<Rightarrow> board_system \<Rightarrow> bool" where
  "board_inv n st s \<longleftrightarrow> length (jobs s) = n \<and> jobs_ok s \<and> lock_inv (lock s) \<and> explained st s \<and> answered s"

lemma board_step_length: "board_step s s' \<Longrightarrow> length (jobs s') = length (jobs s)"
  by (erule board_stepE) simp_all

lemma find_idle [simp]: "find appended (replicate n No_Job) = None"
  by (simp add: find_None_iff)

interpretation system: inductive_invariant
    "\<lambda>s. board_init n st s \<and> access_control st = initial_access" board_step "board_inv n st" for n st
proof
  show "board_inv n st s" if "board_init n st s \<and> access_control st = initial_access" for s
    using that
    by (auto simp: board_inv_def board_init_def jobs_ok_def explained_def answered_def of_thread_def pending_def
        settled_def lock_inv_def initial_access_def)
next
  fix s s'
  assume step: "board_step s s'" and inv: "board_inv n st s"
  then have ok: "jobs_ok s" "lock_inv (lock s)" "explained st s" "answered s" by (simp_all add: board_inv_def)
  have "lock_inv (lock s')" using board_step_lock [OF step ok(1)] ok(2) lock_step_inv by auto
  then show "board_inv n st s'"
    using inv board_step_jobs [OF step ok(1,2)] board_step_explained [OF step ok(1-3)]
      board_step_answered [OF step ok(4)] board_step_length [OF step]
    by (simp add: board_inv_def)
qed

section \<open>Properties\<close>

lemma board_inv_reach:
  assumes "reach (board_init n st) board_step s" "access_control st = initial_access"
  shows "board_inv n st s"
proof -
  have "reach (\<lambda>s. board_init n st s \<and> access_control st = initial_access) board_step s"
    using assms(1) by (induction rule: reach.induct) (auto intro: reach.intros assms(2))
  then show ?thesis by (rule system.inv_reach)
qed

text \<open>C9: operations that run at the same time are serialised by the lock. In every interleaving of
  any number of threads, the operations that have taken effect, in the order in which they did,
  give one after the other the same answers and lead to the same file and counter; every
  client has been given these answers; and when no thread is inside the lock the file is
  exactly what that sequential run leaves.\<close>

theorem interleavings_are_sequential:
  assumes "reach (board_init n st) board_step s" "access_control st = initial_access"
  shows "replay (map snd (history s)) st = ret (settled s) \<and>
    of_thread t (history s) = of_thread t (answers s) @ pending t (jobs s) \<and>
    ((\<forall>p \<in> set (pcs (lock s)). \<not> inside p) \<longrightarrow> settled s = board s)"
proof -
  have inv: "board_inv n st s" using assms by (rule board_inv_reach)
  have "settled s = board s" if out: "\<forall>p \<in> set (pcs (lock s)). \<not> inside p"
  proof -
    have "\<not> appended (jobs s ! i)" if i: "i < length (jobs s)" for i
    proof
      assume "appended (jobs s ! i)"
      moreover have "job_ok (board s) (pcs (lock s) ! i) (jobs s ! i)" "i < length (pcs (lock s))"
        using inv i by (simp_all add: board_inv_def jobs_ok_def)
      ultimately have "inside (pcs (lock s) ! i)" "pcs (lock s) ! i \<in> set (pcs (lock s))"
        by (auto simp: appended_def inside_def split: job.splits)
      then show False using out by blast
    qed
    then have "find appended (jobs s) = None" by (auto simp: find_None_iff in_set_conv_nth)
    then show ?thesis by (simp add: settled_def)
  qed
  then show ?thesis using inv by (simp add: board_inv_def explained_def answered_def)
qed

text \<open>A run for the examples: two clients write; one is inside and has appended its line, the other
  has found the lock taken.\<close>

definition example_system :: board_system where
  "example_system = \<lparr>lock = example_lock,
     board = edit_board (\<lambda>c. c @ message_line 0 ''ann'' ''hi'') (example_node []),
     jobs = [Appended ''ann'' ''hi'' 0, Checked (Write ''bob'' ''yo'')], history = [], answers = []\<rparr>"

lemma example_write_passes [simp]: "precheck (Write u m) (example_node []) = ret None"
  by (simp add: precheck_passed)

lemma example_system_reachable: "reach (board_init 2 (example_node [])) board_step example_system"
proof -
  let ?run = "reach (board_init 2 (example_node [])) board_step"
  let ?l = "\<lambda>w. \<lparr>shared = \<lparr>num_readers_active = 0, num_writers_waiting = w, writer_active = True\<rparr>,
    pcs = [Writing, if w = 0 then Idle else W_Asleep]\<rparr>"
  let ?s = "\<lambda>l a b. \<lparr>lock = l, board = example_node [], jobs = [a, b], history = [], answers = []\<rparr>"
  let ?idle = "\<lparr>shared = initial_access, pcs = [Idle, Idle]\<rparr>"
  let ?b = "Checked (Write ''bob'' ''yo'')"
  let ?a = "Write ''ann'' ''hi''"
  have r0: "?run (?s ?idle No_Job No_Job)" by (rule reach_init) (simp add: board_init_def numeral_2_eq_2)
  have r1: "board_step (?s ?idle No_Job No_Job) (?s ?idle (Checked ?a) No_Job)"
    using board_step.checked [of 0 "?s ?idle No_Job No_Job" ?a] by (simp add: put_job_def)
  have r2: "board_step (?s ?idle (Checked ?a) No_Job) (?s ?idle (Checked ?a) ?b)"
    using board_step.checked [of 1 "?s ?idle (Checked ?a) No_Job" "Write ''bob'' ''yo''"] by (simp add: put_job_def)
  have r3: "board_step (?s ?idle (Checked ?a) ?b) (?s (?l 0) (Entered ?a) ?b)"
    using board_step.asks [of 0 "?s ?idle (Checked ?a) ?b" ?a "?l 0"]
    by (simp add: put_job_def ask_lock_def reads_def writer_arrives_def writer_test_def access_defs
        initial_access_def work_pc_def)
  have r4: "board_step (?s (?l 0) (Entered ?a) ?b) (?s (?l 1) (Entered ?a) ?b)"
    using board_step.asks [of 1 "?s (?l 0) (Entered ?a) ?b" "Write ''bob'' ''yo''" "?l 1"]
    by (simp add: put_job_def ask_lock_def reads_def writer_arrives_def writer_test_def access_defs work_pc_def)
  have r5: "board_step (?s (?l 1) (Entered ?a) ?b) (?s (?l 1) (Sized ''ann'' ''hi'' 0) ?b)"
    using board_step.sizes [of 0 "?s (?l 1) (Entered ?a) ?b" "''ann''" "''hi''"]
    by (simp add: put_job_def getBulletinBoardFileSize_def board_lines_def)
  have r6: "board_step (?s (?l 1) (Sized ''ann'' ''hi'' 0) ?b) example_system"
    using board_step.appends [of 0 "?s (?l 1) (Sized ''ann'' ''hi'' 0) ?b" "''ann''" "''hi''" 0]
    by (simp add: put_job_def example_system_def example_lock_def board_lines_def)
  note s1 = reach_step [OF r0, OF r1]
  note s2 = reach_step [OF s1, OF r2]
  note s3 = reach_step [OF s2, OF r3]
  note s4 = reach_step [OF s3, OF r4]
  note s5 = reach_step [OF s4, OF r5]
  show ?thesis by (rule reach_step [OF s5, OF r6])
qed

theorem interleavings_are_sequential_witness:
  "settled example_system = example_node [] \<and> board example_system \<noteq> settled example_system"
proof -
  have "access_control (example_node []) = initial_access" by (simp add: example_node_def)
  from interleavings_are_sequential [OF example_system_reachable this, of 0]
  have "settled example_system = example_node []" by (simp add: example_system_def)
  moreover have "message_line 0 ''ann'' ''hi'' \<noteq> []" by code_simp
  then have "content (board_file (board example_system)) \<noteq> content (board_file (example_node []))"
    by (simp add: example_system_def edit_board_def)
  ultimately show ?thesis by metis
qed

text \<open>C18: at every point of the program the facts the code relies on there hold, whatever the other
  threads do: a thread is inside the lock exactly when its program counter says so, what was
  checked outside the lock is still valid inside, a WRITE finds its line at the end of the
  file, what a REPLACE looked up is still in the file, and a READ that is half way through
  the file will find what it would have found in one go.\<close>

theorem program_points_hold:
  assumes "reach (board_init n st) board_step s" "access_control st = initial_access" "t < n"
  shows "job_ok (board s) (pcs (lock s) ! t) (jobs s ! t)"
  using board_inv_reach [OF assms(1,2)] assms(3) by (simp add: board_inv_def jobs_ok_def)

theorem program_points_hold_witness:
  "content (board_file (board example_system)) =
     take 0 (content (board_file (board example_system))) @ message_line 0 ''ann'' ''hi''"
proof -
  have "access_control (example_node []) = initial_access" by (simp add: example_node_def)
  from program_points_hold [OF example_system_reachable this, of 0]
  show ?thesis by (simp add: example_system_def edit_board_def)
qed

text \<open>A later state of the run: the first client has been counted and its post has taken effect.\<close>

definition example_answer :: bytes where
  "example_answer = createMessage 30 ''WROTE'' (to_string 0) True"

definition example_posted :: board_system where
  "example_posted = put_job 0 (Done (Write ''ann'' ''hi'') example_answer)
     (took_effect 0 (Write ''ann'' ''hi'') example_answer
       (example_system\<lparr>board := (board example_system)\<lparr>message_number := 1\<rparr>\<rparr>))"

lemma example_posted_reachable: "reach (board_init 2 (example_node [])) board_step example_posted"
proof -
  have "message_number (board example_system) = 0"
    by (simp add: example_system_def edit_board_def example_node_def)
  then have "board_step example_system example_posted"
    using board_step.counts [of 0 example_system "''ann''" "''hi''" 0]
    by (simp add: example_posted_def example_answer_def example_system_def)
  then show ?thesis by (rule reach_step [OF example_system_reachable])
qed

lemma example_posted_history [simp]:
  "history example_posted = [(0, Write ''ann'' ''hi'', example_answer)]"
  by (simp add: example_posted_def example_system_def)

end
