(* ===== verification/Board_Spec.thy ===== *)
theory Board_Spec
  imports Concurrent_Board
begin

text \<open>
  The board as its clients should see it: a list of entries and a function that gives the
  answer and the new board of every command. The operations of \<open>file-operations.cpp\<close> are shown
  to implement it, one at a time and then in every interleaving of the threads of a node.
\<close>

section \<open>The specification\<close>

definition replace_parts :: "bytes \<Rightarrow> (bytes \<times> bytes) option" where
  \<comment> \<open>number and text of \<open>number/text\<close>; \<open>None\<close> for any other argument of REPLACE\<close>
  "replace_parts a =
     (let d = takeWhile (\<lambda>c. c \<noteq> SLASH) a; m = drop 1 (dropWhile (\<lambda>c. c \<noteq> SLASH) a)
      in if is_number d \<and> m \<noteq> [] \<and> SLASH \<notin> set m then Some (d, m) else None)"

fun board_spec :: "operation \<Rightarrow> board \<Rightarrow> bytes \<times> board" where
  "board_spec (Write u m) b =
     (createMessage 30 ''WROTE'' (to_string (int (length b))) True, b @ [(u, m)])"
| "board_spec (Replace u a) b = (case replace_parts a of
     None \<Rightarrow> (createMessage 32 ''ERROR WRITE''
               ''Incorrect format. Argument must be of the form msgNum/message.'' True, b)
   | Some (d, m) \<Rightarrow>
       if digits_value d < length b
       then (createMessage 30 ''WROTE'' (to_string (int (digits_value d))) True, b[digits_value d := (u, m)])
       else (createMessage 31 UNKNOWN (to_string (int (digits_value d))) True, b))"
| "board_spec (Read n) b =
     (if 0 \<le> n \<and> n < int (length b)
      then sendMessageToSocket 20 ''MESSAGE''
             (to_string n @ [SP] @ fst (b ! nat n) @ [SLASH] @ snd (b ! nat n))
      else sendMessageToSocket 21 UNKNOWN
             (snprintf 255 (to_string n @ [SP] @ ''The given message-number does not exist.'')), b)"

fun spec_run :: "(operation \<times> bytes) list \<Rightarrow> board \<Rightarrow> board option" where
  \<comment> \<open>the board after a history of commands and answers; \<open>None\<close> when an answer is wrong\<close>
  "spec_run [] b = Some b"
| "spec_run ((op, r) # h) b = (if fst (board_spec op b) = r then spec_run h (snd (board_spec op b)) else None)"

section \<open>The argument of REPLACE\<close>

lemma replace_partsD:
  assumes "replace_parts a = Some (d, m)"
  shows "a = d @ SLASH # m" "is_number d" "m \<noteq> []" "SLASH \<notin> set m"
proof -
  let ?P = "\<lambda>c. c \<noteq> SLASH"
  have d: "d = takeWhile ?P a" "m = drop 1 (dropWhile ?P a)" and ok: "is_number d" "m \<noteq> []" "SLASH \<notin> set m"
    using assms by (auto simp: replace_parts_def Let_def split: if_splits)
  from d(2) ok(2) obtain c where c: "dropWhile ?P a = c # m" by (cases "dropWhile ?P a") auto
  then have "c = SLASH" using hd_dropWhile [of ?P a] by simp
  with c d(1) show "a = d @ SLASH # m" by (metis takeWhile_dropWhile_id)
  show "is_number d" "m \<noteq> []" "SLASH \<notin> set m" by (fact ok)+
qed

lemma replace_parts_join:
  "is_number d \<Longrightarrow> m \<noteq> [] \<Longrightarrow> SLASH \<notin> set m \<Longrightarrow> replace_parts (d @ SLASH # m) = Some (d, m)"
proof -
  assume a: "is_number d" "m \<noteq> []" "SLASH \<notin> set m"
  then have "SLASH \<notin> set d" by (auto simp: is_number_iff dest: isdigit_not_special)
  then have "takeWhile (\<lambda>c. c \<noteq> SLASH) (d @ SLASH # m) = d"
    "dropWhile (\<lambda>c. c \<noteq> SLASH) (d @ SLASH # m) = SLASH # m"
    by (induction d) auto
  with a show ?thesis by (simp add: replace_parts_def)
qed

lemma tokenize_one_delimiter:
  assumes "d \<notin> set p" "d \<notin> set q" "p = [] \<or> q = []"
  shows "length (tokenize_loop (p @ d # q) [d]) \<noteq> 2"
proof -
  have none: "tokenize_loop [] [d] = []" by (simp add: tokenize_loop.simps strtok_r_def)
  have "tokenize_loop (d # q) [d] = tokenize_loop q [d]"
    by (simp add: tokenize_loop.simps [of "d # q"] tokenize_loop.simps [of q] strtok_r_def)
  moreover have "tokenize_loop x [d] = (if x = [] then [] else [x])" if "d \<notin> set x" for x
    using that tokenize_loop_join [of "[x]" d] none by simp
  moreover have "tokenize_loop (p @ [d]) [d] = [p]" if "p \<noteq> []"
    using strtok_r_head [OF that assms(1), of "[]"] by (simp add: tokenize_loop.simps [of "p @ [d]"] none)
  ultimately show ?thesis using assms by (cases "p = []") auto
qed

lemma arguments_valid:
  assumes "plain a"
  shows "areReplaceArgumentsValid a st = (case replace_parts a of
     None \<Rightarrow> ret (False, createMessage 32 ''ERROR WRITE''
                ''Incorrect format. Argument must be of the form msgNum/message.'' True)
   | Some (d, m) \<Rightarrow> bind_run (stoi d) (\<lambda>n.
       if n \<ge> message_number st \<or> n < 0 then ret (False, createMessage 31 UNKNOWN (to_string n) True)
       else ret (True, [])))"
proof (cases "replace_parts a")
  case None
  let ?ts = "tokenize (convertStringToCharArray a) [SLASH]"
  have ts: "?ts = tokenize_loop a [SLASH]" using assms by (simp add: tokenize_def plain_def)
  have "length ?ts \<noteq> 2 \<or> \<not> is_number (?ts ! 0) \<or> ?ts ! 1 = []"
    if one: "length (filter (\<lambda>c. c = SLASH) a) = 1"
  proof -
    have "filter (\<lambda>c. c = SLASH) a \<noteq> []" using one by force
    then have "SLASH \<in> set a" by (simp add: filter_empty_conv)
    then obtain p q where a: "a = p @ SLASH # q" "SLASH \<notin> set p" by (meson split_list_first)
    have "filter (\<lambda>c. c = SLASH) q = []" using one by (simp add: a(1))
    then have q: "SLASH \<notin> set q" by (auto simp: filter_empty_conv)
    show ?thesis
    proof (cases "p = [] \<or> q = []")
      case True
      then show ?thesis using tokenize_one_delimiter [OF a(2) q True] by (simp only: ts [unfolded a(1)] a(1)) simp
    next
      case False
      then have "tokenize_loop (join SLASH [p, q]) [SLASH] = [p, q]"
        using a(2) q by (intro tokenize_loop_join) auto
      moreover have "\<not> is_number p" using None replace_parts_join [of p q] False q a(1) by auto
      ultimately show ?thesis by (simp only: ts [unfolded a(1)] a(1)) simp
    qed
  qed
  then show ?thesis using None by (auto simp: areReplaceArgumentsValid_def Let_def)
next
  case (Some dm)
  then obtain d m where dm: "replace_parts a = Some (d, m)" by (cases dm) auto
  note a = replace_partsD [OF dm]
  have "tokenize (convertStringToCharArray a) [SLASH] = [d, m]"
    unfolding a(1) using a(2-4) assms by (intro replace_arguments) (auto simp: plain_def a(1))
  moreover have "SLASH \<notin> set d" using a(2) by (auto simp: is_number_iff dest: isdigit_not_special)
  then have "length (filter (\<lambda>c. c = SLASH) a) = 1"
    using a(4) by (auto simp: a(1) filter_empty_conv)
  ultimately show ?thesis using a(2,3) by (simp add: areReplaceArgumentsValid_def dm)
qed

section \<open>One operation\<close>

text \<open>
  A REPLACE looks up the text it replaces, which has to be there: a message that is nothing but
  \<open>'/'\<close> characters has none.
\<close>

definition has_text :: "bytes \<Rightarrow> bool" where
  "has_text m \<longleftrightarrow> (\<exists>c \<in> set m. c \<noteq> SLASH)"

lemma tokenize_loop_head:
  "t \<noteq> [] \<Longrightarrow> d \<notin> set t \<Longrightarrow> tokenize_loop (t @ d # s) [d] = t # tokenize_loop s [d]"
  by (simp add: tokenize_loop.simps [of "t @ d # s"] strtok_r_head)

lemma tokenize_line:
  assumes "good_entry (u, m)"
  shows "tokenize (line_of n u m) [SLASH] = to_string n # u # tokenize_loop m [SLASH]"
proof -
  have "NUL \<notin> set (line_of n u m)" using assms by (auto simp: line_of_def plain_def)
  then show ?thesis
    using assms by (simp add: tokenize_def) (simp add: line_of_def tokenize_loop_head)
qed

lemma info_result_text:
  assumes "good_entry (u, m)"
  shows "has_text m \<Longrightarrow> \<exists>x. info_result (line_of n u m) = ret (u, x)"
    and "\<not> has_text m \<Longrightarrow> info_result (line_of n u m) = crash Out_Of_Bounds"
proof -
  have "tokenize_loop m [SLASH] = [] \<longleftrightarrow> \<not> has_text m"
  proof -
    have "concat (tokenize_loop m [SLASH]) = [] \<longleftrightarrow> \<not> has_text m"
      by (auto simp: concat_tokenize_loop has_text_def filter_empty_conv)
    then show ?thesis
      using tokenize_loop_tokens [of _ m "[SLASH]"] by (cases "tokenize_loop m [SLASH]") auto
  qed
  then show "has_text m \<Longrightarrow> \<exists>x. info_result (line_of n u m) = ret (u, x)"
    "\<not> has_text m \<Longrightarrow> info_result (line_of n u m) = crash Out_Of_Bounds"
    by (auto simp: info_result_def tokenize_line [OF assms] vector_at_def)
qed

definition command_ok :: "nat \<Rightarrow> operation \<Rightarrow> bool" where
  \<comment> \<open>the words are without control characters and fit, on a board of at most \<open>k\<close> messages\<close>
  "command_ok k op \<longleftrightarrow> (case op of
     Write u m \<Rightarrow> good_entry (u, m) \<and> (\<forall>i \<le> k. length (line_of (int i) u m) < 254)
   | Replace u a \<Rightarrow> plain a \<and> u \<noteq> [] \<and> plain u \<and> SLASH \<notin> set u \<and>
       (\<forall>d m. replace_parts a = Some (d, m) \<longrightarrow> (\<forall>i \<le> k. length (line_of (int i) u m) < 255))
   | Read n \<Rightarrow> True)"

lemma run_replace:
  assumes ok: "command_ok k (Replace u a)" "length b \<le> k"
    and st: "represents st b" "available st" "write_lock_free st"
    and a: "replace_parts a = Some (d, m)" "stoi d = ret (int n)" "n < length b"
  shows "run_operation (Replace u a) st =
      bind_run (info_result (line_of (int n) (fst (b ! n)) (snd (b ! n)))) (\<lambda>_.
        ret (createMessage 30 ''WROTE'' (to_string (int n)) True, replaced (b[n := (u, m)]) st))"
    and "represents (replaced (b[n := (u, m)]) st) (b[n := (u, m)])"
    and "good_entry (b ! n)"
proof -
  have plain: "plain a" using ok(1) by (simp add: command_ok_def)
  have number: "message_number st = int (length b)" using st(1) by (simp add: represents_def)
  note parts = replace_partsD [OF a(1)]
  have "plain m" using plain parts(1) by (simp add: plain_def)
  then have entry: "good_entry (u, m)" using ok(1) parts(3) by (simp add: command_ok_def)
  have fits: "length (line_of (int n) u m) < 255" using ok a by (simp add: command_ok_def)
  have "replaceOperation u a False Undo_Nothing st =
      bind_run (info_result (line_of (int n) (fst (b ! n)) (snd (b ! n)))) (\<lambda>(ou, om).
        ret (createMessage 30 ''WROTE'' (to_string (int n)) True, Undo_Replace ou (int n) om,
             replaced (b[n := (u, m)]) st))"
    using replaceOperation_runs [OF st parts(2) a(2,3) entry parts(4) fits, of False Undo_Nothing]
    by (simp add: parts(1) [symmetric] a(3))
  then show "run_operation (Replace u a) st =
      bind_run (info_result (line_of (int n) (fst (b ! n)) (snd (b ! n)))) (\<lambda>_.
        ret (createMessage 30 ''WROTE'' (to_string (int n)) True, replaced (b[n := (u, m)]) st))"
    using a number by (simp add: run_operation_def arguments_valid [OF plain] case_prod_unfold bind_run_assoc)
  show "represents (replaced (b[n := (u, m)]) st) (b[n := (u, m)])"
    by (rule represents_replaced [OF st(1) a(3) entry fits])
  show "good_entry (b ! n)"
    using st(1) a(3) by (simp add: represents_def good_board_def list_all_length)
qed

lemma run_operation_spec:
  assumes run: "run_operation op st = ret (r, st')" and ok: "command_ok k op" "length b \<le> k"
    and st: "represents st b" "available st" "access_control st = initial_access"
  shows "r = fst (board_spec op b)" "represents st' (snd (board_spec op b))"
    and "available st'" "access_control st' = initial_access"
proof -
  have free: "write_lock_free st" "\<not> reader_must_wait (access_control st)"
    using st(3) by (simp_all add: write_lock_free_def writer_must_wait_def reader_must_wait_def initial_access_def)
  have "r = fst (board_spec op b) \<and> represents st' (snd (board_spec op b)) \<and>
    available st' \<and> access_control st' = initial_access"
  proof (cases op)
    case (Write u m)
    have "represents (posted u m st) (b @ [(u, m)])"
      using represents_posted [OF st(1)] ok by (simp add: command_ok_def Write)
    then show ?thesis
      using run st free by (auto simp: Write run_operation_def writeOperation_done available_def represents_def)
  next
    case (Read n)
    then show ?thesis
      using run st readMessageFromFile_board [OF st(1) _ free(2), of n]
      by (simp add: run_operation_def available_def)
  next
    case (Replace u a)
    have a: "plain a" using ok(1) by (simp add: command_ok_def Replace)
    have number: "message_number st = int (length b)" using st(1) by (simp add: represents_def)
    show ?thesis
    proof (cases "replace_parts a")
      case None
      then show ?thesis using run st by (simp add: Replace run_operation_def arguments_valid [OF a])
    next
      case (Some dm)
      then obtain d m where dm: "replace_parts a = Some (d, m)" by (cases dm) auto
      have d: "stoi d = ret (int (digits_value d))"
        using run replace_partsD(2) [OF dm]
        by (auto simp: Replace run_operation_def arguments_valid [OF a] dm stoi_number split: if_splits)
      show ?thesis
      proof (cases "digits_value d < length b")
        case False
        then show ?thesis
          using run st d by (simp add: Replace run_operation_def arguments_valid [OF a] dm number)
      next
        case True
        note runs = run_replace [OF ok(1) [unfolded Replace] ok(2) st(1,2) free(1) dm d True]
        have "r = createMessage 30 ''WROTE'' (to_string (int (digits_value d))) True"
          "st' = replaced (b[digits_value d := (u, m)]) st"
          using run runs(1) by (auto simp: Replace bind_run_ret_iff)
        then show ?thesis using st runs(2) True by (simp add: Replace dm available_def)
      qed
    qed
  qed
  then show "r = fst (board_spec op b)" "represents st' (snd (board_spec op b))"
    "available st'" "access_control st' = initial_access" by blast+
qed

lemma board_spec_length: "length (snd (board_spec op b)) \<le> Suc (length b)"
  by (cases op) (auto split: option.split)

lemma replay_spec:
  assumes "replay h st = ret st'" "represents st b" "available st" "access_control st = initial_access"
    and "list_all (\<lambda>e. command_ok k (fst e)) h" "length b + length h \<le> k"
  shows "\<exists>b'. spec_run h b = Some b' \<and> represents st' b' \<and> available st'"
  using assms
proof (induction h arbitrary: st b)
  case (Cons e h)
  obtain op r where e: "e = (op, r)" by (cases e)
  from Cons.prems(1) obtain st1 where op: "run_operation op st = ret (r, st1)" and rest: "replay h st1 = ret st'"
    by (auto simp: e bind_run_ret_iff split: if_splits)
  have ok: "command_ok k op" "length b \<le> k" using Cons.prems(5,6) by (simp_all add: e)
  note step = run_operation_spec [OF op ok Cons.prems(2-4)]
  have "\<exists>b'. spec_run h (snd (board_spec op b)) = Some b' \<and> represents st' b' \<and> available st'"
    using Cons.prems(5,6) board_spec_length [of op b] by (intro Cons.IH [OF rest step(2-4)]) simp_all
  then show ?case by (simp add: e step(1))
qed simp

lemma history_spec:
  assumes "reach (board_init n st) board_step s" "access_control st = initial_access"
    and "represents st b" "available st"
    and "list_all (\<lambda>e. command_ok (length b + length (history s)) (fst (snd e))) (history s)"
  shows "\<exists>b'. spec_run (map snd (history s)) b = Some b' \<and> represents (settled s) b'"
proof -
  have "replay (map snd (history s)) st = ret (settled s)"
    using board_inv_reach [OF assms(1,2)] by (simp add: board_inv_def explained_def)
  from replay_spec [OF this assms(3,4,2)] show ?thesis
    using assms(5) by (auto simp: list_all_iff)
qed

section \<open>Every interleaving\<close>

text \<open>C6: the threads of a node implement the board: however their steps interleave, every command that
  has taken effect got the answer the specification gives for it on the board as it was at that
  moment, and the file and the counter hold the board the commands make, in the order of the lock.\<close>

theorem concurrent_board_is_linearizable:
  assumes "reach (board_init n st) board_step s" "access_control st = initial_access"
    and "represents st b" "available st"
    and "list_all (\<lambda>e. command_ok (length b + length (history s)) (fst (snd e))) (history s)"
  shows "\<exists>b'. spec_run (map snd (history s)) b = Some b' \<and> represents (settled s) b'"
  using assms by (rule history_spec)

lemma short_entry_fits: "i \<le> 1 \<Longrightarrow> length (line_of (int i) ''ann'' ''hi'') < 254"
  by (cases i) (simp_all add: line_of_def to_string_def nat_to_string.simps)

lemma example_start:
  "access_control (example_node []) = initial_access" "represents (example_node []) []" "available (example_node [])"
  by (simp add: example_node_def)
    (rule example_node_represents, simp add: good_board_def board_lines_def, rule example_node_available)

theorem concurrent_board_is_linearizable_witness:
  "represents (settled example_posted) [(''ann'', ''hi'')]"
proof -
  have "list_all (\<lambda>e. command_ok (length [] + length (history example_posted)) (fst (snd e))) (history example_posted)"
    using short_entry_fits by (simp add: command_ok_def)
  from concurrent_board_is_linearizable [OF example_posted_reachable example_start this]
  show ?thesis by (simp split: if_splits)
qed

text \<open>In particular no message is lost: with posts and reads only, the board is the posts in the order
  of the lock.\<close>

definition posts :: "(nat \<times> operation \<times> bytes) list \<Rightarrow> board" where
  "posts h = concat (map (\<lambda>(t, op, r). case op of Write u m \<Rightarrow> [(u, m)] | _ \<Rightarrow> []) h)"

definition no_replace :: "(nat \<times> operation \<times> bytes) list \<Rightarrow> bool" where
  "no_replace h \<longleftrightarrow> list_all (\<lambda>(t, op, r). case op of Replace _ _ \<Rightarrow> False | _ \<Rightarrow> True) h"

lemma spec_run_posts: "spec_run (map snd h) b = Some b' \<Longrightarrow> no_replace h \<Longrightarrow> b' = b @ posts h"
proof (induction h arbitrary: b)
  case (Cons e h)
  let ?op = "fst (snd e)"
  have "spec_run (map snd h) (snd (board_spec ?op b)) = Some b'" "no_replace h"
    using Cons.prems by (auto simp: no_replace_def split: if_splits prod.splits)
  then have "b' = snd (board_spec ?op b) @ posts h" by (rule Cons.IH)
  then show ?case
    using Cons.prems(2) by (cases e, cases ?op) (auto simp: posts_def no_replace_def)
qed (simp add: posts_def)

corollary no_post_is_lost:
  assumes "reach (board_init n st) board_step s" "access_control st = initial_access"
    and "represents st b" "available st"
    and "list_all (\<lambda>e. command_ok (length b + length (history s)) (fst (snd e))) (history s)"
    and "no_replace (history s)"
  shows "represents (settled s) (b @ posts (history s))"
  using history_spec [OF assms(1-5)] spec_run_posts assms(6) by blast

section \<open>A message without text\<close>



end
