(* ===== verification/Commit_Progress.thy ===== *)
theory Commit_Progress
  imports Replication
begin

text \<open>
  When nothing fails. As long as every thread that has left the protocol has confirmed its
  commit, the transaction can still be completed: there is a run in which every peer answers
  and each of them is told to keep the operation. Together with the theory \<open>Replication\<close> this
  says that the protocol is not safe by doing nothing.
\<close>

section \<open>Unhindered states\<close>

definition unhindered :: "master \<Rightarrow> bool" where
  \<comment> \<open>no thread has given up\<close>
  "unhindered s \<longleftrightarrow> (\<forall>x. Finished x \<in> set (peer_pcs s) \<longrightarrow> x = Confirmed)"

lemma unhindered_no_recv_failed: "unhindered s \<Longrightarrow> no_recv_failed s"
  by (auto simp: unhindered_def no_recv_failed_def)

lemma unhindered_flags:
  assumes "master_inv n st user command s" "unhindered s"
  shows "\<not> shouldAbort (stats s)" "\<not> didOneOrMorePeersFailToCommit (stats s)"
  using assms by (auto simp: master_inv_def decisions_inv_def unhindered_def list_ex_iff)

fun acts :: "peer_pc \<Rightarrow> bool" where
  \<comment> \<open>the thread goes on without waiting for a message or for the other threads\<close>
  "acts (Receiving status) = False"
| "acts Ready_Asleep = False"
| "acts Commit_Asleep = False"
| "acts (Finished x) = False"
| "acts p = True"

lemma acts_iff: "acts p \<longleftrightarrow> \<not> blocked p \<and> (\<forall>status. p \<noteq> Receiving status)"
  by (cases p) auto

lemma unhindered_move:
  assumes "unhindered s" "\<forall>x. p = Finished x \<longrightarrow> x = Confirmed"
    and "peer_pcs s' = (if woken then map wake_peer (peer_pcs s) else peer_pcs s)[t := p]"
  shows "unhindered s'"
proof -
  let ?ps = "if woken then map wake_peer (peer_pcs s) else peer_pcs s"
  have "x = Confirmed" if x: "Finished x \<in> set (peer_pcs s')" for x
  proof (cases "p = Finished x")
    case True
    then show ?thesis using assms(2) by blast
  next
    case False
    then have "Finished x \<in> set ?ps"
      using x set_update_subset_insert [of ?ps t p] unfolding assms(3) by fastforce
    then have "Finished x \<in> set (peer_pcs s)" by (simp split: if_splits)
    then show ?thesis using assms(1) unfolding unhindered_def by blast
  qed
  then show ?thesis by (simp add: unhindered_def)
qed

lemma advance_progress:
  assumes "advance user command t s = ret s'" "t < length (peer_pcs s)"
  shows "(s', s) \<in> progress_order"
  using assms
  by (cases "peer_pcs s ! t")
     (auto simp: advance_def at_pc_def simp del: in_measures intro: connect_succeeds_progress ready_test_progress
        ready_decide_progress commit_test_progress commit_decide_progress operate_progress confirm_progress)

lemma receive_progress:
  assumes "receive t e s = ret s'" "at_pc s t (Receiving status)" "classify_response status e \<noteq> ret On_Other"
  shows "(s', s) \<in> progress_order"
proof -
  obtain r where r: "classify_response status e = ret r" "s' = react t status r s"
    using assms(1,2) by (auto simp: receive_def at_pc_def bind_run_ret_iff)
  show ?thesis
  proof (cases r)
    case On_Ready
    then show ?thesis
      using r assms(2) classify_response_status(1) [of status e] by (auto simp del: in_measures intro: on_ready_progress)
  next
    case On_Commit_Success
    then show ?thesis
      using r assms(2) classify_response_status(2) [of status e] by (auto simp del: in_measures intro: on_commit_success_progress)
  next
    case On_Commit_Unsuccess
    then show ?thesis
      using r(2) assms(2)
      by (intro total_rank_move [where woken = "\<not> didOneOrMorePeersFailToCommit (stats s)"])
         (auto simp: on_commit_unsuccess_def notifyThreadsToUndoCommit_def)
  next
    case On_Lost
    then show ?thesis using r(2) on_lost_progress [OF assms(2)] by simp
  next
    case On_Error
    then show ?thesis
      using r(2) assms(2) by (intro total_rank_move [where woken = False]) (auto simp: on_error_def)
  qed (use r assms(3) in simp)
qed

lemma advance_unhindered:
  assumes inv: "master_inv n st user command s" and ok: "unhindered s"
    and run: "advance user command t s = ret s'"
  shows "unhindered s'"
proof (cases "peer_pcs s ! t")
  case Starting
  then show ?thesis
    using run by (intro unhindered_move [OF ok, where woken = False and p = "Receiving PRECOMMIT_SENT"])
      (auto simp: advance_def connect_succeeds_def)
next
  case Ready_Awake
  then show ?thesis
    using run by (intro unhindered_move [OF ok, where woken = False
          and p = "if numberOfPositivePrecommitAcknowledgementsPending (stats s) > 0 \<and> \<not> shouldAbort (stats s)
                   then Ready_Asleep else Ready_Decided"])
      (auto simp: advance_def ready_test_def)
next
  case Ready_Decided
  then show ?thesis
    using run unhindered_flags [OF inv ok]
    by (intro unhindered_move [OF ok, where woken = False and p = "Receiving COMMIT_SENT"])
       (auto simp: advance_def ready_decide_def)
next
  case Commit_Awake
  then show ?thesis
    using run by (intro unhindered_move [OF ok, where woken = False
          and p = "if numberOfSuccessfulCommitAcknowledgementsPending (stats s) > 0 \<and>
                     \<not> didOneOrMorePeersFailToCommit (stats s) then Commit_Asleep else Commit_Decided"])
      (auto simp: advance_def commit_test_def)
next
  case Commit_Decided
  then show ?thesis
    using run by (intro unhindered_move [OF ok, where woken = False
          and p = "if didOneOrMorePeersFailToCommit (stats s) then Confirming else Operating"])
      (auto simp: advance_def commit_decide_def)
next
  case Operating
  then show ?thesis
    using run by (intro unhindered_move [OF ok, where woken = False and p = Confirming])
      (auto simp: advance_def operate_def bind_run_ret_iff split: if_splits)
next
  case Confirming
  then show ?thesis
    using run by (intro unhindered_move [OF ok, where woken = False and p = "Finished Confirmed"])
      (auto simp: advance_def confirm_def Let_def)
qed (use run in \<open>simp_all add: advance_def\<close>)

lemma receive_unhindered:
  assumes ok: "unhindered s" and t: "at_pc s t (Receiving status)"
    and e: "classify_response status e = ret (if status = PRECOMMIT_SENT then On_Ready else On_Commit_Success)"
    and run: "receive t e s = ret s'"
  shows "unhindered s'"
proof (cases status)
  case PRECOMMIT_SENT
  let ?n = "numberOfPositivePrecommitAcknowledgementsPending (stats s) - 1"
  from PRECOMMIT_SENT t e run show ?thesis
    by (intro unhindered_move [OF ok, where woken = "?n = 0"
          and p = "if ?n = 0 \<or> shouldAbort (stats s) then Ready_Decided else Ready_Asleep"])
       (auto simp: receive_def at_pc_def on_ready_def ready_test_def Let_def word_gt_0)
next
  case COMMIT_SENT
  let ?n = "numberOfSuccessfulCommitAcknowledgementsPending (stats s) - 1"
  from COMMIT_SENT t e run show ?thesis
    by (intro unhindered_move [OF ok, where woken = "?n = 0"
          and p = "if ?n = 0 \<or> didOneOrMorePeersFailToCommit (stats s) then Commit_Decided else Commit_Asleep"])
       (auto simp: receive_def at_pc_def on_commit_success_def commit_test_def Let_def word_gt_0)
qed

lemma advance_returns:
  assumes "master_inv n st user command s" "returns (master_operation user command st)" "acts (peer_pcs s ! t)"
  obtains s' where "advance user command t s = ret s'"
  using assms(3) operate_returns [OF assms(1,2), of t] that
  by (cases "peer_pcs s ! t") (auto simp: advance_def)

lemma unhindered_step:
  assumes inv: "master_inv n st user command s" and op: "returns (master_operation user command st)"
    and ok: "unhindered s" and t: "at_pc s t p" "\<not> blocked p"
  shows "\<exists>s'. peer_step user command s s' \<and> (s', s) \<in> progress_order \<and> unhindered s'"
proof (cases "acts p")
  case True
  then obtain s' where s': "advance user command t s = ret s'"
    using advance_returns [OF inv op, of t] t(1) by (auto simp: at_pc_def)
  show ?thesis
    using advance_step [OF s'] advance_progress [OF s'] advance_unhindered [OF inv ok s'] t(1)
    by (auto simp: at_pc_def simp del: in_measures)
next
  case False
  then obtain status where p: "p = Receiving status" using t(2) by (auto simp: acts_iff)
  obtain e where e: "classify_response status e = ret (if status = PRECOMMIT_SENT then On_Ready else On_Commit_Success)"
    using answer_ready answer_success by (cases status) auto
  then obtain s' where s': "receive t e s = ret s'" using t(1) p by (auto simp: receive_def at_pc_def)
  have "peer_step user command s s'" using receive_step [OF s'] t(1) by (simp add: at_pc_def)
  moreover have "(s', s) \<in> progress_order" using receive_progress [OF s' t(1) [unfolded p]] e by (simp split: if_splits)
  ultimately show ?thesis using receive_unhindered [OF ok t(1) [unfolded p] e s'] by blast
qed

section \<open>The end of an unhindered run\<close>

lemma unhindered_end:
  assumes inv: "master_inv n st user command s" and fin: "all_finished s" "unhindered s" and n: "0 < n"
    and op: "master_operation user command st = ret (r, un, st')" "\<not> contains ERROR r"
  shows "masterOperationCompletionMessage (stats s) = r" "master_store s = st'"
    and "i < n \<Longrightarrow> peer_pcs s ! i = Finished Confirmed"
    and "i < n \<Longrightarrow> outbox s ! i = [master_message PRECOMMIT user, master_message COMMIT command,
           master_message SUCCESS_NOOP []]"
proof -
  have len: "length (peer_pcs s) = n" using inv by (simp add: master_inv_def counters_inv_def)
  have all: "peer_pcs s ! i = Finished Confirmed" if "i < n" for i
  proof -
    have "peer_pcs s ! i \<in> set (peer_pcs s)" using that len by simp
    with fin show ?thesis unfolding all_finished_def unhindered_def by metis
  qed
  then have "Finished Confirmed \<in> set (peer_pcs s)" using n len nth_mem [of 0 "peer_pcs s"] by auto
  then have "masterOperationCompletionMessage (stats s) \<noteq> []"
    using confirmed_decided [of s] unhindered_flags [OF inv fin(2)] inv by (auto simp: master_inv_def)
  then show m: "masterOperationCompletionMessage (stats s) = r" "master_store s = st'"
    using inv op(1) by (auto simp: master_inv_def operation_inv_def)
  show "peer_pcs s ! i = Finished Confirmed" if "i < n" by (rule all [OF that])
  show "outbox s ! i = [master_message PRECOMMIT user, master_message COMMIT command,
      master_message SUCCESS_NOOP []]" if "i < n"
    using sent_expected [OF inv that] all [OF that] unhindered_flags [OF inv fin(2)] m op(2)
    by (simp add: verdict_def)
qed

lemma commit_success:
  assumes "0 < n" "n < 2 ^ 64" "reach (master_init n st) (peer_step user command) s"
    and "\<forall>x. Finished x \<in> set (peer_pcs s) \<longrightarrow> x = Confirmed"
    and "master_operation user command st = ret (r, un, st')" "\<not> contains ERROR r"
  shows "\<exists>s'. (peer_step user command)\<^sup>*\<^sup>* s s' \<and>
    masterOperationCompletionMessage (stats s') = r \<and> master_store s' = st' \<and>
    (\<forall>i < n. peer_pcs s' ! i = Finished Confirmed \<and> outbox s' ! i =
       [master_message PRECOMMIT user, master_message COMMIT command, master_message SUCCESS_NOOP []])"
proof -
  have inv: "master_inv n st user command s" using master_reach [OF assms(3,2)] .
  have op: "returns (master_operation user command st)" using assms(5) by (simp add: returns_def)
  obtain s' where s': "(peer_step user command)\<^sup>*\<^sup>* s s'" "all_finished s'" "unhindered s'"
    using finishes_while [OF assms(2) inv, of unhindered] unhindered_step [OF _ op]
      unhindered_no_recv_failed assms(4) unfolding unhindered_def by blast
  have "master_inv n st user command s'"
    using master_reach [OF reach_steps [OF s'(1) assms(3)] assms(2)] .
  from unhindered_end [OF this s'(2,3) assms(1,5,6)] s'(1) show ?thesis by blast
qed

section \<open>Properties\<close>

text \<open>A transaction in which nothing has failed yet can still be carried out, from every
  reachable state and however many peers there are: there is a way on in which every peer
  answers, the master performs the operation, and every peer is told to keep it.\<close>

theorem commit_can_succeed:
  assumes "0 < n" "n < 2 ^ 64" "reach (master_init n st) (peer_step user command) s"
    and "\<forall>x. Finished x \<in> set (peer_pcs s) \<longrightarrow> x = Confirmed"
    and "master_operation user command st = ret (r, un, st')" "\<not> contains ERROR r"
  shows "\<exists>s'. (peer_step user command)\<^sup>*\<^sup>* s s' \<and>
    masterOperationCompletionMessage (stats s') = r \<and> master_store s' = st' \<and>
    (\<forall>i < n. peer_pcs s' ! i = Finished Confirmed \<and> outbox s' ! i =
       [master_message PRECOMMIT user, master_message COMMIT command, master_message SUCCESS_NOOP []])"
  using assms by (rule commit_success)

theorem commit_can_succeed_witness:
  "\<exists>s. (peer_step ''ann'' ''WRITE hi'')\<^sup>*\<^sup>* (run_state (example_node []) 0 1 [] [Receiving COMMIT_SENT]
       [[master_message PRECOMMIT ''ann'', master_message COMMIT ''WRITE hi'']]) s \<and>
     master_store s = posted ''ann'' ''hi'' (example_node [])"
  using commit_can_succeed [OF _ _ run_to_commit [of "example_node []" "''ann''" "''WRITE hi''"] _
    example_operation example_reply] by (auto simp: run_state_def)

end
