(* ===== verification/Replicated_Board.thy ===== *)
theory Replicated_Board
  imports Board_Spec Commit_Progress
begin

text \<open>
  A group of nodes, each configured with all the others as its peers, that carries out one client
  command after the other. Each command is a full transaction of the two-phase commit: the
  threads of the master run by their steps in any interleaving, every other node runs a session
  of its slave side on the messages the master sent it. The group is shown to be one board.
\<close>

section \<open>The group\<close>

record group =
  nodes :: "store list"
  commands :: "(operation \<times> bytes) list"   \<comment> \<open>every command of a client and its answer, in order\<close>

fun command_word :: "operation \<Rightarrow> bytes" where
  "command_word (Write u m) = WRITE"
| "command_word (Replace u a) = REPLACE"
| "command_word (Read n) = READ"

fun user_of :: "operation \<Rightarrow> bytes" where
  "user_of (Write u m) = u" | "user_of (Replace u a) = u" | "user_of (Read n) = []"

fun argument_of :: "operation \<Rightarrow> bytes" where
  "argument_of (Write u m) = m" | "argument_of (Replace u a) = a" | "argument_of (Read n) = to_string n"

definition request_line :: "operation \<Rightarrow> bytes" where
  "request_line op = command_word op @ SP # argument_of op"

definition failed_answer :: "operation \<Rightarrow> bytes" where
  "failed_answer op = sendMessageToSocket 32 (joinTwoStringsWithDelimiter ERROR (command_word op) SP)
     ''Syncronization Failed''"

definition commit_answer :: "operation \<Rightarrow> master \<Rightarrow> bytes" where
  \<comment> \<open>what the client is told when all threads have been joined\<close>
  "commit_answer op final =
     (let response = masterOperationCompletionMessage (stats final)
      in if response = [] then failed_answer op else response)"

definition valid_command :: "operation \<Rightarrow> store \<Rightarrow> (bool \<times> bytes) run" where
  \<comment> \<open>the check before any write\<close>
  "valid_command op st = (case op of
     Replace u a \<Rightarrow> areReplaceArgumentsValid a st | _ \<Rightarrow> ret (True, []))"

definition delivered_to :: "nat list \<Rightarrow> store list \<Rightarrow> store list \<Rightarrow> master \<Rightarrow> bool" where
  \<comment> \<open>every peer has run its session on what the master sent it\<close>
  "delivered_to ps old new final \<longleftrightarrow>
     (\<forall>j < length ps. \<exists>s. sync_session_run (slave_events j final) (old ! (ps ! j)) = ret (True, s) \<and>
        new ! (ps ! j) = node s)"

inductive group_step :: "(nat \<Rightarrow> nat list) \<Rightarrow> group \<Rightarrow> group \<Rightarrow> bool" for peers where
  reading: "i < length (nodes g) \<Longrightarrow> readMessageFromFile n (nodes g ! i) = ret (r, st') \<Longrightarrow>
    group_step peers g (g\<lparr>nodes := (nodes g)[i := st'], commands := commands g @ [(Read n, r)]\<rparr>)"
| rejected: "i < length (nodes g) \<Longrightarrow> valid_command op (nodes g ! i) = ret (False, r) \<Longrightarrow>
    group_step peers g (g\<lparr>commands := commands g @ [(op, r)]\<rparr>)"
| alone: "i < length (nodes g) \<Longrightarrow> \<not> reads op \<Longrightarrow> peers i = [] \<Longrightarrow>
    valid_command op (nodes g ! i) = ret (True, e) \<Longrightarrow>
    perform_operation (command_word op) (user_of op) (argument_of op) False Undo_Nothing (nodes g ! i) =
      ret (r, un, st') \<Longrightarrow>
    group_step peers g (g\<lparr>nodes := (nodes g)[i := st'], commands := commands g @ [(op, r)]\<rparr>)"
| replicated: "i < length (nodes g) \<Longrightarrow> \<not> reads op \<Longrightarrow> peers i \<noteq> [] \<Longrightarrow>
    valid_command op (nodes g ! i) = ret (True, e) \<Longrightarrow>
    reach (master_init (length (peers i)) (nodes g ! i)) (peer_step (user_of op) (request_line op)) final \<Longrightarrow>
    all_finished final \<Longrightarrow>
    length new = length (nodes g) \<Longrightarrow> new ! i = master_store final \<Longrightarrow>
    delivered_to (peers i) (nodes g) new final \<Longrightarrow>
    group_step peers g (g\<lparr>nodes := new, commands := commands g @ [(op, commit_answer op final)]\<rparr>)"

definition fully_connected :: "nat \<Rightarrow> (nat \<Rightarrow> nat list) \<Rightarrow> bool" where
  \<comment> \<open>every node has all the others as its peers\<close>
  "fully_connected n peers \<longleftrightarrow> (\<forall>i < n. distinct (peers i) \<and> set (peers i) = {0..<n} - {i})"

definition group_init :: "store list \<Rightarrow> group \<Rightarrow> bool" where
  "group_init sts g \<longleftrightarrow> g = \<lparr>nodes = sts, commands = []\<rparr>"

fun group_run :: "(operation \<times> bytes) list \<Rightarrow> board \<Rightarrow> board option" where
  \<comment> \<open>the board after the commands; \<open>None\<close> when an answer is neither right nor a refusal\<close>
  "group_run [] b = Some b"
| "group_run ((op, r) # h) b =
     (if fst (board_spec op b) = r then group_run h (snd (board_spec op b))
      else if \<not> reads op \<and> r = failed_answer op then group_run h b else None)"

lemma group_run_snoc:
  "group_run (h @ [(op, r)]) b = (case group_run h b of None \<Rightarrow> None
     | Some b' \<Rightarrow> if fst (board_spec op b') = r then Some (snd (board_spec op b'))
                  else if \<not> reads op \<and> r = failed_answer op then Some b' else None)"
  by (induction h arbitrary: b) (auto split: if_splits)

section \<open>One command\<close>

definition node_ok :: "board \<Rightarrow> store \<Rightarrow> bool" where
  "node_ok b st \<longleftrightarrow> represents st b \<and> available st \<and> access_control st = initial_access"

definition group_ok :: "nat \<Rightarrow> operation \<Rightarrow> bool" where
  \<comment> \<open>the words fit into the messages of the protocol and the lines of the file\<close>
  "group_ok k op \<longleftrightarrow> command_ok k op \<and>
     (reads op \<or> wire_ok (user_of op) (command_word op) (argument_of op)) \<and>
     (case op of Write u m \<Rightarrow> SLASH \<notin> set m | _ \<Rightarrow> True)"

definition slash_free :: "board \<Rightarrow> bool" where
  \<comment> \<open>a REPLACE of such a message can be undone\<close>
  "slash_free b \<longleftrightarrow> list_all (\<lambda>e. SLASH \<notin> set (snd e)) b"

lemma node_ok_free: "node_ok b st \<Longrightarrow> write_lock_free st"
  by (simp add: node_ok_def write_lock_free_def writer_must_wait_def initial_access_def)

lemma run_keeps_node_ok:
  assumes "run_operation op st = ret (r, st')" "command_ok k op" "length b \<le> k" "node_ok b st"
  shows "r = fst (board_spec op b)" "node_ok (snd (board_spec op b)) st'"
  using run_operation_spec [OF assms(1-3)] assms(4) by (simp_all add: node_ok_def)

lemma slash_free_spec: "slash_free b \<Longrightarrow> group_ok k op \<Longrightarrow> slash_free (snd (board_spec op b))"
  by (cases op)
     (auto simp: slash_free_def group_ok_def list_all_length nth_append nth_list_update
        dest: replace_partsD split: option.splits)

lemma rejected_spec:
  assumes "valid_command op st = ret (False, r)" "command_ok k op" "represents st b"
  shows "board_spec op b = (r, b)"
proof (cases op)
  case (Replace u a)
  have "plain a" "message_number st = int (length b)"
    using assms(2,3) by (simp_all add: Replace command_ok_def represents_def)
  then show ?thesis
    using assms(1) replace_partsD(2) [of a] 
    by (auto simp: Replace valid_command_def arguments_valid bind_run_ret_iff stoi_number split: option.splits if_splits)
qed (use assms(1) in \<open>simp_all add: valid_command_def\<close>)

lemma accepted_replace:
  assumes "valid_command (Replace u a) st = ret (True, e)" "command_ok k (Replace u a)" "represents st b"
  obtains d m where "replace_parts a = Some (d, m)" "stoi d = ret (int (digits_value d))"
    "digits_value d < length b"
proof -
  have "plain a" "message_number st = int (length b)"
    using assms(2,3) by (simp_all add: command_ok_def represents_def)
  then show ?thesis
    using assms(1) replace_partsD(2) [of a]
    by (auto simp: valid_command_def arguments_valid bind_run_ret_iff stoi_number
          split: option.splits if_splits intro: that)
qed

lemma performed_run:
  assumes "\<not> reads op" "valid_command op st = ret (True, e)"
    and "perform_operation (command_word op) (user_of op) (argument_of op) False Undo_Nothing st = ret (r, un, st')"
  shows "run_operation op st = ret (r, st')"
  using assms by (cases op) (simp_all add: run_operation_def perform_operation_def valid_command_def reads_def)

lemma not_failed:
  assumes "valid_command op st = ret (True, e)" "\<not> reads op" "command_ok k op" "represents st b"
  shows "fst (board_spec op b) \<noteq> failed_answer op"
proof -
  have "contains ERROR (failed_answer op)"
    using assms(2) by (cases op)
      (simp_all add: failed_answer_def reads_def sendMessageToSocket_def joinTwoStringsWithDelimiter_def fmt_codes snprintf_def cstr_def)
  moreover have "\<not> contains ERROR (fst (board_spec op b))"
  proof (cases op)
    case (Replace u a)
    obtain d m where "replace_parts a = Some (d, m)" "digits_value d < length b"
      using accepted_replace assms(1,3,4) unfolding Replace by blast
    then show ?thesis by (simp add: Replace reply_wrote_no_error)
  qed (use assms(2) in \<open>simp_all add: reply_wrote_no_error reads_def\<close>)
  ultimately show ?thesis by metis
qed

lemma accepted_ready:
  assumes "valid_command (Replace u a) st = ret (True, e)" "group_ok k (Replace u a)" "length b \<le> k"
    and "slash_free b" "node_ok b st"
  obtains d m where "a = d @ SLASH # m" "replace_parts a = Some (d, m)" "digits_value d < length b"
    "\<And>pst. node_ok b pst \<Longrightarrow> replace_ready b (digits_value d) d u m pst"
    "\<And>pst. node_ok b pst \<Longrightarrow> node_ok (b[digits_value d := (u, m)]) (replaced (b[digits_value d := (u, m)]) pst)"
proof -
  have c: "command_ok k (Replace u a)" and st: "represents st b"
    using assms(2,5) by (simp_all add: group_ok_def node_ok_def)
  obtain d m where dm: "replace_parts a = Some (d, m)" "stoi d = ret (int (digits_value d))" "digits_value d < length b"
    by (rule accepted_replace [OF assms(1) c st])
  note parts = replace_partsD [OF dm(1)]
  have new: "good_entry (u, m)" "length (line_of (int (digits_value d)) u m) < 255"
    using c dm parts assms(3) by (simp_all add: command_ok_def plain_def)
  have old: "SLASH \<notin> set (snd (b ! digits_value d))" using assms(4) dm(3) by (simp add: slash_free_def list_all_length)
  show thesis
  proof (rule that [OF parts(1) dm(1,3)])
    fix pst
    assume pst: "node_ok b pst"
    then have "represents pst b" "available pst" "access_control pst = initial_access" by (simp_all add: node_ok_def)
    with node_ok_free [OF pst] dm parts new old represents_replaced [OF _ dm(3) new]
    show "replace_ready b (digits_value d) d u m pst"
      "node_ok (b[digits_value d := (u, m)]) (replaced (b[digits_value d := (u, m)]) pst)"
      by (simp_all add: replace_ready_def node_ok_def available_def)
  qed
qed

lemma replica_follows_spec:
  assumes inv: "master_inv n st (user_of op) (request_line op) s" "j < n" "peer_pcs s ! j = Finished x"
    and op: "\<not> reads op" "valid_command op st = ret (True, e)" "group_ok k op" "length b \<le> k" "slash_free b"
    and ok: "node_ok b st" "node_ok b pst"
  shows "\<exists>s'. sync_session_run (slave_events j s) pst = ret (True, s') \<and>
    (if masterOperationCompletionMessage (stats s) = [] then node s' = pst \<and> master_store s = st
     else node_ok (snd (board_spec op b)) (node s'))"
proof -
  have wire: "wire_ok (user_of op) (command_word op) (argument_of op)" and c: "command_ok k op"
    using op by (simp_all add: group_ok_def)
  show ?thesis
  proof (cases op)
    case (Write u m)
    have "available st" "write_lock_free st" "available pst" "write_lock_free pst"
      using ok node_ok_free by (simp_all add: node_ok_def)
    moreover have "node_ok (b @ [(u, m)]) (posted u m pst)"
      using represents_posted [of pst b u m] ok(2) op(4) c by (simp add: node_ok_def Write command_ok_def available_def)
    ultimately show ?thesis
      using write_commit.replica_follows [of n st u m s j x pst] inv wire
      by (fastforce simp: Write request_line_def split: if_splits)
  next
    case (Replace u a)
    obtain d m where dm: "a = d @ SLASH # m" "replace_parts a = Some (d, m)" "digits_value d < length b"
      "\<And>pst. node_ok b pst \<Longrightarrow> replace_ready b (digits_value d) d u m pst"
      "\<And>pst. node_ok b pst \<Longrightarrow> node_ok (b[digits_value d := (u, m)]) (replaced (b[digits_value d := (u, m)]) pst)"
      using accepted_ready [of u a st e k b] op ok(1) unfolding Replace by blast
    then show ?thesis
      using replace_commit.replica_follows [of n st u d m s j x b "digits_value d" pst] inv wire ok
      by (fastforce simp: Replace request_line_def split: if_splits)
  qed (use op(1) in \<open>simp add: reads_def\<close>)
qed

lemma operation_succeeds:
  assumes "\<not> reads op" "valid_command op st = ret (True, e)" "group_ok k op" "length b \<le> k" "slash_free b" "node_ok b st"
  shows "\<exists>r un st'. perform_operation (command_word op) (user_of op) (argument_of op) False Undo_Nothing st =
    ret (r, un, st') \<and> \<not> contains ERROR r"
proof (cases op)
  case (Write u m)
  have "available st \<and> write_lock_free st" using assms(6) node_ok_free [OF assms(6)] by (simp add: node_ok_def)
  from write_op.op_commits [OF this, where u = u and m = m and hold = False and un = Undo_Nothing]
  show ?thesis by (elim exE conjE) (simp add: Write perform_operation_def)
next
  case (Replace u a)
  show ?thesis
  proof (rule accepted_ready [OF assms(2,3) [unfolded Replace] assms(4-6)])
    fix d m
    assume a: "a = d @ SLASH # m" and ready: "\<And>pst. node_ok b pst \<Longrightarrow> replace_ready b (digits_value d) d u m pst"
    from replace_op.op_commits [OF ready [OF assms(6)], where hold = False and un = Undo_Nothing]
    show ?thesis by (elim exE conjE) (simp add: Replace a perform_operation_def)
  qed
qed (use assms(1) in \<open>simp add: reads_def\<close>)

section \<open>The invariant of the group\<close>

definition group_inv :: "board \<Rightarrow> nat \<Rightarrow> group \<Rightarrow> bool" where
  "group_inv b0 n g \<longleftrightarrow> length (nodes g) = n \<and>
     (\<exists>b. group_run (commands g) b0 = Some b \<and> slash_free b \<and>
        length b \<le> length b0 + length (commands g) \<and> list_all (node_ok b) (nodes g))"

lemma group_invI:
  assumes "group_run (commands g) b0 = Some b" "length (nodes g) = n"
    and "commands g' = commands g @ [(op, r)]" "length (nodes g') = n"
    and "slash_free b" "length b \<le> length b0 + length (commands g)" "group_ok k op"
    and "r = fst (board_spec op b) \<and> list_all (node_ok (snd (board_spec op b))) (nodes g') \<or>
      \<not> reads op \<and> r = failed_answer op \<and> fst (board_spec op b) \<noteq> r \<and> list_all (node_ok b) (nodes g')"
  shows "group_inv b0 n g'"
  using assms board_spec_length [of op b] slash_free_spec [of b k op]
  by (auto simp: group_inv_def group_run_snoc)

lemma node_of_group:
  assumes "fully_connected n peers" "i < n" "p < n" "p \<noteq> i"
  obtains j where "j < length (peers i)" "peers i ! j = p"
  using assms that by (auto simp: fully_connected_def in_set_conv_nth set_eq_iff)

lemma no_peers:
  assumes "fully_connected n peers" "i < n" "peers i = []" shows "n = 1 \<and> i = 0"
proof -
  have "p = i" if "p < n" for p using node_of_group [OF assms(1,2) that] assms(3) by force
  from this [of 0] this [of 1] assms(2) show ?thesis by (cases n) auto
qed

lemma few_peers:
  assumes "fully_connected n peers" "n \<le> 2 ^ 64" "i < n" shows "length (peers i) < 2 ^ 64"
proof -
  have "length (peers i) = card ({0..<n} - {i})"
    using assms(1,3) distinct_card [of "peers i"] unfolding fully_connected_def by metis
  then show ?thesis using assms(2,3) by simp
qed

lemma all_finished_at: "all_finished s \<Longrightarrow> j < length (peer_pcs s) \<Longrightarrow> \<exists>x. peer_pcs s ! j = Finished x"
  by (auto simp: all_finished_def)

lemma replicated_inv:
  assumes conn: "fully_connected n peers" "n \<le> 2 ^ 64" and i: "i < n" and len: "length (nodes g) = n" "length new = n"
    and op: "\<not> reads op" "valid_command op (nodes g ! i) = ret (True, e)" "group_ok k op"
      "length b \<le> k" "slash_free b" "list_all (node_ok b) (nodes g)" and peers: "peers i \<noteq> []"
    and final: "reach (master_init (length (peers i)) (nodes g ! i)) (peer_step (user_of op) (request_line op)) final"
      "all_finished final" and new: "new ! i = master_store final" "delivered_to (peers i) (nodes g) new final"
  shows "if masterOperationCompletionMessage (stats final) = [] then list_all (node_ok b) new
    else masterOperationCompletionMessage (stats final) = fst (board_spec op b) \<and>
      list_all (node_ok (snd (board_spec op b))) new"
proof -
  let ?r = "masterOperationCompletionMessage (stats final)"
  let ?st = "nodes g ! i"
  let ?n = "length (peers i)"
  have "?n < 2 ^ 64" by (rule few_peers [OF conn i])
  then have inv: "master_inv ?n ?st (user_of op) (request_line op) final" by (rule master_reach [OF final(1)])
  then have pcs: "length (peer_pcs final) = ?n" by (simp add: master_inv_def counters_inv_def)
  have ok: "node_ok b (nodes g ! p)" if "p < n" for p using op(6) that len by (simp add: list_all_length)
  have peer: "if ?r = [] then new ! p = nodes g ! p else node_ok (snd (board_spec op b)) (new ! p)"
    if p: "p < n" "p \<noteq> i" for p
  proof -
    obtain j where j: "j < ?n" "peers i ! j = p" by (rule node_of_group [OF conn(1) i p])
    obtain x where x: "peer_pcs final ! j = Finished x" using all_finished_at [OF final(2)] pcs j by auto
    obtain s where s: "sync_session_run (slave_events j final) (nodes g ! p) = ret (True, s)" "new ! p = node s"
      using new(2) j by (auto simp: delivered_to_def)
    from replica_follows_spec [OF inv j(1) x op(1-5) ok [OF i] ok [OF p(1)]] s show ?thesis
      by (auto split: if_splits)
  qed
  have master: "if ?r = [] then master_store final = ?st
      else ?r = fst (board_spec op b) \<and> node_ok (snd (board_spec op b)) (master_store final)"
  proof (cases "?r = []")
    case True
    then show ?thesis using inv by (simp add: master_inv_def operation_inv_def)
  next
    case False
    have "wire_ok (user_of op) (command_word op) (argument_of op)" "command_ok k op"
      using op by (simp_all add: group_ok_def)
    moreover obtain un where "master_operation (user_of op) (request_line op) ?st = ret (?r, un, master_store final)"
      using False inv by (auto simp: master_inv_def operation_inv_def)
    ultimately have "run_operation op ?st = ret (?r, master_store final)"
      by (intro performed_run [OF op(1,2)]) (simp add: request_line_def wire_ok_def master_operation_words)
    with False show ?thesis using run_keeps_node_ok [OF _ \<open>command_ok k op\<close> op(4) ok [OF i]] by simp
  qed
  show ?thesis
  proof (cases "?r = []")
    case True
    have "node_ok b (new ! p)" if "p < n" for p
      using that ok [OF that] ok [OF i] peer [OF that] master new(1) True by (cases "p = i") auto
    with True len show ?thesis by (simp add: list_all_length)
  next
    case False
    have "node_ok (snd (board_spec op b)) (new ! p)" if "p < n" for p
      using that peer [OF that] master new(1) False by (cases "p = i") auto
    with False len master show ?thesis by (simp add: list_all_length)
  qed
qed

lemma group_step_inv:
  assumes "group_step peers g g'" "group_inv b0 n g" "fully_connected n peers" "n \<le> 2 ^ 64"
    and "list_all (\<lambda>e. group_ok k (fst e)) (commands g')" "length b0 + length (commands g') \<le> k"
  shows "group_inv b0 n g'"
proof -
  obtain b where len: "length (nodes g) = n" and b: "group_run (commands g) b0 = Some b" "slash_free b"
    "length b \<le> length b0 + length (commands g)" and ok: "list_all (node_ok b) (nodes g)"
    using assms(2) by (auto simp: group_inv_def)
  have at: "node_ok b (nodes g ! i)" if "i < n" for i using ok that len by (simp add: list_all_length)
  have answered: "r = fst (board_spec op b)" "node_ok (snd (board_spec op b)) st'"
    if "run_operation op (nodes g ! i) = ret (r, st')" "group_ok k op" "length b \<le> k" "i < length (nodes g)"
    for op i r st'
    using run_keeps_node_ok [OF that(1) _ that(3)] at that(2,4) len by (simp_all add: group_ok_def)
  show ?thesis
    using assms(1)
  proof cases
    case (reading i q r st')
    have g: "group_ok k (Read q)" and k: "length b \<le> k" using assms(5,6) b(3) reading by simp_all
    have "run_operation (Read q) (nodes g ! i) = ret (r, st')" using reading by (simp add: run_operation_def)
    from answered [OF this g k] reading ok show ?thesis
      using group_invI [OF b(1) len _ _ b(2,3) g, of g' r]
      by (simp add: len list_all_length nth_list_update del: board_spec.simps(3)) (simp add: list_all_length)
  next
    case (rejected i op r)
    have g: "group_ok k op" using assms(5) rejected by simp
    have "command_ok k op" "represents (nodes g ! i) b"
      using g at [of i] rejected len by (simp_all add: group_ok_def node_ok_def)
    then have "board_spec op b = (r, b)" by (rule rejected_spec [OF rejected(3)])
    then show ?thesis
      using rejected(1) ok by (intro group_invI [OF b(1) len _ _ b(2,3) g, where r = r]) (simp_all add: len rejected(2))
  next
    case (alone i op e r un st')
    have g: "group_ok k op" and k: "length b \<le> k" using assms(5,6) b(3) alone by simp_all
    have n: "n = 1" "i = 0" using no_peers [OF assms(3) _ alone(4)] alone len by auto
    have "run_operation op (nodes g ! i) = ret (r, st')" using alone by (intro performed_run)
    from answered [OF this g k] alone n len show ?thesis
      using group_invI [OF b(1) len _ _ b(2,3) g, of g' r] by (simp add: list_all_length)
  next
    case (replicated i op e final new)
    have g: "group_ok k op" and k: "length b \<le> k" using assms(5,6) b(3) replicated by simp_all
    have n: "i < n" "length new = n" using replicated len by simp_all
    have f: "fst (board_spec op b) \<noteq> failed_answer op"
      using not_failed [OF replicated(5,3), of k b] g at [OF n(1)] by (simp add: group_ok_def node_ok_def)
    from replicated_inv [OF assms(3,4) n(1) len n(2) replicated(3,5) g k b(2) ok replicated(4,6,7,9,10)] f
    show ?thesis
      using g replicated n
      using group_invI [OF b(1) len _ _ b(2,3) g, of g' "commit_answer op final"]
      by (auto simp: commit_answer_def split: if_splits)
  qed
qed

lemma group_step_commands: "group_step peers g g' \<Longrightarrow> \<exists>e. commands g' = commands g @ [e]"
  by (induction rule: group_step.induct) auto

lemma group_inv_reach:
  assumes "reach (group_init sts) (group_step peers) g" "fully_connected (length sts) peers" "length sts \<le> 2 ^ 64"
    and "list_all (node_ok b0) sts" "slash_free b0"
  shows "list_all (\<lambda>e. group_ok k (fst e)) (commands g) \<Longrightarrow> length b0 + length (commands g) \<le> k \<Longrightarrow>
    group_inv b0 (length sts) g"
  using assms(1)
proof (induction rule: reach.induct)
  case (reach_init g)
  then show ?case using assms(4,5) by (auto simp: group_init_def group_inv_def)
next
  case (reach_step g g')
  obtain e where "commands g' = commands g @ [e]" using group_step_commands [OF reach_step(2)] by blast
  then have "group_inv b0 (length sts) g" using reach_step by simp
  then show ?case using group_step_inv [OF reach_step(2) _ assms(2,3)] reach_step by blast
qed

section \<open>A command that succeeds\<close>

lemma sessions_deliver:
  assumes conn: "fully_connected n peers" "i < n" and len: "length old = n"
    and each: "\<And>j. j < length (peers i) \<Longrightarrow>
      \<exists>s. sync_session_run (slave_events j final) (old ! (peers i ! j)) = ret (True, s)"
  obtains new where "length new = n" "new ! i = master_store final" "delivered_to (peers i) old new final"
proof -
  obtain f where f: "\<And>j. j < length (peers i) \<Longrightarrow>
      sync_session_run (slave_events j final) (old ! (peers i ! j)) = ret (True, f j)"
    using each by metis
  have peers: "distinct (peers i)" "set (peers i) = {0..<n} - {i}"
    using conn by (simp_all add: fully_connected_def)
  have "\<exists>x. \<forall>j < length (peers i). peers i ! j = p \<longrightarrow> x = node (f j)" for p
  proof (cases "\<exists>j < length (peers i). peers i ! j = p")
    case True
    then obtain j where "j < length (peers i)" "peers i ! j = p" by blast
    then show ?thesis using peers(1) by (intro exI [of _ "node (f j)"]) (auto simp: nth_eq_iff_index_eq)
  qed blast
  then obtain h where h: "\<And>j. j < length (peers i) \<Longrightarrow> h (peers i ! j) = node (f j)" by metis
  let ?new = "map (\<lambda>p. if p = i then master_store final else h p) [0..<n]"
  have at: "peers i ! j < n" "peers i ! j \<noteq> i" if "j < length (peers i)" for j
    using nth_mem [OF that] peers(2) by auto
  show thesis
  proof (rule that [of ?new])
    show "delivered_to (peers i) old ?new final"
      using f h at by (auto simp: delivered_to_def)
  qed (use conn(2) in simp_all)
qed

lemma command_succeeds:
  assumes conn: "fully_connected n peers" "n \<le> 2 ^ 64" and i: "i < n" and len: "length (nodes g) = n"
    and op: "\<not> reads op" "valid_command op (nodes g ! i) = ret (True, e)" "group_ok k op"
      "length b \<le> k" "slash_free b" and ok: "list_all (node_ok b) (nodes g)"
  shows "\<exists>g'. group_step peers g g' \<and> commands g' = commands g @ [(op, fst (board_spec op b))] \<and>
    length (nodes g') = n \<and> list_all (node_ok (snd (board_spec op b))) (nodes g')"
proof -
  let ?st = "nodes g ! i" and ?n = "length (peers i)"
  have at: "node_ok b (nodes g ! p)" if "p < n" for p using ok that len by (simp add: list_all_length)
  obtain r un st' where run: "perform_operation (command_word op) (user_of op) (argument_of op) False Undo_Nothing ?st =
      ret (r, un, st')" "\<not> contains ERROR r"
    using operation_succeeds [OF op at [OF i]] by blast
  have r: "r = fst (board_spec op b)" "node_ok (snd (board_spec op b)) st'"
    using run_keeps_node_ok [OF performed_run [OF op(1,2) run(1)] _ op(4) at [OF i]] op(3)
    by (simp_all add: group_ok_def)
  show ?thesis
  proof (cases "peers i = []")
    case True
    have "n = 1" "i = 0" using no_peers [OF conn(1) i True] by simp_all
    with group_step.alone [where g = g and i = i and peers = peers, OF _ op(1) True op(2) run(1)] i len r
    show ?thesis
      by (intro exI [of _ "g\<lparr>nodes := (nodes g)[i := st'], commands := commands g @ [(op, r)]\<rparr>"])
         (simp add: list_all_length)
  next
    case False
    have wire: "wire_ok (user_of op) (command_word op) (argument_of op)" using op(1,3) by (simp add: group_ok_def)
    let ?init = "\<lparr>stats = new_statistics ?n, peer_pcs = replicate ?n Starting, outbox = replicate ?n [],
      master_store = ?st\<rparr>"
    have init: "reach (master_init ?n ?st) (peer_step (user_of op) (request_line op)) ?init"
      by (rule reach_init) (simp add: master_init_def)
    have "\<exists>final. (peer_step (user_of op) (request_line op))\<^sup>*\<^sup>* ?init final \<and>
        masterOperationCompletionMessage (stats final) = r \<and> master_store final = st' \<and>
        (\<forall>j < ?n. peer_pcs final ! j = Finished Confirmed)"
    proof -
      have "master_operation (user_of op) (request_line op) ?st = ret (r, un, st')"
        using run(1) wire by (simp add: request_line_def wire_ok_def master_operation_words)
      from commit_success [OF _ few_peers [OF conn i] init _ this run(2)] False show ?thesis by fastforce
    qed
    then obtain final where steps: "(peer_step (user_of op) (request_line op))\<^sup>*\<^sup>* ?init final"
      and final: "masterOperationCompletionMessage (stats final) = r" "master_store final = st'"
        "\<And>j. j < ?n \<Longrightarrow> peer_pcs final ! j = Finished Confirmed" by blast
    have reach: "reach (master_init ?n ?st) (peer_step (user_of op) (request_line op)) final"
      by (rule reach_steps [OF steps init])
    then have inv: "master_inv ?n ?st (user_of op) (request_line op) final"
      using few_peers [OF conn i] by (rule master_reach)
    then have "all_finished final"
      using final(3) by (auto simp: all_finished_def master_inv_def counters_inv_def in_set_conv_nth)
    have "\<exists>s. sync_session_run (slave_events j final) (nodes g ! (peers i ! j)) = ret (True, s)" if j: "j < ?n" for j
    proof -
      have "peers i ! j < n" using nth_mem [OF j] conn(1) i by (auto simp: fully_connected_def)
      from replica_follows_spec [OF inv j final(3) [OF j] op at [OF i] at [OF this]] show ?thesis by blast
    qed
    then obtain new where new: "length new = n" "new ! i = master_store final"
      "delivered_to (peers i) (nodes g) new final"
      by (rule sessions_deliver [OF conn(1) i len])
    have "r \<noteq> []" using perform_operation_ret [OF run(1)] by simp
    then have "list_all (node_ok (snd (board_spec op b))) new"
      using replicated_inv [OF conn i len new(1) op ok False reach \<open>all_finished final\<close> new(2,3)] final(1) by simp
    moreover have "commit_answer op final = fst (board_spec op b)"
      using \<open>r \<noteq> []\<close> r(1) final(1) by (simp add: commit_answer_def)
    ultimately show ?thesis
      using group_step.replicated [where g = g and i = i and peers = peers, OF _ op(1) False op(2) reach \<open>all_finished final\<close> _ new(2,3)] i len new(1)
      by (intro exI [of _ "g\<lparr>nodes := new, commands := commands g @ [(op, commit_answer op final)]\<rparr>"]) simp
  qed
qed

section \<open>Properties\<close>


definition example_peers :: "nat \<Rightarrow> nat list" where
  "example_peers i = [1 - i]"

definition example_commit :: master where
  "example_commit = run_state (posted ''ann'' ''hi'' (example_node [])) 0 0 (createMessage 30 ''WROTE'' ''0'' True)
     [Finished Confirmed] [[master_message PRECOMMIT ''ann'', master_message COMMIT ''WRITE hi'',
       master_message SUCCESS_NOOP []]]"

lemma example_pair: "fully_connected 2 example_peers"
  by (auto simp: fully_connected_def example_peers_def less_2_cases_iff)




end
