(* ===== verification/Client_Commands.thy ===== *)
theory Client_Commands
  imports Replicated_Board Board_Server
begin

text \<open>
  A command of a client, as \<open>board-server.cpp\<close> handles it, is a step of the group of replicas: the
  session of the client is where the group gets its commands from and where the answers go.
\<close>

lemma operation_words:
  "\<not> reads op \<Longrightarrow> command_word op = WRITE \<or> command_word op = REPLACE"
  by (cases op) (simp_all add: reads_def)

lemma handle_write_command:
  assumes "\<not> reads op" "user_of op = client_user c"
  shows "handle_command schedule tid ps [command_word op, argument_of op] c =
    bind_run (valid_command op (site c)) (\<lambda>(valid, e).
      if \<not> valid then ret (Continue, send_client e c)
      else bind_run (if ps = [] then local_operation (command_word op) (argument_of op) c
                     else replicated_operation schedule tid ps (command_word op) c)
             (\<lambda>c'. ret (Fall_Through, c')))"
  using assms by (cases op) (simp_all add: handle_command_def valid_command_def reads_def cong: if_cong)

lemma commit_answer_sent:
  assumes "replicated_operation schedule tid ps (command_word op) c = ret c'"
    and "faithful_schedule schedule" "length ps < 2 ^ 64" "threadIdStatsMapping c tid = None"
    and "user_of op = client_user c" "request_line op = cstr (request c)"
  obtains final where
    "reach (master_init (length ps) (site c)) (peer_step (user_of op) (request_line op)) final"
    "all_finished final" "site c' = master_store final" "sent c' = sent c @ [commit_answer op final]"
proof -
  from assms(1) obtain final m where f:
    "m = resetPeerCommunicationGlobalVars tid (length ps) (threadIdStatsMapping c)"
    "schedule (client_user c) (cstr (request c)) (commit_start tid (length ps) m (site c)) = ret final"
    "site c' = master_store final" "client_user c' = client_user c" "threadIdStatsMapping c' = m(tid := None)"
    "sent c' = sent c @ [if masterOperationCompletionMessage (stats final) = []
        then sendMessageToSocket 32 (joinTwoStringsWithDelimiter ERROR (command_word op) SP) ''Syncronization Failed''
        else masterOperationCompletionMessage (stats final)]"
    by (rule replicated_operation_cases)
  let ?s = "commit_start tid (length ps) m (site c)"
  have "master_init (length ps) (site c) ?s"
    unfolding f(1) by (rule commit_start_init [of "threadIdStatsMapping c"]) (rule assms(4))
  moreover have "(peer_step (client_user c) (cstr (request c)))\<^sup>*\<^sup>* ?s final" "all_finished final"
    using assms(2) f(2) unfolding faithful_schedule_def by blast+
  ultimately have "reach (master_init (length ps) (site c)) (peer_step (user_of op) (request_line op)) final"
    unfolding assms(5,6) by (blast intro: reach_steps reach_init)
  moreover have "sent c' = sent c @ [commit_answer op final]"
    unfolding f(6) by (simp add: commit_answer_def failed_answer_def Let_def)
  ultimately show thesis by (rule that [OF _ \<open>all_finished final\<close> f(3)])
qed

lemma client_step:
  assumes conn: "fully_connected n peers" "n \<le> 2 ^ 64" and i: "i < n" and len: "length (nodes g) = n"
    and op: "\<not> reads op" "group_ok k op" "length b \<le> k" "slash_free b" and ok: "list_all (node_ok b) (nodes g)"
    and client: "site c = nodes g ! i" "user_of op = client_user c" "request_line op = cstr (request c)"
      "threadIdStatsMapping c tid = None" "length ps = length (peers i)" and sched: "faithful_schedule schedule"
    and run: "handle_command schedule tid ps [command_word op, argument_of op] c = ret (fl, c')"
  shows "\<exists>g' r. group_step peers g g' \<and> commands g' = commands g @ [(op, r)] \<and>
    sent c' = sent c @ [r] \<and> site c' = nodes g' ! i"
proof -
  from run obtain valid e where v: "valid_command op (nodes g ! i) = ret (valid, e)"
    and rest: "(if \<not> valid then ret (Continue, send_client e c)
      else bind_run (if ps = [] then local_operation (command_word op) (argument_of op) c
                     else replicated_operation schedule tid ps (command_word op) c)
             (\<lambda>c'. ret (Fall_Through, c'))) = ret (fl, c')"
    unfolding handle_write_command [OF op(1) client(2)] client(1) by (auto simp: bind_run_ret_iff)
  have at: "node_ok b (nodes g ! p)" if "p < n" for p using ok that len by (simp add: list_all_length)
  consider "\<not> valid" | "valid" "peers i = []" | "valid" "peers i \<noteq> []" by blast
  then show ?thesis
  proof cases
    case 1
    then have "c' = send_client e c" using rest by simp
    then show ?thesis
      using group_step.rejected [where g = g and i = i and peers = peers, of op e] v 1 i len client(1)
      by (intro exI [of _ "g\<lparr>commands := commands g @ [(op, e)]\<rparr>"] exI [of _ e]) simp
  next
    case 2
    then have "ps = []" using client(5) by simp
    with rest 2 obtain r un st' where
      p: "perform_operation (command_word op) (user_of op) (argument_of op) False Undo_Nothing (nodes g ! i) = ret (r, un, st')"
      and c': "c' = send_client r (c\<lparr>site := st'\<rparr>)"
      by (auto simp: local_operation_def bind_run_ret_iff client(1,2))
    then show ?thesis
      using group_step.alone [where g = g and i = i and peers = peers, OF _ op(1) 2(2) _ p] v 2 i len
      by (intro exI [of _ "g\<lparr>nodes := (nodes g)[i := st'], commands := commands g @ [(op, r)]\<rparr>"] exI [of _ r])
         simp
  next
    case 3
    let ?n = "length (peers i)"
    have "ps \<noteq> []" using 3 client(5) by auto
    then have "replicated_operation schedule tid ps (command_word op) c = ret c'"
      using rest 3 by (auto simp: bind_run_ret_iff)
    then obtain final where final:
      "reach (master_init ?n (nodes g ! i)) (peer_step (user_of op) (request_line op)) final"
      "all_finished final" "site c' = master_store final" "sent c' = sent c @ [commit_answer op final]"
      using commit_answer_sent [OF _ sched, of tid ps op c c'] few_peers [OF conn i] client by metis
    have inv: "master_inv ?n (nodes g ! i) (user_of op) (request_line op) final"
      using final(1) few_peers [OF conn i] by (rule master_reach)
    have "\<exists>s. sync_session_run (slave_events j final) (nodes g ! (peers i ! j)) = ret (True, s)" if j: "j < ?n" for j
    proof -
      obtain x where x: "peer_pcs final ! j = Finished x"
        using all_finished_at [OF final(2), of j] j inv by (auto simp: master_inv_def counters_inv_def)
      have "peers i ! j < n" using nth_mem [OF j] conn(1) i by (auto simp: fully_connected_def)
      moreover have "valid_command op (nodes g ! i) = ret (True, e)" using v 3(1) by simp
      ultimately show ?thesis using replica_follows_spec [OF inv j x op(1) _ op(2-4) at [OF i] at] by blast
    qed
    then obtain new where new: "length new = n" "new ! i = master_store final"
      "delivered_to (peers i) (nodes g) new final"
      by (rule sessions_deliver [OF conn(1) i len])
    then show ?thesis
      using group_step.replicated [where g = g and i = i and peers = peers, OF _ op(1) 3(2) _ final(1,2) _ new(2,3)]
        v 3(1) i len final(3,4)
      by (intro exI [of _ "g\<lparr>nodes := new, commands := commands g @ [(op, commit_answer op final)]\<rparr>"]
            exI [of _ "commit_answer op final"]) simp
  qed
qed

section \<open>Properties\<close>



end
