(* ===== verification/Message_Limits.thy ===== *)
theory Message_Limits
  imports Board_Spec Replication
begin

text \<open>
  What the two sides of the two-phase commit do with messages that are not as they expect: a message
  with too few words, a command for a message the replica does not have, and a command that does
  not fit into the buffer of 255 bytes of a protocol message.
\<close>

section \<open>Messages with too few words\<close>

lemma vector_at_short: "length xs \<le> i \<Longrightarrow> vector_at xs i = crash Out_Of_Bounds"
  and vector_at_enough: "i < length xs \<Longrightarrow> vector_at xs i = ret (xs ! i)"
  by (simp_all add: vector_at_def)

lemma reactions_return:
  "(if a then ret On_Ready else if b then ret On_Commit_Success else if c then ret On_Commit_Unsuccess
    else ret On_Other) \<noteq> crash f"
  by simp

lemma classify_crash:
  assumes "m \<noteq> []" "length m \<le> 255"
  shows "classify_response status (delivered m) = crash f \<longleftrightarrow>
    length (tokenize (m[length m - 1 := NUL]) [SP]) < 2 \<and> f = Out_Of_Bounds"
proof -
  let ?ts = "tokenize (m[length m - 1 := NUL]) [SP]"
  have c: "classify_response status (delivered m) = bind_run (vector_at ?ts 1) (\<lambda>token1.
      if token1 = READY \<and> status = PRECOMMIT_SENT then ret On_Ready
      else if token1 = COMMIT_SUCCESS \<and> status = COMMIT_SENT then ret On_Commit_Success
      else if token1 = COMMIT_UNSUCCESS \<and> status = COMMIT_SENT then ret On_Commit_Unsuccess
      else ret On_Other)"
    using assms unfolding classify_response_def by (simp add: recv_message recv_nodata_def Let_def)
  show ?thesis
  proof (cases "length ?ts < 2")
    case True
    then show ?thesis unfolding c by (auto simp: vector_at_short)
  next
    case False
    then have v: "vector_at ?ts 1 = ret (?ts ! 1)" by (intro vector_at_enough) simp
    show ?thesis using False unfolding c v bind_run_simps by (simp only: reactions_return simp_thms)
  qed
qed

lemma handle_short:
  assumes "length ts < 2" shows "handle_sync_command ts s = crash Out_Of_Bounds"
proof -
  have "vector_at ts 1 = crash Out_Of_Bounds" using assms by (intro vector_at_short) simp
  then show ?thesis unfolding handle_sync_command_def by (simp only: bind_run_simps)
qed

section \<open>A commit that does not fit\<close>

lemma sync_loop_last_byte:
  assumes "plain t" "t \<noteq> []" "length t < 255"
  shows "sync_loop (delivered (t @ [c]) # es) s = sync_loop (delivered (t @ [c']) # es) s"
  unfolding sync_loop_message [OF assms] ..

lemma commit_cut:
  assumes "word m" "237 \<le> length m"
  shows "\<exists>t c. master_message COMMIT (WRITE @ SP # m) = t @ [c] \<and>
    master_message COMMIT (WRITE @ SP # take 236 m) = t @ [LF] \<and> plain t \<and> t \<noteq> [] \<and> length t < 255"
proof -
  let ?t = "''5.0 COMMIT WRITE '' @ take 236 m"
  have m: "plain m" using assms(1) by (simp add: word_def)
  then have p: "plain (take 236 m)" by (auto simp: plain_def dest: in_set_takeD)
  have "take 237 m = take 236 m @ [m ! 236]" using take_Suc_conv_app_nth [of 236 m] assms(2) by simp
  moreover have "master_message COMMIT (WRITE @ SP # m) = ''5.0 COMMIT WRITE '' @ take 237 m"
    using m assms(2) by (simp add: master_message_def sendMessageToSocket_def fmt_codes snprintf_def)
  moreover have "master_message COMMIT (WRITE @ SP # take 236 m) = ?t @ [LF]"
    using p by (simp add: master_message_def sendMessageToSocket_def fmt_codes snprintf_def)
  moreover have "plain ?t" using p by (simp add: plain_def)
  ultimately show ?thesis using assms(2) by (intro exI [of _ ?t] exI [of _ "m ! 236"]) simp
qed

lemma session_of_cut_commit:
  assumes "word u" "length u \<le> 239" "word m" "237 \<le> length m"
  shows "sync_session_run (delivered (master_message PRECOMMIT u) #
      delivered (master_message COMMIT (WRITE @ SP # m)) # es) st =
    sync_session_run (delivered (master_message PRECOMMIT u) #
      delivered (master_message COMMIT (WRITE @ SP # take 236 m)) # es) st"
proof -
  obtain t c where t: "master_message COMMIT (WRITE @ SP # m) = t @ [c]"
    "master_message COMMIT (WRITE @ SP # take 236 m) = t @ [LF]" "plain t" "t \<noteq> []" "length t < 255"
    using commit_cut [OF assms(3,4)] by blast
  show ?thesis
    unfolding sync_session_run_def sync_loop_precommit [OF assms(1,2)] t(1,2)
      sync_loop_last_byte [OF t(3-5), of c es _ LF] ..
qed

section \<open>Properties\<close>

text \<open>C38: neither side checks how many words a message has before it looks at the second one. A
  message of one word, from whoever connects to the port of the other side, ends the process, in
  every state of a session.\<close>

theorem short_messages_are_fatal:
  assumes "plain t" "t \<noteq> []" "length t < 255" "length (tokenize t [SP]) < 2"
  shows "sync_loop (delivered (t @ [LF]) # es) s = crash Out_Of_Bounds \<and>
    classify_response status (delivered (t @ [LF])) = crash Out_Of_Bounds"
proof
  show "sync_loop (delivered (t @ [LF]) # es) s = crash Out_Of_Bounds"
    unfolding sync_loop_message [OF assms(1-3)] handle_short [OF assms(4)] bind_run_simps ..
  have "tokenize ((t @ [LF])[length (t @ [LF]) - 1 := NUL]) [SP] = tokenize t [SP]"
    using assms(1) by (simp add: list_update_append tokenize_def plain_def)
  then show "classify_response status (delivered (t @ [LF])) = crash Out_Of_Bounds"
    using assms(3,4) by (subst classify_crash) simp_all
qed

theorem short_messages_are_fatal_witness:
  "sync_loop [delivered (''hello'' @ [LF])] (new_session (example_node [])) = crash Out_Of_Bounds"
proof -
  have "plain ''hello''" "length (tokenize ''hello'' [SP]) < 2" by (simp add: plain_def, code_simp)
  then show ?thesis using short_messages_are_fatal [of "''hello''" "[]"] by simp
qed

text \<open>A replica does not check the number of a REPLACE, the master does. When a master that has
  more messages sends one that the replica does not have, the lookup of the old message runs into
  its assertion: once two boards differ in length, a valid command can end the shorter one's
  process.\<close>

theorem missing_message_is_fatal:
  assumes "represents (node s) b" "available (node s)" "write_lock_free (node s)"
    and "currentStatus s = PRECOMMIT_ACKNOWLEDGED" "is_number d" "stoi d = ret (int n)" "length b \<le> n"
    and "plain m" "m \<noteq> []" "SLASH \<notin> set m"
  shows "handle_sync_command [code, COMMIT, REPLACE, d @ SLASH # m] s = crash Assertion_Failed"
proof -
  have args: "tokenize (convertStringToCharArray (d @ SLASH # m)) [SLASH] = [d, m]"
    using assms(5,8-10) by (intro replace_arguments) (simp_all add: plain_def)
  have "getMessageNumberInfo (board_file (node s)) (int n) = crash Assertion_Failed"
    using message_info_loop_missing [of "board_lines b" "replicate 256 NUL" "int n"] assms(1,2,7)
      good_board_readable [of b]
    by (simp add: getMessageNumberInfo_def represents_def available_def open_read_def)
  then have "replaceOperation u (d @ SLASH # m) hold un (node s) = crash Assertion_Failed" for u hold un
    using assms(2) acquireWriteLock_free [OF assms(3)] assms(6)
    by (simp add: replaceOperation_def available_def args vector_at_def Let_def)
  then show ?thesis using assms(4) by (simp add: handle_sync_command_def vector_at_def perform_operation_def)
qed

theorem missing_message_is_fatal_witness:
  "handle_sync_command [''5.0'', COMMIT, REPLACE, ''7/yo''] (acknowledged ''eve'' (example_node [])) =
     crash Assertion_Failed"
proof -
  have "is_number ''7''" "stoi ''7'' = ret (int 7)" by (code_simp, code_simp)
  then show ?thesis
    using missing_message_is_fatal [of "acknowledged ''eve'' (example_node [])" "[]" "''7''" 7 "''yo''" "''5.0''"]
      example_start by (simp add: plain_def)
qed

text \<open>C11: a WRITE that fits into a line of the file may still be too long for the message that
  carries it to the peers, 254 bytes with its first words. With a text of 237 characters or more every
  replica that confirms stores the first 236 of them, the master stores all: the boards differ,
  and everyone has been told that the transaction succeeded.\<close>

theorem long_write_diverges:
  assumes "n < 2 ^ 64" "reach (master_init n st) (peer_step u (WRITE @ SP # m)) s"
    and "i < n" "peer_pcs s ! i = Finished Confirmed" "masterOperationCompletionMessage (stats s) \<noteq> []"
    and "word u" "length u \<le> 239" "word m" "237 \<le> length m"
    and "available st" "write_lock_free st" "available pst" "write_lock_free pst"
  shows "\<exists>s'. sync_session_run (slave_events i s) pst = ret (True, s') \<and>
    node s' = posted u (take 236 m) pst \<and> master_store s = posted u m st"
proof -
  let ?cmd = "WRITE @ SP # m"
  have inv: "master_inv n st u ?cmd s" using master_reach [OF assms(2,1)] .
  have c: "Finished Confirmed \<in> set (peer_pcs s)"
    using inv assms(3,4) nth_mem [of i "peer_pcs s"] by (auto simp: master_inv_def counters_inv_def)
  obtain un where "writeOperation u m False Undo_Nothing st =
      ret (masterOperationCompletionMessage (stats s), un, master_store s)"
    using inv assms(5,8) master_operation_words [of WRITE m u st]
    by (auto simp: master_inv_def operation_inv_def perform_operation_def)
  then have master: "master_store s = posted u m st"
    "masterOperationCompletionMessage (stats s) = createMessage 30 ''WROTE'' (to_string (message_number st)) True"
    using assms(10,11) by (simp_all add: writeOperation_done available_def)
  have "missing_commit s = 0" using inv assms(5) by (simp add: master_inv_def decisions_inv_def)
  then have "verdict (stats s) = SUCCESS_NOOP"
    using decisions_exclusive(2) [of s] inv reply_wrote_no_error
    by (auto simp: verdict_def master_inv_def master(2))
  then have events: "slave_events i s = [delivered (master_message PRECOMMIT u),
      delivered (master_message COMMIT ?cmd), delivered (master_message SUCCESS_NOOP [])] @ [delivered []]"
    using sent_expected [OF inv assms(3)] assms(4) by (simp add: slave_events_def)
  have wire: "wire_ok u WRITE (take 236 m)"
    using assms(6-9) by (auto simp: wire_ok_def word_def plain_def dest: in_set_takeD)
  obtain s' where s': "sync_session_run [delivered (master_message PRECOMMIT u),
      delivered (master_message COMMIT (WRITE @ SP # take 236 m)), delivered (master_message SUCCESS_NOOP [])] pst =
      ret (True, s')" "node s' = posted u (take 236 m) pst"
    using write_commit.session_outcome(1) [OF _ wire, of pst] assms(12,13) by blast
  have "sync_session_run (slave_events i s) pst = ret (True, s')"
    using sync_session_run_stops [OF s'(1), of "[delivered []]"]
      session_of_cut_commit [OF assms(6-9), of "[delivered (master_message SUCCESS_NOOP []), delivered []]" pst]
    unfolding events by (simp only: append_Cons append_Nil)
  with s'(2) master(1) show ?thesis by blast
qed

theorem long_write_diverges_witness:
  "let m = replicate 240 CHR ''x''; st = example_node [];
       s = run_state (posted ''ann'' m st) 0 0 (createMessage 30 ''WROTE'' ''0'' True) [Finished Confirmed]
         [[master_message PRECOMMIT ''ann'', master_message COMMIT (WRITE @ SP # m), master_message SUCCESS_NOOP []]]
   in \<exists>s'. sync_session_run (slave_events 0 s) st = ret (True, s') \<and>
        node s' = posted ''ann'' (replicate 236 CHR ''x'') st \<and> master_store s = posted ''ann'' m st"
proof -
  let ?m = "replicate 240 CHR ''x''" and ?st = "example_node []"
  let ?s = "run_state (posted ''ann'' ?m ?st) 0 0 (createMessage 30 ''WROTE'' ''0'' True) [Finished Confirmed]
    [[master_message PRECOMMIT ''ann'', master_message COMMIT (WRITE @ SP # ?m), master_message SUCCESS_NOOP []]]"
  have m: "word ?m" by (simp add: word_def plain_def)
  have "to_string (message_number ?st) = ''0''" by (simp add: example_node_def) code_simp
  then have "master_operation ''ann'' (WRITE @ SP # ?m) ?st =
      ret (createMessage 30 ''WROTE'' ''0'' True, Undo_Write (getBulletinBoardFileSize ?st), posted ''ann'' ?m ?st)"
    using master_operation_words [OF _ m, of WRITE "''ann''" ?st]
    by (simp add: perform_operation_def writeOperation_done)
  note run = run_to_success [OF this example_reply]
  have "\<exists>s'. sync_session_run (slave_events 0 ?s) ?st = ret (True, s') \<and>
      node s' = posted ''ann'' (take 236 ?m) ?st \<and> master_store ?s = posted ''ann'' ?m ?st"
    using m by (intro long_write_diverges [OF _ run]) (simp_all add: run_state_def word_def createMessage_nonempty)
  then show ?thesis by (simp add: Let_def)
qed

end
