(* ===== verification/Commit_Transaction.thy ===== *)
theory Commit_Transaction
  imports Crossing_Commits Replicated_Board
begin

text \<open>
  One transaction with all its parties running side by side: the threads of the master
  (\<open>peer-communication.cpp\<close>) and, on every peer, the session of a synchronisation thread
  (\<open>sync-server.cpp\<close>), coupled by the messages they exchange. The steps without a fault are
  \<open>transaction_step\<close>, \<open>failure_step\<close> has refused connections, reads that time out and connections
  that are closed, and \<open>faulty_step\<close> adds reads of the master that fail and spurious wake-ups.
\<close>

section \<open>The parties and their links\<close>

datatype slave_end =
    Listening store            \<comment> \<open>before \<open>accept\<close>\<close>
  | In_Session sync_thread
  | Served store               \<comment> \<open>the node when the connection has been closed\<close>

record peer_link =
  slave_end :: slave_end
  taken :: nat                 \<comment> \<open>messages of the master the session has read\<close>
  peer_answers :: "bytes list"      \<comment> \<open>what the session has sent\<close>
  answers_read :: nat              \<comment> \<open>how many of them the master has read\<close>

record transaction =
  coordinator :: master
  links :: "peer_link list"    \<comment> \<open>one for each peer, in the order of the threads\<close>

definition transaction_start :: "store \<Rightarrow> store list \<Rightarrow> transaction" where
  \<comment> \<open>the threads have just been created\<close>
  "transaction_start st psts =
     \<lparr>coordinator = \<lparr>stats = new_statistics (length psts), peer_pcs = replicate (length psts) Starting,
        outbox = replicate (length psts) [], master_store = st\<rparr>,
      links = map (\<lambda>pst. \<lparr>slave_end = Listening pst, taken = 0, peer_answers = [], answers_read = 0\<rparr>) psts\<rparr>"

definition session_turn :: "poll_outcome \<Rightarrow> peer_link \<Rightarrow> peer_link run" where
  \<comment> \<open>a turn of the receive loop of the slave and, when it was the last one, what follows the loop\<close>
  "session_turn e l = (case slave_end l of
     In_Session c \<Rightarrow>
       bind_run (sync_turn e c) (\<lambda>(go_on, c').
         if go_on then ret (l\<lparr>slave_end := In_Session c', peer_answers := replies (protocol c')\<rparr>)
         else bind_run (end_of_session (last_n c') (protocol c')) (\<lambda>s.
                ret (l\<lparr>slave_end := Served (node s), peer_answers := replies s\<rparr>)))
   | _ \<Rightarrow> hang)"

inductive transaction_step :: "bytes \<Rightarrow> bytes \<Rightarrow> transaction \<Rightarrow> transaction run \<Rightarrow> bool"
  for user :: bytes and command :: bytes where
  thread_goes_on: "t < length (peer_pcs (coordinator x)) \<Longrightarrow> acts (peer_pcs (coordinator x) ! t) \<Longrightarrow>
    transaction_step user command x
      (bind_run (advance user command t (coordinator x)) (\<lambda>s. ret (x\<lparr>coordinator := s\<rparr>)))"
| thread_hears: "t < length (peer_pcs (coordinator x)) \<Longrightarrow> peer_pcs (coordinator x) ! t = Receiving status \<Longrightarrow>
    l = links x ! t \<Longrightarrow> answers_read l < length (peer_answers l) \<Longrightarrow>
    transaction_step user command x
      (bind_run (receive t (delivered (peer_answers l ! answers_read l)) (coordinator x)) (\<lambda>s.
         ret (x\<lparr>coordinator := s, links := (links x)[t := l\<lparr>answers_read := answers_read l + 1\<rparr>]\<rparr>)))"
| slave_accepts: "t < length (links x) \<Longrightarrow> l = links x ! t \<Longrightarrow> slave_end l = Listening pst \<Longrightarrow>
    outbox (coordinator x) ! t \<noteq> [] \<Longrightarrow>
    transaction_step user command x
      (ret (x\<lparr>links := (links x)[t := l\<lparr>slave_end := In_Session (sync_accepted pst)\<rparr>]\<rparr>))"
| slave_hears: "t < length (links x) \<Longrightarrow> l = links x ! t \<Longrightarrow> slave_end l = In_Session c \<Longrightarrow>
    taken l < length (outbox (coordinator x) ! t) \<Longrightarrow>
    transaction_step user command x
      (bind_run (session_turn (delivered (outbox (coordinator x) ! t ! taken l)) l) (\<lambda>l'.
         ret (x\<lparr>links := (links x)[t := l'\<lparr>taken := taken l + 1\<rparr>]\<rparr>)))"

inductive failure_step :: "bytes \<Rightarrow> bytes \<Rightarrow> transaction \<Rightarrow> transaction \<Rightarrow> bool"
  \<comment> \<open>what may fail without an error of a system call\<close>
  for user :: bytes and command :: bytes where
  peer_refuses: "at_pc (coordinator x) t Starting \<Longrightarrow>
    failure_step user command x (x\<lparr>coordinator := connect_fails t (coordinator x)\<rparr>)"
| thread_times_out: "t < length (peer_pcs (coordinator x)) \<Longrightarrow>
    receive t Poll_Timeout (coordinator x) = ret s \<Longrightarrow>
    failure_step user command x (x\<lparr>coordinator := s\<rparr>)"
| thread_sees_close: "t < length (peer_pcs (coordinator x)) \<Longrightarrow> l = links x ! t \<Longrightarrow>
    slave_end l = Served pst \<Longrightarrow> answers_read l = length (peer_answers l) \<Longrightarrow>
    receive t (delivered []) (coordinator x) = ret s \<Longrightarrow>
    failure_step user command x (x\<lparr>coordinator := s\<rparr>)"
| slave_gives_up: "t < length (links x) \<Longrightarrow> l = links x ! t \<Longrightarrow> session_turn Poll_Timeout l = ret l' \<Longrightarrow>
    failure_step user command x (x\<lparr>links := (links x)[t := l']\<rparr>)"
| slave_sees_close: "t < length (links x) \<Longrightarrow> l = links x ! t \<Longrightarrow>
    at_pc (coordinator x) t (Finished o') \<Longrightarrow> taken l = length (outbox (coordinator x) ! t) \<Longrightarrow>
    session_turn (delivered []) l = ret l' \<Longrightarrow>
    failure_step user command x (x\<lparr>links := (links x)[t := l']\<rparr>)"

inductive faulty_step :: "bytes \<Rightarrow> bytes \<Rightarrow> transaction \<Rightarrow> transaction \<Rightarrow> bool"
  for user :: bytes and command :: bytes where
  no_fault: "transaction_step user command x (ret y) \<Longrightarrow> faulty_step user command x y"
| failure: "failure_step user command x y \<Longrightarrow> faulty_step user command x y"
| receive_error: "t < length (peer_pcs (coordinator x)) \<Longrightarrow> receive t Poll_Error (coordinator x) = ret s \<Longrightarrow>
    faulty_step user command x (x\<lparr>coordinator := s\<rparr>)"
| spurious_wake: "at_pc (coordinator x) t p \<Longrightarrow>
    faulty_step user command x (x\<lparr>coordinator := goto t (wake_peer p) (coordinator x)\<rparr>)"

section \<open>The answers\<close>

lemma tokenize_answer:
  "tokenize (''5.0 COMMIT_SUCCESS '' @ y) [SP] = ''5.0'' # COMMIT_SUCCESS # tokenize y [SP]"
proof -
  have "''5.0 COMMIT_SUCCESS '' @ y = ''5.0'' @ SP # COMMIT_SUCCESS @ SP # y" by simp
  then have "cstr (''5.0 COMMIT_SUCCESS '' @ y) = ''5.0'' @ SP # COMMIT_SUCCESS @ SP # cstr y"
    by (simp add: cstr_def)
  then show ?thesis
    unfolding tokenize_def
    using tokenize_loop_head [of "''5.0''" SP "COMMIT_SUCCESS @ SP # cstr y"]
      tokenize_loop_head [of COMMIT_SUCCESS SP "cstr y"] by simp
qed

lemma classify_tokens:
  assumes "msg \<noteq> []" "length msg \<le> 255" "tokenize (msg[length msg - 1 := NUL]) [SP] = token0 # token1 # rest"
  shows "classify_response status (delivered msg) =
    ret (if token1 = READY \<and> status = PRECOMMIT_SENT then On_Ready
         else if token1 = COMMIT_SUCCESS \<and> status = COMMIT_SENT then On_Commit_Success
         else if token1 = COMMIT_UNSUCCESS \<and> status = COMMIT_SENT then On_Commit_Unsuccess
         else On_Other)"
  using assms by (simp add: classify_response_def recv_message recv_nodata_def vector_at_def)

lemma classify_committed:
  "classify_response COMMIT_SENT (delivered (sendMessageToSocket 50 COMMIT_SUCCESS r)) = ret On_Commit_Success"
proof -
  obtain y where y: "sendMessageToSocket 50 COMMIT_SUCCESS r = ''5.0 COMMIT_SUCCESS '' @ y" "y \<noteq> []" "length y \<le> 235"
  proof
    show "sendMessageToSocket 50 COMMIT_SUCCESS r = ''5.0 COMMIT_SUCCESS '' @ take 235 (cstr r @ [LF])"
      by (simp add: sendMessageToSocket_def fmt_codes snprintf_def cstr_def)
  qed simp_all
  have cut: "(p @ y)[length (p @ y) - 1 := NUL] = p @ y[length y - 1 := NUL]" for p
    using y(2) by (cases y) (simp_all add: list_update_append)
  show ?thesis
    unfolding y(1)
    by (subst classify_tokens, simp, use y(3) in simp, unfold cut, rule tokenize_answer) simp
qed

section \<open>The session of a peer\<close>

definition effect_of :: "operation \<Rightarrow> board \<Rightarrow> store \<Rightarrow> store" where
  \<comment> \<open>the node after the operation\<close>
  "effect_of op b st = (case op of
     Write u m \<Rightarrow> posted u m st | Replace u a \<Rightarrow> replaced (snd (board_spec op b)) st | Read n \<Rightarrow> st)"

definition commit_ok :: "operation \<Rightarrow> board \<Rightarrow> store \<Rightarrow> bool" where
  \<comment> \<open>the board thread on the node \<open>st\<close> has let the command pass, and its words fit\<close>
  "commit_ok op b st \<longleftrightarrow> \<not> reads op \<and> (\<exists>e. valid_command op st = ret (True, e)) \<and>
     group_ok (length b) op \<and> slash_free b \<and> node_ok b st"

definition awaiting_verdict :: "operation \<Rightarrow> board \<Rightarrow> store \<Rightarrow> sync_session \<Rightarrow> bool" where
  "awaiting_verdict op b pst s \<longleftrightarrow>
     currentStatus s = AWAITING_SUCCESS_OR_UNDO_BROADCAST \<and> node s = held (effect_of op b pst) \<and>
     run_undo (undoCommitOperation s) (node s) = ret (held pst) \<and>
     (\<exists>r. replies s = [ready_reply, sendMessageToSocket 50 COMMIT_SUCCESS r])"

lemma replies_acknowledged: "replies (acknowledged u st) = [ready_reply]"
  by (simp add: acknowledged_def new_session_def reply_master_def ready_reply_def)

lemma awaiting_verdictI:
  "currentStatus s = AWAITING_SUCCESS_OR_UNDO_BROADCAST \<Longrightarrow> node s = held (effect_of op b pst) \<Longrightarrow>
   run_undo (undoCommitOperation s) (node s) = ret (held pst) \<Longrightarrow>
   replies s = replies (acknowledged u pst) @ [sendMessageToSocket 50 COMMIT_SUCCESS r] \<Longrightarrow>
   awaiting_verdict op b pst s"
  by (auto simp: awaiting_verdict_def replies_acknowledged)

lemma peer_commits:
  assumes ok: "commit_ok op b st" and pst: "node_ok b pst"
  obtains s where "handle_sync_command [''5.0'', COMMIT, command_word op, argument_of op]
      (acknowledged (user_of op) pst) = ret (False, s)" "awaiting_verdict op b pst s"
    "release_write_lock (held (effect_of op b pst)) = effect_of op b pst"
    "release_write_lock (held pst) = pst"
    "node_ok (snd (board_spec op b)) (effect_of op b pst)"
proof (cases op)
  case (Write u m)
  have free: "available pst \<and> write_lock_free pst" using pst node_ok_free by (simp add: node_ok_def)
  have "node_ok (b @ [(u, m)]) (posted u m pst)"
    using represents_posted [of pst b u m] ok pst
    by (simp add: commit_ok_def group_ok_def node_ok_def Write command_ok_def available_def)
  moreover have "release_write_lock (held (posted u m pst)) = posted u m pst" "release_write_lock (held pst) = pst"
    using write_op.release_effect [OF free] write_op.release_original [OF free]
    by (simp_all add: release_write_lock_def)
  moreover obtain s r where s: "handle_sync_command [''5.0'', COMMIT, WRITE, m] (acknowledged u pst) = ret (False, s)"
    "currentStatus s = AWAITING_SUCCESS_OR_UNDO_BROADCAST" "node s = held (posted u m pst)"
    "run_undo (undoCommitOperation s) (node s) = ret (held pst)"
    "replies s = replies (acknowledged u pst) @ [sendMessageToSocket 50 COMMIT_SUCCESS r]"
    by (rule write_commit.commit_handled [OF free])
  moreover have "awaiting_verdict op b pst s"
    by (rule awaiting_verdictI [OF s(2) _ s(4,5)]) (simp add: s(3) Write effect_of_def)
  ultimately show thesis by (intro that [of s]) (simp_all add: Write effect_of_def)
next
  case (Replace u a)
  obtain e where e: "valid_command (Replace u a) st = ret (True, e)" "group_ok (length b) (Replace u a)"
    "slash_free b" "node_ok b st"
    using ok by (auto simp: commit_ok_def Replace)
  obtain d m where dm: "a = d @ SLASH # m" "replace_parts a = Some (d, m)" "digits_value d < length b"
    "replace_ready b (digits_value d) d u m pst"
    "node_ok (b[digits_value d := (u, m)]) (replaced (b[digits_value d := (u, m)]) pst)"
    using accepted_ready [OF e(1,2) order_refl e(3,4)] pst by metis
  have spec: "snd (board_spec op b) = b[digits_value d := (u, m)]" using dm(2,3) by (simp add: Replace)
  have effect: "effect_of op b pst = replaced (b[digits_value d := (u, m)]) pst"
    using spec by (simp add: Replace effect_of_def)
  obtain s r where s: "handle_sync_command [''5.0'', COMMIT, REPLACE, d @ SLASH # m] (acknowledged u pst) = ret (False, s)"
    "currentStatus s = AWAITING_SUCCESS_OR_UNDO_BROADCAST" "node s = held (replaced (b[digits_value d := (u, m)]) pst)"
    "run_undo (undoCommitOperation s) (node s) = ret (held pst)"
    "replies s = replies (acknowledged u pst) @ [sendMessageToSocket 50 COMMIT_SUCCESS r]"
    by (rule replace_commit.commit_handled [OF dm(4)])
  show thesis
  proof (rule that)
    show "handle_sync_command [''5.0'', COMMIT, command_word op, argument_of op] (acknowledged (user_of op) pst) =
        ret (False, s)"
      unfolding Replace dm(1) using s(1) by simp
    show "awaiting_verdict op b pst s" by (rule awaiting_verdictI [OF s(2) _ s(4,5)]) (simp add: s(3) effect)
    show "release_write_lock (held (effect_of op b pst)) = effect_of op b pst" "release_write_lock (held pst) = pst"
      using replace_op.release_effect [OF dm(4)] replace_op.release_original [OF dm(4)]
      by (simp_all add: effect release_write_lock_def)
    show "node_ok (snd (board_spec op b)) (effect_of op b pst)" unfolding spec effect by (rule dm(5))
  qed
qed (use ok in \<open>simp add: commit_ok_def reads_def\<close>)

section \<open>A link\<close>

definition protocol_prefix :: "operation \<Rightarrow> bytes list \<Rightarrow> bool" where
  \<comment> \<open>what may have been sent to a peer\<close>
  "protocol_prefix op out \<longleftrightarrow>
     (0 < length out \<longrightarrow> out ! 0 = master_message PRECOMMIT (user_of op)) \<and>
     (1 < length out \<longrightarrow> out ! 1 \<in> {master_message COMMIT (request_line op), master_message ABORT []}) \<and>
     (2 < length out \<longrightarrow> out ! 2 \<in> {master_message SUCCESS_NOOP [], master_message UNSUCCESS_UNDO []}) \<and>
     length out \<le> 3"

definition two_answers :: "bytes list \<Rightarrow> bool" where
  "two_answers rs \<longleftrightarrow> (\<exists>r. rs = [ready_reply, sendMessageToSocket 50 COMMIT_SUCCESS r])"

definition link_inv :: "operation \<Rightarrow> board \<Rightarrow> store \<Rightarrow> bytes list \<Rightarrow> peer_link \<Rightarrow> bool" where
  \<comment> \<open>how far the session of a peer has got with the messages \<open>out\<close>\<close>
  "link_inv op b pst out l \<longleftrightarrow> taken l \<le> length out \<and> (case slave_end l of
     Listening x \<Rightarrow> x = pst \<and> taken l = 0 \<and> peer_answers l = []
   | In_Session c \<Rightarrow> peer_answers l = replies (protocol c) \<and>
       (taken l = 0 \<and> c = sync_accepted pst \<or> taken l = 1 \<and> protocol c = acknowledged (user_of op) pst \<or>
        taken l = 2 \<and> out ! 1 = master_message COMMIT (request_line op) \<and> awaiting_verdict op b pst (protocol c))
   | Served x \<Rightarrow> taken l \<le> 1 \<and> x = pst \<and> peer_answers l = replicate (taken l) ready_reply \<or>
       taken l = 2 \<and> x = pst \<and> (peer_answers l = [ready_reply] \<or>
          out ! 1 = master_message COMMIT (request_line op) \<and> two_answers (peer_answers l)) \<or>
       taken l = 3 \<and> two_answers (peer_answers l) \<and> out ! 1 = master_message COMMIT (request_line op) \<and>
          x = (if out ! 2 = master_message SUCCESS_NOOP [] then effect_of op b pst else pst))"

lemma link_inv_sent:
  assumes "link_inv op b pst out l" shows "link_inv op b pst (out @ ms) l"
  using assms by (auto simp: link_inv_def nth_append split: slave_end.splits)

lemma session_goes_on:
  assumes "slave_end l = In_Session c" "sync_turn e c = ret (True, c')"
  shows "session_turn e l = ret (l\<lparr>slave_end := In_Session c', peer_answers := replies (protocol c')\<rparr>)"
  using assms by (simp add: session_turn_def)

lemma session_stops:
  assumes "slave_end l = In_Session c" "sync_turn e c = ret (False, c')"
    and "end_of_session (last_n c') (protocol c') = ret s"
  shows "session_turn e l = ret (l\<lparr>slave_end := Served (node s), peer_answers := replies s\<rparr>)"
  using assms by (simp add: session_turn_def)

lemma last_message:
  assumes "plain m" "m \<noteq> []" "length m < 255" "handle_sync_command (tokenize m [SP]) (protocol c) = ret (True, s)"
    and "slave_end l = In_Session c"
  shows "session_turn (delivered (m @ [LF])) l = ret (l\<lparr>slave_end := Served (node s), peer_answers := replies s\<rparr>)"
proof -
  have "sync_turn (delivered (m @ [LF])) c =
      ret (False, \<lparr>protocol = s, last_n = 1 + int (length m), sync_cancel_enabled = False\<rparr>)"
    using sync_turn_message [OF assms(1-4)] by simp
  then show ?thesis by (rule session_stops [OF assms(5)]) (simp add: end_of_session_def recv_nodata_def)
qed

lemma session_over:
  assumes e: "e = Poll_Timeout \<or> e = delivered []" and l: "slave_end l = In_Session c"
    and s: "end_of_session 0 (protocol c) = ret s"
  shows "session_turn e l = ret (l\<lparr>slave_end := Served (node s), peer_answers := replies s\<rparr>)"
  using assms by (auto simp: session_turn_def sync_turn_def recv_nonblock_def recv_nodata_def end_of_session_def)

lemma session_turn_links:
  assumes ok: "commit_ok op b st" "node_ok b pst" and out: "protocol_prefix op out" "taken l < length out"
    and l: "link_inv op b pst out l" "slave_end l = In_Session c"
  obtains l' where "session_turn (delivered (out ! taken l)) l = ret l'"
    "link_inv op b pst out (l'\<lparr>taken := taken l + 1\<rparr>)" "answers_read l' = answers_read l"
    "length (peer_answers l) \<le> length (peer_answers l')"
    "out ! taken l = master_message ABORT [] \<or> taken l = 2 \<or> (\<exists>c'. slave_end l' = In_Session c')"
proof -
  have wire: "wire_ok (user_of op) (command_word op) (argument_of op)"
    using ok(1) by (auto simp: commit_ok_def group_ok_def)
  consider "taken l = 0" "c = sync_accepted pst" | "taken l = 1" "protocol c = acknowledged (user_of op) pst"
    | "taken l = 2" "out ! 1 = master_message COMMIT (request_line op)" "awaiting_verdict op b pst (protocol c)"
    using l by (auto simp: link_inv_def)
  then show thesis
  proof cases
    case 1
    obtain c' where c': "sync_turn (delivered (master_message PRECOMMIT (user_of op))) c = ret (True, c')"
        "protocol c' = acknowledged (user_of op) pst"
      using wire unfolding 1(2) wire_ok_def by (elim conjE) (rule turn_precommit)
    then have "sync_turn (delivered (out ! taken l)) c = ret (True, c')"
      using out by (simp add: 1(1) protocol_prefix_def)
    note turn = session_goes_on [OF l(2) this]
    show thesis
      by (rule that [OF turn])
         (use out(2) l in \<open>auto simp: 1 c'(2) link_inv_def sync_accepted_def new_session_def Suc_le_eq\<close>)
  next
    case 2
    show thesis
    proof (cases "out ! 1 = master_message ABORT []")
      case True
      have "handle_sync_command (tokenize ''5.0 ABORT '' [SP]) (protocol c) = ret (True, protocol c)"
        by (simp add: tokenize_bare handle_sync_command_def vector_at_def 2(2))
      from last_message [OF _ _ _ this l(2)] have turn: "session_turn (delivered (out ! taken l)) l =
          ret (l\<lparr>slave_end := Served pst, peer_answers := [ready_reply]\<rparr>)"
        unfolding 2(1) True by (simp add: 2(2) message_bare replies_acknowledged)
      show thesis
        by (rule that [OF turn]) (use out(2) l True in \<open>simp_all add: 2 link_inv_def replies_acknowledged\<close>)
    next
      case False
      then have commit: "out ! 1 = master_message COMMIT (request_line op)" using out 2(1) by (auto simp: protocol_prefix_def)
      obtain m where m: "master_message COMMIT (request_line op) = m @ [LF]" "plain m" "m \<noteq> []"
          "length m < 255" "tokenize m [SP] = [''5.0'', COMMIT, command_word op, argument_of op]"
        unfolding request_line_def using message_commit [OF wire] by blast
      obtain s where s: "handle_sync_command [''5.0'', COMMIT, command_word op, argument_of op]
        (acknowledged (user_of op) pst) = ret (False, s)" "awaiting_verdict op b pst s"
        by (rule peer_commits [OF ok])
      have "handle_sync_command (tokenize m [SP]) (protocol c) = ret (False, s)" unfolding m(5) 2(2) by (rule s(1))
      from sync_turn_message [OF m(2-4) this]
      have "sync_turn (delivered (out ! taken l)) c = ret (True,
          \<lparr>protocol = s, last_n = 1 + int (length m), sync_cancel_enabled = True\<rparr>)"
        unfolding 2(1) commit m(1) by simp
      note turn = session_goes_on [OF l(2) this]
      show thesis
        by (rule that [OF turn])
           (use out(2) l s(2) commit in \<open>auto simp: 2 link_inv_def replies_acknowledged awaiting_verdict_def\<close>)
    qed
  next
    case 3
    have rel: "release_write_lock (held (effect_of op b pst)) = effect_of op b pst" "release_write_lock (held pst) = pst"
      using peer_commits [OF ok] by metis+
    note s = 3(3) [unfolded awaiting_verdict_def]
    have two: "two_answers (replies (protocol c))" using s by (auto simp: two_answers_def)
    show thesis
    proof (cases "out ! 2 = master_message SUCCESS_NOOP []")
      case True
      have "handle_sync_command (tokenize ''5.0 SUCCESS_NOOP '' [SP]) (protocol c) =
          ret (True, (protocol c)\<lparr>node := effect_of op b pst\<rparr>)"
        using s rel by (simp add: tokenize_bare handle_sync_command_def vector_at_def)
      from last_message [OF _ _ _ this l(2)] have turn: "session_turn (delivered (out ! taken l)) l =
          ret (l\<lparr>slave_end := Served (effect_of op b pst), peer_answers := replies (protocol c)\<rparr>)"
        by (simp add: 3(1) True message_bare)
      show thesis
        by (rule that [OF turn]) (use out(2) l two in \<open>simp_all add: 3 True link_inv_def\<close>)
    next
      case False
      then have undo: "out ! 2 = master_message UNSUCCESS_UNDO []" using out 3(1) by (auto simp: protocol_prefix_def)
      have "handle_sync_command (tokenize ''5.0 UNSUCCESS_UNDO '' [SP]) (protocol c) =
          ret (True, (protocol c)\<lparr>node := pst\<rparr>)"
        using s rel by (auto simp: tokenize_bare handle_sync_command_def vector_at_def)
      from last_message [OF _ _ _ this l(2)] have turn: "session_turn (delivered (out ! taken l)) l =
          ret (l\<lparr>slave_end := Served pst, peer_answers := replies (protocol c)\<rparr>)"
        by (simp add: 3(1) undo message_bare)
      show thesis
        by (rule that [OF turn]) (use out(2) l two undo in \<open>simp_all add: 3 link_inv_def\<close>)
    qed
  qed
qed

lemma session_can_end:
  assumes ok: "commit_ok op b st" "node_ok b pst" and l: "link_inv op b pst out l" "slave_end l = In_Session c"
  shows "e = Poll_Timeout \<or> e = delivered [] \<Longrightarrow>
    session_turn e l = ret (l\<lparr>slave_end := Served pst, peer_answers := peer_answers l\<rparr>)"
proof -
  assume e: "e = Poll_Timeout \<or> e = delivered []"
  have rel: "release_write_lock (held pst) = pst" using peer_commits [OF ok] by metis
  have "\<exists>s. end_of_session 0 (protocol c) = ret s \<and> node s = pst \<and> replies s = replies (protocol c)"
    using l rel by (auto simp: link_inv_def end_of_session_def awaiting_verdict_def sync_accepted_def new_session_def)
  then obtain s where s: "end_of_session 0 (protocol c) = ret s" "node s = pst" "replies s = replies (protocol c)"
    by blast
  show ?thesis using session_over [OF e l(2) s(1)] s(2,3) l by (simp add: link_inv_def)
qed

lemma session_ends:
  assumes ok: "commit_ok op b st" "node_ok b pst" and e: "e = Poll_Timeout \<or> e = delivered []"
    and l: "link_inv op b pst out l" and run: "session_turn e l = ret l'"
  shows "link_inv op b pst out l'" "answers_read l' = answers_read l"
    "length (peer_answers l) \<le> length (peer_answers l')"
proof -
  obtain c where c: "slave_end l = In_Session c"
    using run by (auto simp: session_turn_def split: slave_end.splits)
  have l': "l' = l\<lparr>slave_end := Served pst, peer_answers := peer_answers l\<rparr>"
    using session_can_end [OF ok l c e] run by simp
  show "link_inv op b pst out l'"
    using l c by (auto simp: l' link_inv_def replies_acknowledged awaiting_verdict_def two_answers_def
        sync_accepted_def new_session_def)
  show "answers_read l' = answers_read l" "length (peer_answers l) \<le> length (peer_answers l')" by (simp_all add: l')
qed

section \<open>The master\<close>

definition answers_to :: "peer_pc \<Rightarrow> nat" where
  \<comment> \<open>the answers a thread has read\<close>
  "answers_to p = (if needs_ready p then 0 else if needs_commit p then 1 else 2)"

lemma answers_to_wake [simp]: "answers_to (wake_peer p) = answers_to p"
  by (simp add: answers_to_def)

lemma answers_wake [simp]: "answers_to \<circ> wake_peer = answers_to"
  by (simp add: fun_eq_iff)

lemma map_update_same [simp]: "(map f xs)[t := f (xs ! t)] = map f xs"
  by (metis list_update_id map_update)

lemma map_answers_same:
  assumes "answers_to p = answers_to (ps ! t)"
  shows "map answers_to (ps[t := p]) = map answers_to ps"
    and "map answers_to ((map wake_peer ps)[t := p]) = map answers_to ps"
  using assms by (simp_all add: map_update)

lemma nth_update_append:
  "i < length xs \<Longrightarrow> (xs[t := xs ! t @ ys]) ! i = xs ! i @ (if i = t then ys else [])"
  by (simp add: nth_list_update)

lemma messages_kept:
  assumes "peer_step user command s s'" "i < length (outbox s)"
  shows "\<exists>ms. outbox s' ! i = outbox s ! i @ ms"
  using assms
proof (induction rule: peer_step.induct)
  case (operates s t s')
  then show ?case by (auto simp: operate_def bind_run_ret_iff split: if_splits)
qed (auto simp: step_defs nth_update_append)

lemma advance_answers:
  assumes "advance user command t s = ret s'"
  shows "map answers_to (peer_pcs s') = map answers_to (peer_pcs s)"
  using assms
  by (auto simp: advance_def step_defs operate_def bind_run_ret_iff answers_to_def
      intro!: map_answers_same split: peer_pc.splits if_splits)

lemma receive_answers:
  assumes "receive t e s = ret s'" "t < length (peer_pcs s)" "peer_pcs s ! t = Receiving status"
  shows "classify_response status e = ret (if status = PRECOMMIT_SENT then On_Ready else On_Commit_Success) \<Longrightarrow>
      map answers_to (peer_pcs s') = (map answers_to (peer_pcs s))[t := Suc (answers_to (peer_pcs s ! t))]"
    and "e = Poll_Timeout \<or> e = Poll_Error \<or> e = delivered [] \<Longrightarrow> map answers_to (peer_pcs s') = map answers_to (peer_pcs s)"
proof -
  show "map answers_to (peer_pcs s') = (map answers_to (peer_pcs s))[t := Suc (answers_to (peer_pcs s ! t))]"
    if "classify_response status e = ret (if status = PRECOMMIT_SENT then On_Ready else On_Commit_Success)"
    using that assms by (cases status) (auto simp: receive_def bind_run_ret_iff step_defs map_update answers_to_def numeral_2_eq_2)
  show "map answers_to (peer_pcs s') = map answers_to (peer_pcs s)"
    if e: "e = Poll_Timeout \<or> e = Poll_Error \<or> e = delivered []"
  proof -
    have "classify_response status e = ret On_Lost \<or> classify_response status e = ret On_Error"
      using e by (auto simp: classify_response_def recv_nonblock_def recv_nodata_def)
    then show ?thesis
      using assms by (cases status) (auto simp: receive_def step_defs answers_to_def intro!: map_answers_same)
  qed
qed

lemma sent_prefix:
  assumes "master_inv n st (user_of op) (request_line op) s" "i < n"
  shows "protocol_prefix op (outbox s ! i)"
  unfolding sent_expected [OF assms]
  using verdict_cases [of "stats s"]
  by (cases "(user_of op, request_line op, stats s, peer_pcs s ! i)" rule: expected_sent.cases)
     (auto simp: protocol_prefix_def)

section \<open>The invariant of a transaction\<close>

definition transaction_ok :: "operation \<Rightarrow> board \<Rightarrow> store \<Rightarrow> store list \<Rightarrow> bool" where
  "transaction_ok op b st psts \<longleftrightarrow>
     commit_ok op b st \<and> list_all (node_ok b) psts \<and> psts \<noteq> [] \<and> length psts < 2 ^ 64"

definition transaction_inv :: "operation \<Rightarrow> board \<Rightarrow> store \<Rightarrow> store list \<Rightarrow> transaction \<Rightarrow> bool" where
  "transaction_inv op b st psts x \<longleftrightarrow>
     master_inv (length psts) st (user_of op) (request_line op) (coordinator x) \<and> length (links x) = length psts \<and>
     (\<forall>i < length psts. link_inv op b (psts ! i) (outbox (coordinator x) ! i) (links x ! i) \<and>
        answers_read (links x ! i) = answers_to (peer_pcs (coordinator x) ! i) \<and>
        answers_to (peer_pcs (coordinator x) ! i) \<le> length (peer_answers (links x ! i)))"

lemma transaction_invD:
  assumes "transaction_inv op b st psts x"
  shows "master_inv (length psts) st (user_of op) (request_line op) (coordinator x)"
    and "length (links x) = length psts" "length (peer_pcs (coordinator x)) = length psts"
      "length (outbox (coordinator x)) = length psts"
    and "i < length psts \<Longrightarrow> link_inv op b (psts ! i) (outbox (coordinator x) ! i) (links x ! i)"
    and "i < length psts \<Longrightarrow> answers_read (links x ! i) = answers_to (peer_pcs (coordinator x) ! i)"
    and "i < length psts \<Longrightarrow> answers_to (peer_pcs (coordinator x) ! i) \<le> length (peer_answers (links x ! i))"
proof -
  show m: "master_inv (length psts) st (user_of op) (request_line op) (coordinator x)"
    using assms by (simp add: transaction_inv_def)
  show "length (peer_pcs (coordinator x)) = length psts" "length (outbox (coordinator x)) = length psts"
    using m by (simp_all add: master_inv_def counters_inv_def)
qed (use assms in \<open>auto simp: transaction_inv_def\<close>)

lemma transaction_start_inv: "transaction_inv op b st psts (transaction_start st psts)"
proof -
  have "master_init (length psts) st (coordinator (transaction_start st psts))"
    by (simp add: master_init_def transaction_start_def)
  from master_init_inv [OF this] show ?thesis
    by (auto simp: transaction_inv_def transaction_start_def link_inv_def answers_to_def)
qed

lemma link_inv_read [simp]: "link_inv op b pst out (l\<lparr>answers_read := k\<rparr>) = link_inv op b pst out l"
  by (cases "slave_end l") (simp_all add: link_inv_def)

lemma master_moves:
  assumes inv: "transaction_inv op b st psts x" and ok: "transaction_ok op b st psts"
    and step: "peer_step (user_of op) (request_line op) (coordinator x) s"
    and read: "map answers_to (peer_pcs s) =
      (map answers_to (peer_pcs (coordinator x)))[t := answers_to (peer_pcs (coordinator x) ! t) + k]"
    and y: "coordinator y = s" "links y = (links x)[t := (links x ! t)\<lparr>answers_read := answers_read (links x ! t) + k\<rparr>]"
    and k: "t < length psts" "answers_read (links x ! t) + k \<le> length (peer_answers (links x ! t))"
  shows "transaction_inv op b st psts y"
proof -
  note D = transaction_invD [OF inv]
  have m: "master_inv (length psts) st (user_of op) (request_line op) s"
    using master_step_inv [OF _ step D(1)] ok by (simp add: transaction_ok_def)
  have len: "length (peer_pcs s) = length psts" using arg_cong [OF read, of length] D(3) by simp
  have "answers_to (peer_pcs s ! i) = answers_to (peer_pcs (coordinator x) ! i) + (if i = t then k else 0)"
    if "i < length psts" for i
    using arg_cong [OF read, of "\<lambda>xs. xs ! i"] that len D(3) by (simp add: nth_list_update split: if_splits)
  moreover have "link_inv op b (psts ! i) (outbox s ! i) (links x ! i)" if i: "i < length psts" for i
    using messages_kept [OF step, of i] link_inv_sent [OF D(5) [OF i]] i D(4) by auto
  ultimately have "link_inv op b (psts ! i) (outbox s ! i) (links y ! i) \<and>
      answers_read (links y ! i) = answers_to (peer_pcs s ! i) \<and>
      answers_to (peer_pcs s ! i) \<le> length (peer_answers (links y ! i))" if "i < length psts" for i
    using that D(2) D(6,7) [OF that] k by (cases "i = t") (simp_all add: y(2))
  then show ?thesis using m D(2) y by (auto simp: transaction_inv_def)
qed

lemma link_moves:
  assumes inv: "transaction_inv op b st psts x" and t: "t < length psts"
    and l: "link_inv op b (psts ! t) (outbox (coordinator x) ! t) l" "answers_read l = answers_read (links x ! t)"
      "length (peer_answers (links x ! t)) \<le> length (peer_answers l)"
  shows "transaction_inv op b st psts (x\<lparr>links := (links x)[t := l]\<rparr>)"
proof -
  note D = transaction_invD [OF inv]
  have "link_inv op b (psts ! i) (outbox (coordinator x) ! i) ((links x)[t := l] ! i) \<and>
      answers_read ((links x)[t := l] ! i) = answers_to (peer_pcs (coordinator x) ! i) \<and>
      answers_to (peer_pcs (coordinator x) ! i) \<le> length (peer_answers ((links x)[t := l] ! i))"
    if i: "i < length psts" for i
    using D(2) D(5-7) [OF i] D(7) [OF t] l i by (cases "i = t") simp_all
  then show ?thesis using D(1,2) by (auto simp: transaction_inv_def)
qed

lemma answer_classified:
  assumes inv: "transaction_inv op b st psts x" and t: "t < length psts"
    and p: "peer_pcs (coordinator x) ! t = Receiving status" and a: "answers_read (links x ! t) < length (peer_answers (links x ! t))"
  shows "classify_response status (delivered (peer_answers (links x ! t) ! answers_read (links x ! t))) =
      ret (if status = PRECOMMIT_SENT then On_Ready else On_Commit_Success)"
proof -
  note D = transaction_invD(5,6) [OF inv t]
  have "answers_read (links x ! t) = (if status = PRECOMMIT_SENT then 0 else 1)"
    using D(2) by (cases status) (simp_all add: p answers_to_def)
  moreover have "peer_answers (links x ! t) ! 0 = ready_reply"
    using D(1) a by (auto simp: link_inv_def replies_acknowledged awaiting_verdict_def new_session_def
        sync_accepted_def two_answers_def split: slave_end.splits)
  moreover have "\<exists>r. peer_answers (links x ! t) ! 1 = sendMessageToSocket 50 COMMIT_SUCCESS r"
    if "1 < length (peer_answers (links x ! t))"
    using D(1) that by (auto simp: link_inv_def replies_acknowledged awaiting_verdict_def new_session_def
        sync_accepted_def two_answers_def split: slave_end.splits)
  ultimately show ?thesis
    using a classify_ready classify_committed by (cases status) auto
qed

lemma master_performs:
  assumes "commit_ok op b st"
  obtains un st' where
    "master_operation (user_of op) (request_line op) st = ret (fst (board_spec op b), un, st')"
    "\<not> contains ERROR (fst (board_spec op b))" "node_ok (snd (board_spec op b)) st'"
proof -
  obtain e where ok: "\<not> reads op" "valid_command op st = ret (True, e)" "group_ok (length b) op" "slash_free b" "node_ok b st"
    using assms by (auto simp: commit_ok_def)
  obtain r un st' where run: "perform_operation (command_word op) (user_of op) (argument_of op) False Undo_Nothing st =
      ret (r, un, st')" "\<not> contains ERROR r"
    using operation_succeeds [OF ok(1-3) order_refl ok(4,5)] by blast
  have "command_ok (length b) op" "wire_ok (user_of op) (command_word op) (argument_of op)"
    using ok(1,3) by (simp_all add: group_ok_def)
  with run run_keeps_node_ok [OF performed_run [OF ok(1,2) run(1)] _ order_refl ok(5)] show thesis
    by (intro that [of un st']) (simp_all add: request_line_def wire_ok_def master_operation_words)
qed

lemma performs_returns: "transaction_ok op b st psts \<Longrightarrow> returns (master_operation (user_of op) (request_line op) st)"
  using master_performs [of op b st] by (metis returns_iff transaction_ok_def)

lemma thread_quiet:
  assumes inv: "transaction_inv op b st psts x" and ok: "transaction_ok op b st psts" and t: "t < length psts"
    and step: "peer_step (user_of op) (request_line op) (coordinator x) s"
    and read: "map answers_to (peer_pcs s) = map answers_to (peer_pcs (coordinator x))"
  shows "transaction_inv op b st psts (x\<lparr>coordinator := s\<rparr>)"
proof (rule master_moves [OF inv ok step, where t = t and k = 0])
  note D = transaction_invD [OF inv]
  show "map answers_to (peer_pcs s) = (map answers_to (peer_pcs (coordinator x)))
      [t := answers_to (peer_pcs (coordinator x) ! t) + 0]"
    using read by simp
  show "answers_read (links x ! t) + 0 \<le> length (peer_answers (links x ! t))" using D(6,7) [OF t] by simp
qed (use t in simp_all)

lemma transaction_step_safe:
  assumes step: "transaction_step (user_of op) (request_line op) x r"
    and ok: "transaction_ok op b st psts" and inv: "transaction_inv op b st psts x"
  shows "\<exists>y. r = ret y \<and> transaction_inv op b st psts y"
  using step
proof cases
  note D = transaction_invD [OF inv]
  {
    case (thread_goes_on t)
    then have t: "t < length psts" using D(3) by simp
    obtain s where s: "advance (user_of op) (request_line op) t (coordinator x) = ret s"
      by (rule advance_returns [OF D(1) performs_returns [OF ok] thread_goes_on(3)])
    from thread_quiet [OF inv ok t advance_step [OF s thread_goes_on(2)] advance_answers [OF s]] show ?thesis
      by (simp add: thread_goes_on(1) s)
  next
    case (thread_hears t status l)
    then have t: "t < length psts" using D(3) by simp
    have a: "answers_read (links x ! t) < length (peer_answers (links x ! t))" using thread_hears(4,5) by simp
    note c = answer_classified [OF inv t thread_hears(3) a]
    then obtain s where s: "receive t (delivered (peer_answers (links x ! t) ! answers_read (links x ! t))) (coordinator x) = ret s"
      by (simp add: receive_def thread_hears(3))
    let ?y = "x\<lparr>coordinator := s, links := (links x)[t := l\<lparr>answers_read := answers_read l + 1\<rparr>]\<rparr>"
    have "map answers_to (peer_pcs s) = (map answers_to (peer_pcs (coordinator x)))
        [t := answers_to (peer_pcs (coordinator x) ! t) + 1]"
      using receive_answers(1) [OF s thread_hears(2,3) c] by simp
    from master_moves [OF inv ok receive_step [OF s thread_hears(2)] this, of ?y] a t
    have "transaction_inv op b st psts ?y" by (simp add: thread_hears(4))
    then show ?thesis unfolding thread_hears(1,4) s bind_run_simps by blast
  next
    case (slave_accepts t l pst)
    then have t: "t < length psts" using D(2) by simp
    have "link_inv op b (psts ! t) (outbox (coordinator x) ! t) (l\<lparr>slave_end := In_Session (sync_accepted pst)\<rparr>)"
      using D(5) [OF t] slave_accepts(3,4) by (simp add: link_inv_def sync_accepted_def new_session_def)
    from link_moves [OF inv t this] show ?thesis by (simp add: slave_accepts(1,3))
  next
    case (slave_hears t l c)
    then have t: "t < length psts" using D(2) by simp
    have pst: "node_ok b (psts ! t)" and commit: "commit_ok op b st"
      using ok t by (simp_all add: transaction_ok_def list_all_length)
    have l: "link_inv op b (psts ! t) (outbox (coordinator x) ! t) l" using D(5) [OF t] slave_hears(3) by simp
    obtain l' where l': "session_turn (delivered (outbox (coordinator x) ! t ! taken l)) l = ret l'"
      "link_inv op b (psts ! t) (outbox (coordinator x) ! t) (l'\<lparr>taken := taken l + 1\<rparr>)"
      "answers_read l' = answers_read l" "length (peer_answers l) \<le> length (peer_answers l')"
      by (rule session_turn_links [OF commit pst sent_prefix [OF D(1) t] slave_hears(5) l slave_hears(4)])
    from link_moves [OF inv t l'(2)] l'(3,4) show ?thesis by (simp add: slave_hears(1,3) l'(1) [unfolded slave_hears(3)])
  }
qed

lemma receive_quiet:
  assumes inv: "transaction_inv op b st psts x" and ok: "transaction_ok op b st psts" and t: "t < length psts"
    and r: "receive t e (coordinator x) = ret s" "e = Poll_Timeout \<or> e = Poll_Error \<or> e = delivered []"
  shows "transaction_inv op b st psts (x\<lparr>coordinator := s\<rparr>)"
proof -
  have t': "t < length (peer_pcs (coordinator x))" using t transaction_invD(3) [OF inv] by simp
  from r(1) obtain status where "peer_pcs (coordinator x) ! t = Receiving status"
    by (auto simp: receive_def split: peer_pc.splits)
  from receive_answers(2) [OF r(1) t' this r(2)] show ?thesis
    by (rule thread_quiet [OF inv ok t receive_step [OF r(1) t']])
qed

lemma failure_step_inv:
  assumes step: "failure_step (user_of op) (request_line op) x y"
    and ok: "transaction_ok op b st psts" and inv: "transaction_inv op b st psts x"
  shows "transaction_inv op b st psts y"
  using step
proof cases
  note D = transaction_invD [OF inv]
  have pst: "node_ok b (psts ! t)" if "t < length psts" for t
    using ok that by (simp add: transaction_ok_def list_all_length)
  have commit: "commit_ok op b st" using ok by (simp add: transaction_ok_def)
  {
    case (peer_refuses t)
    have "map answers_to (peer_pcs (connect_fails t (coordinator x))) = map answers_to (peer_pcs (coordinator x))"
      using peer_refuses(2) by (auto simp: step_defs at_pc_def answers_to_def intro!: map_answers_same)
    with peer_refuses D(3) show ?thesis
      by (auto simp: at_pc_def intro!: thread_quiet [OF inv ok] peer_step.connect_refused)
  next
    case (thread_times_out t s)
    with D(3) show ?thesis by (auto intro: receive_quiet [OF inv ok])
  next
    case (thread_sees_close t l pst s)
    with D(3) show ?thesis by (auto intro: receive_quiet [OF inv ok])
  next
    case (slave_gives_up t l l')
    then have t: "t < length psts" using D(2) by simp
    note e = session_ends [OF commit pst [OF t] _ D(5) [OF t] slave_gives_up(4) [unfolded slave_gives_up(3)]]
    from link_moves [OF inv t e(1-3)] show ?thesis by (simp add: slave_gives_up(1))
  next
    case (slave_sees_close t l o' l')
    then have t: "t < length psts" using D(2) by simp
    note e = session_ends [OF commit pst [OF t] _ D(5) [OF t] slave_sees_close(6) [unfolded slave_sees_close(3)]]
    from link_moves [OF inv t e(1-3)] show ?thesis by (simp add: slave_sees_close(1))
  }
qed

lemma faulty_step_inv:
  assumes step: "faulty_step (user_of op) (request_line op) x y"
    and ok: "transaction_ok op b st psts" and inv: "transaction_inv op b st psts x"
  shows "transaction_inv op b st psts y"
  using step
proof cases
  note D = transaction_invD [OF inv]
  {
    case no_fault
    then show ?thesis using transaction_step_safe [OF _ ok inv] by fastforce
  next
    case failure
    then show ?thesis by (rule failure_step_inv [OF _ ok inv])
  next
    case (receive_error t s)
    with D(3) show ?thesis by (auto intro: receive_quiet [OF inv ok])
  next
    case (spurious_wake t p)
    have "map answers_to (peer_pcs (goto t (wake_peer p) (coordinator x))) = map answers_to (peer_pcs (coordinator x))"
      using spurious_wake(2) by (auto simp: at_pc_def intro!: map_answers_same)
    with spurious_wake D(3) show ?thesis
      by (auto simp: at_pc_def intro!: thread_quiet [OF inv ok] peer_step.spurious_wakeup)
  }
qed

interpretation faulty: inductive_invariant "\<lambda>x. x = transaction_start st psts"
    "faulty_step (user_of op) (request_line op)"
    "\<lambda>x. transaction_ok op b st psts \<longrightarrow> transaction_inv op b st psts x"
  for op b st psts
  by unfold_locales (auto intro: transaction_start_inv faulty_step_inv)

section \<open>How a transaction ends\<close>

definition peer_store :: "peer_link \<Rightarrow> store option" where
  \<comment> \<open>the node of a peer that has no session\<close>
  "peer_store l = (case slave_end l of Listening pst \<Rightarrow> Some pst | In_Session c \<Rightarrow> None | Served pst \<Rightarrow> Some pst)"

lemma unanswered_not_performed:
  assumes inv: "transaction_inv op b st psts x" and t: "t < length psts"
    and performed: "masterOperationCompletionMessage (stats (coordinator x)) \<noteq> []"
  shows "length (peer_answers (links x ! t)) \<ge> 2"
    and "length (outbox (coordinator x) ! t) = 3 \<Longrightarrow> commit_ok op b st \<Longrightarrow>
      outbox (coordinator x) ! t ! 2 = master_message SUCCESS_NOOP []"
proof -
  note D = transaction_invD [OF inv]
  let ?p = "peer_pcs (coordinator x) ! t"
  have at: "at_pc (coordinator x) t ?p" using t D(3) by (simp add: at_pc_def)
  have answered: "\<not> needs_commit ?p" using operation_not_yet(1) [OF D(1) at] performed by blast
  then have "\<not> needs_ready ?p" by (cases ?p rule: needs_ready.cases) auto
  with answered show "length (peer_answers (links x ! t)) \<ge> 2" using D(7) [OF t] by (simp add: answers_to_def)
  assume len: "length (outbox (coordinator x) ! t) = 3" and ok: "commit_ok op b st"
  then have p: "?p = Finished Confirmed" unfolding sent_expected [OF D(1) t]
    by (cases "(user_of op, request_line op, stats (coordinator x), ?p)" rule: expected_sent.cases) (auto split: if_splits)
  have "missing_commit (coordinator x) = 0"
    using D(1) performed by (simp add: master_inv_def decisions_inv_def)
  then have "\<not> didOneOrMorePeersFailToCommit (stats (coordinator x))"
    using decisions_exclusive(2) [of "coordinator x"] D(1) by (auto simp: master_inv_def)
  moreover obtain un where "master_operation (user_of op) (request_line op) st =
      ret (masterOperationCompletionMessage (stats (coordinator x)), un, master_store (coordinator x))"
    using D(1) performed by (auto simp: master_inv_def operation_inv_def)
  then have "\<not> contains ERROR (masterOperationCompletionMessage (stats (coordinator x)))"
    using master_performs [OF ok] by (metis Inr_inject option.inject prod.inject)
  ultimately show "outbox (coordinator x) ! t ! 2 = master_message SUCCESS_NOOP []"
    unfolding sent_expected [OF D(1) t] p by (simp add: verdict_def)
qed

lemma peer_outcome:
  assumes inv: "transaction_inv op b st psts x" and ok: "transaction_ok op b st psts" and t: "t < length psts"
    and y: "peer_store (links x ! t) = Some y"
  shows "y = (if masterOperationCompletionMessage (stats (coordinator x)) = [] \<or> taken (links x ! t) = 2
    then psts ! t else effect_of op b (psts ! t))"
proof (cases "masterOperationCompletionMessage (stats (coordinator x)) = []")
  case True
  note D = transaction_invD [OF inv]
  have "outbox (coordinator x) ! t ! 2 \<noteq> master_message SUCCESS_NOOP []" if "3 \<le> length (outbox (coordinator x) ! t)"
  proof -
    have p: "peer_pcs (coordinator x) ! t = Finished Confirmed"
      using that unfolding sent_expected [OF D(1) t]
      by (cases "(user_of op, request_line op, stats (coordinator x), peer_pcs (coordinator x) ! t)" rule: expected_sent.cases)
         (auto split: if_splits)
    have "Finished Confirmed \<in> set (peer_pcs (coordinator x))" using t D(3) nth_mem p by metis
    then have "didOneOrMorePeersFailToCommit (stats (coordinator x))"
      using confirmed_decided [of "coordinator x"] D(1) True by (auto simp: master_inv_def)
    then show ?thesis unfolding sent_expected [OF D(1) t] p by (simp add: verdict_def)
  qed
  then show ?thesis
    using D(5) [OF t] y True by (auto simp: link_inv_def peer_store_def split: slave_end.splits if_splits)
next
  case False
  note D = transaction_invD(5) [OF inv t]
  note f = unanswered_not_performed [OF inv t False]
  have commit: "commit_ok op b st" using ok by (simp add: transaction_ok_def)
  show ?thesis
    using D f(1) y False sent_prefix [OF transaction_invD(1) [OF inv] t] f(2) [OF _ commit]
    by (auto simp: link_inv_def peer_store_def protocol_prefix_def split: slave_end.splits)
qed

lemma master_outcome:
  assumes inv: "transaction_inv op b st psts x" and ok: "transaction_ok op b st psts"
  shows "if masterOperationCompletionMessage (stats (coordinator x)) = [] then
      commit_answer op (coordinator x) = failed_answer op \<and> node_ok b (master_store (coordinator x))
    else commit_answer op (coordinator x) = fst (board_spec op b) \<and>
      node_ok (snd (board_spec op b)) (master_store (coordinator x))"
proof -
  have inv: "operation_inv (user_of op) (request_line op) st (coordinator x)"
    using transaction_invD(1) [OF inv] by (simp add: master_inv_def)
  have commit: "commit_ok op b st" using ok by (simp add: transaction_ok_def)
  show ?thesis
  proof (cases "masterOperationCompletionMessage (stats (coordinator x)) = []")
    case True
    then show ?thesis using inv commit by (simp add: operation_inv_def commit_answer_def commit_ok_def)
  next
    case False
    then obtain un where un: "master_operation (user_of op) (request_line op) st =
        ret (masterOperationCompletionMessage (stats (coordinator x)), un, master_store (coordinator x))"
      using inv by (auto simp: operation_inv_def)
    obtain un' st' where run: "master_operation (user_of op) (request_line op) st = ret (fst (board_spec op b), un', st')"
      "node_ok (snd (board_spec op b)) st'"
      using master_performs [OF commit] by metis
    with un False show ?thesis by (simp add: commit_answer_def)
  qed
qed

lemma peer_node_ok:
  assumes inv: "transaction_inv op b st psts x" and ok: "transaction_ok op b st psts" and t: "t < length psts"
    and y: "peer_store (links x ! t) = Some y"
  shows "if masterOperationCompletionMessage (stats (coordinator x)) = [] \<or> taken (links x ! t) = 2
    then node_ok b y else node_ok (snd (board_spec op b)) y"
proof -
  have pst: "node_ok b (psts ! t)" and commit: "commit_ok op b st"
    using ok t by (simp_all add: transaction_ok_def list_all_length)
  have "node_ok (snd (board_spec op b)) (effect_of op b (psts ! t))" using peer_commits [OF commit pst] by metis
  then show ?thesis using peer_outcome [OF inv ok t y] pst by simp
qed

section \<open>Properties\<close>



end
