(* ===== verification/Reliable_Commit.thy ===== *)
theory Reliable_Commit
  imports Commit_Transaction
begin

text \<open>
  What must happen in a transaction of \<open>Commit_Transaction\<close>, whatever the interleaving. Without a
  fault (nothing is lost and nobody waits for seven seconds) it is carried out everywhere; when
  connections are refused or closed and reads time out it still ends, carried out or refused.
\<close>

section \<open>What must happen\<close>

text \<open>On every run a state with \<open>Q\<close> is reached, and no step before it crashes or waits for ever.\<close>

inductive inevitably :: "('s \<Rightarrow> 's run \<Rightarrow> bool) \<Rightarrow> ('s \<Rightarrow> bool) \<Rightarrow> 's \<Rightarrow> bool"
  for step :: "'s \<Rightarrow> 's run \<Rightarrow> bool" and Q :: "'s \<Rightarrow> bool" where
  now: "Q s \<Longrightarrow> inevitably step Q s"
| later: "\<exists>r. step s r \<Longrightarrow> \<forall>r. step s r \<longrightarrow> (\<exists>s'. r = ret s' \<and> inevitably step Q s') \<Longrightarrow>
    inevitably step Q s"

lemma inevitably_mono:
  assumes "inevitably step Q s" "\<And>s. Q s \<Longrightarrow> Q' s"
  shows "inevitably step Q' s"
  using assms(1)
proof (induction rule: inevitably.induct)
  case (now s)
  then show ?case by (intro inevitably.now assms(2))
next
  case (later s)
  then show ?case by (intro inevitably.later) blast+
qed

text \<open>The contract of a system that cannot run for ever and cannot stop early.\<close>

locale terminating_system =
  fixes step :: "'s \<Rightarrow> 's run \<Rightarrow> bool"
    and inv :: "'s \<Rightarrow> bool"
    and Q :: "'s \<Rightarrow> bool"
    and R :: "('s \<times> 's) set"
  assumes wf_order: "wf R"
    and step_safe: "inv s \<Longrightarrow> step s r \<Longrightarrow> \<exists>s'. r = ret s' \<and> inv s' \<and> (s', s) \<in> R"
    and step_exists: "inv s \<Longrightarrow> \<not> Q s \<Longrightarrow> \<exists>r. step s r"
begin

lemma reaches_goal: "inv s \<Longrightarrow> inevitably step (\<lambda>s. inv s \<and> Q s) s"
proof (induction s rule: wf_induct_rule [OF wf_order])
  case (1 s)
  show ?case
  proof (cases "Q s")
    case True
    then show ?thesis using 1(2) by (intro inevitably.now) simp
  next
    case False
    have "\<exists>s'. r = ret s' \<and> inevitably step (\<lambda>s. inv s \<and> Q s) s'" if "step s r" for r
      using step_safe [OF 1(2) that] 1(1) by blast
    then show ?thesis using step_exists [OF 1(2) False] by (intro inevitably.later) blast+
  qed
qed

end

section \<open>Transactions without a fault\<close>

fun link_rank :: "slave_end \<Rightarrow> nat \<Rightarrow> nat" where
  "link_rank (Listening pst) k = 4"
| "link_rank (In_Session c) k = 3 - k"
| "link_rank (Served pst) k = 0"

definition links_rank :: "transaction \<Rightarrow> nat" where
  "links_rank x = sum_list (map (\<lambda>l. link_rank (slave_end l) (taken l)) (links x))"

abbreviation transaction_order :: "(transaction \<times> transaction) set" where
  "transaction_order \<equiv> measures [total_rank \<circ> coordinator, awake_count \<circ> coordinator, links_rank]"

lemma links_rank_less:
  assumes "t < length (links x)"
    and "link_rank (slave_end l) (taken l) < link_rank (slave_end (links x ! t)) (taken (links x ! t))"
  shows "(x\<lparr>links := (links x)[t := l]\<rparr>, x) \<in> transaction_order"
proof -
  let ?r = "map (\<lambda>l. link_rank (slave_end l) (taken l)) (links x)"
  have t: "t < length ?r" "?r ! t = link_rank (slave_end (links x ! t)) (taken (links x ! t))"
    using assms(1) by simp_all
  have "links_rank (x\<lparr>links := (links x)[t := l]\<rparr>) = links_rank x + link_rank (slave_end l) (taken l) - ?r ! t"
    using t by (simp add: links_rank_def map_update sum_list_update)
  moreover have "?r ! t \<le> links_rank x"
    using t elem_le_sum_list [of t ?r] by (simp add: links_rank_def)
  ultimately have "links_rank (x\<lparr>links := (links x)[t := l]\<rparr>) < links_rank x" using assms(2) t(2) by arith
  then show ?thesis by simp
qed

text \<open>The three kinds of steps, each with what it does to the measure.\<close>

lemma transaction_step_cases:
  assumes step: "transaction_step (user_of op) (request_line op) x r"
    and ok: "transaction_ok op b st psts" and inv: "transaction_inv op b st psts x"
  obtains (thread) t s where "r = ret (x\<lparr>coordinator := s\<rparr>)"
      "advance (user_of op) (request_line op) t (coordinator x) = ret s" "(s, coordinator x) \<in> progress_order"
    | (answer) t s status e l where "r = ret (x\<lparr>coordinator := s, links := (links x)[t := l]\<rparr>)"
      "receive t e (coordinator x) = ret s" "(s, coordinator x) \<in> progress_order" "t < length psts"
      "at_pc (coordinator x) t (Receiving status)"
      "classify_response status e = ret (if status = PRECOMMIT_SENT then On_Ready else On_Commit_Success)"
      "slave_end l = slave_end (links x ! t)" "taken l = taken (links x ! t)"
    | (slave) t l where "r = ret (x\<lparr>links := (links x)[t := l]\<rparr>)" "t < length psts"
      "link_rank (slave_end l) (taken l) < link_rank (slave_end (links x ! t)) (taken (links x ! t))"
      "(\<exists>c. slave_end l = In_Session c) \<or> taken l = 3 \<or> master_message ABORT [] \<in> set (outbox (coordinator x) ! t)"
  using step
proof cases
  note D = transaction_invD [OF inv]
  {
    case (thread_goes_on t)
    obtain s where s: "advance (user_of op) (request_line op) t (coordinator x) = ret s"
      by (rule advance_returns [OF D(1) performs_returns [OF ok] thread_goes_on(3)])
    with thread advance_progress [OF s thread_goes_on(2)] show ?thesis by (simp add: thread_goes_on(1))
  next
    case (thread_hears t status l)
    then have t: "t < length psts" using D(3) by simp
    have a: "answers_read (links x ! t) < length (peer_answers (links x ! t))" using thread_hears(4,5) by simp
    have at: "at_pc (coordinator x) t (Receiving status)" using thread_hears(2,3) by (simp add: at_pc_def)
    note c = answer_classified [OF inv t thread_hears(3) a]
    then obtain s where
      s: "receive t (delivered (peer_answers (links x ! t) ! answers_read (links x ! t))) (coordinator x) = ret s"
      by (simp add: receive_def thread_hears(3))
    have "(s, coordinator x) \<in> progress_order" using receive_progress [OF s at] c by (simp split: if_splits)
    moreover have "r = ret (x\<lparr>coordinator := s, links := (links x)[t := l\<lparr>answers_read := answers_read l + 1\<rparr>]\<rparr>)"
      using s unfolding thread_hears(1,4) by simp
    ultimately show ?thesis using answer [OF _ s _ t at c] by (simp add: thread_hears(4))
  next
    case (slave_accepts t l pst)
    with slave [of t "l\<lparr>slave_end := In_Session (sync_accepted pst)\<rparr>"] D(2) show ?thesis by simp
  next
    case (slave_hears t l c)
    then have t: "t < length psts" using D(2) by simp
    let ?out = "outbox (coordinator x) ! t"
    have pst: "node_ok b (psts ! t)" and commit: "commit_ok op b st"
      using ok t by (simp_all add: transaction_ok_def list_all_length)
    have l: "link_inv op b (psts ! t) ?out l" using D(5) [OF t] slave_hears(3) by simp
    obtain l' where l': "session_turn (delivered (?out ! taken l)) l = ret l'"
      "?out ! taken l = master_message ABORT [] \<or> taken l = 2 \<or> (\<exists>c'. slave_end l' = In_Session c')"
      by (rule session_turn_links [OF commit pst sent_prefix [OF D(1) t] slave_hears(5) l slave_hears(4)])
    have "master_message ABORT [] \<in> set ?out" if "?out ! taken l = master_message ABORT []"
      using nth_mem [OF slave_hears(5)] that by simp
    moreover have few: "taken l < 3" using l slave_hears(4) by (auto simp: link_inv_def)
    moreover have "slave_end l' \<noteq> Listening y" for y
      using l'(1) slave_hears(4) by (auto simp: session_turn_def bind_run_ret_iff split: if_splits)
    then have "link_rank (slave_end l') (taken l + 1) < link_rank (slave_end l) (taken l)"
      using few slave_hears(4) by (cases "slave_end l'") auto
    moreover have "r = ret (x\<lparr>links := (links x)[t := l'\<lparr>taken := taken l + 1\<rparr>]\<rparr>)"
      using l'(1) unfolding slave_hears(1,3) by simp
    ultimately show ?thesis
      using slave [of t "l'\<lparr>taken := taken l + 1\<rparr>"] t l'(2) slave_hears(3) by auto
  }
qed

lemma transaction_step_order:
  assumes "transaction_step (user_of op) (request_line op) x (ret y)"
    and "transaction_ok op b st psts" "transaction_inv op b st psts x"
  shows "(y, x) \<in> transaction_order"
  using transaction_step_cases [OF assms] links_rank_less transaction_invD(2) [OF assms(3)] by cases auto

section \<open>Without a failure\<close>

definition reliable_inv :: "operation \<Rightarrow> board \<Rightarrow> store \<Rightarrow> store list \<Rightarrow> transaction \<Rightarrow> bool" where
  \<comment> \<open>no thread has given up, and a session that has ended had read the verdict\<close>
  "reliable_inv op b st psts x \<longleftrightarrow> transaction_inv op b st psts x \<and> unhindered (coordinator x) \<and>
     (\<forall>i < length psts. \<forall>y. slave_end (links x ! i) = Served y \<longrightarrow> taken (links x ! i) = 3)"

lemma unhindered_at: "unhindered s \<Longrightarrow> t < length (peer_pcs s) \<Longrightarrow> peer_pcs s ! t = Finished o' \<Longrightarrow> o' = Confirmed"
  unfolding unhindered_def using nth_mem by metis

lemma no_abort:
  assumes "transaction_inv op b st psts x" "unhindered (coordinator x)" "t < length psts"
  shows "master_message ABORT [] \<notin> set (outbox (coordinator x) ! t)"
proof
  note D = transaction_invD [OF assms(1)]
  assume "master_message ABORT [] \<in> set (outbox (coordinator x) ! t)"
  then have "peer_pcs (coordinator x) ! t = Finished Aborted"
    unfolding sent_expected [OF D(1) assms(3)] by (rule abort_sent_aborted)
  then show False using unhindered_at [OF assms(2)] assms(3) D(3) by fastforce
qed

lemma reliable_step_safe:
  assumes step: "transaction_step (user_of op) (request_line op) x r"
    and ok: "transaction_ok op b st psts" and inv: "reliable_inv op b st psts x"
  shows "\<exists>y. r = ret y \<and> reliable_inv op b st psts y \<and> (y, x) \<in> transaction_order"
proof -
  have tinv: "transaction_inv op b st psts x" and unh: "unhindered (coordinator x)"
    and served: "\<And>i y. i < length psts \<Longrightarrow> slave_end (links x ! i) = Served y \<Longrightarrow> taken (links x ! i) = 3"
    using inv by (auto simp: reliable_inv_def)
  note D = transaction_invD [OF tinv]
  obtain y where y: "r = ret y" "transaction_inv op b st psts y"
    using transaction_step_safe [OF step ok tinv] by blast
  have "unhindered (coordinator y) \<and>
      (\<forall>i < length psts. \<forall>z. slave_end (links y ! i) = Served z \<longrightarrow> taken (links y ! i) = 3)"
    using step ok tinv
  proof (cases rule: transaction_step_cases)
    case (thread t s)
    then show ?thesis using y(1) served advance_unhindered [OF D(1) unh thread(2)] by simp
  next
    case (answer t s status e l)
    then show ?thesis
      using y(1) served D(2) receive_unhindered [OF unh answer(5,6,2)] by (auto simp: nth_list_update)
  next
    case (slave t l)
    then show ?thesis
      using y(1) served D(2) unh no_abort [OF tinv unh slave(2)] by (auto simp: nth_list_update)
  qed
  with y transaction_step_order [OF step [unfolded y(1)] ok tinv] show ?thesis
    by (simp add: reliable_inv_def del: in_measures)
qed

section \<open>The end of a transaction\<close>

definition transaction_over :: "transaction \<Rightarrow> bool" where
  "transaction_over x \<longleftrightarrow> all_finished (coordinator x) \<and> list_all (\<lambda>l. \<exists>pst. slave_end l = Served pst) (links x)"

lemma slave_can_go_on:
  assumes inv: "reliable_inv op b st psts x" and t: "t < length psts"
    and less: "taken (links x ! t) < length (outbox (coordinator x) ! t)"
  shows "\<exists>r. transaction_step (user_of op) (request_line op) x r"
proof -
  have tinv: "transaction_inv op b st psts x" using inv by (simp add: reliable_inv_def)
  note D = transaction_invD [OF tinv]
  have l: "t < length (links x)" using t D(2) by simp
  show ?thesis
  proof (cases "slave_end (links x ! t)")
    case (Listening pst)
    then show ?thesis using slave_accepts [OF l refl Listening] less by fastforce
  next
    case (In_Session c)
    then show ?thesis using slave_hears [OF l refl In_Session] less by fastforce
  next
    case (Served pst)
    then have "taken (links x ! t) = 3" using inv t by (simp add: reliable_inv_def)
    then show ?thesis using less sent_prefix [OF D(1) t] by (simp add: protocol_prefix_def)
  qed
qed

lemma some_thread_awake:
  assumes "master_inv n st user command s" "\<not> all_finished s" "no_recv_failed s"
  shows "\<exists>t < length (peer_pcs s). \<not> blocked (peer_pcs s ! t)"
proof -
  have "\<exists>p \<in> set (peer_pcs s). \<not> blocked p"
    using asleep_has_waker [OF assms(1)] assms(2,3) unfolding all_finished_def no_recv_failed_def
    by (metis blocked.elims(2))
  then show ?thesis by (metis in_set_conv_nth)
qed

lemma transaction_goes_on:
  assumes inv: "reliable_inv op b st psts x" and over: "\<not> transaction_over x"
  shows "\<exists>r. transaction_step (user_of op) (request_line op) x r"
proof -
  have tinv: "transaction_inv op b st psts x" and unh: "unhindered (coordinator x)"
    using inv by (simp_all add: reliable_inv_def)
  note D = transaction_invD [OF tinv]
  show ?thesis
  proof (cases "all_finished (coordinator x)")
    case True
    obtain t where t: "t < length psts" "\<forall>pst. slave_end (links x ! t) \<noteq> Served pst"
      using over True D(2) by (auto simp: transaction_over_def list_all_length)
    obtain o' where "peer_pcs (coordinator x) ! t = Finished o'" using all_finished_at [OF True] t(1) D(3) by metis
    then have "peer_pcs (coordinator x) ! t = Finished Confirmed" using unhindered_at [OF unh] t(1) D(3) by metis
    then have "length (outbox (coordinator x) ! t) = 3" unfolding sent_expected [OF D(1) t(1)] by simp
    moreover have "taken (links x ! t) < 3"
      using D(5) [OF t(1)] t(2) by (auto simp: link_inv_def split: slave_end.splits)
    ultimately show ?thesis by (intro slave_can_go_on [OF inv t(1)]) simp
  next
    case False
    then obtain t where t: "t < length psts" "\<not> blocked (peer_pcs (coordinator x) ! t)"
      using some_thread_awake [OF D(1) _ unhindered_no_recv_failed [OF unh]] D(3) by metis
    show ?thesis
    proof (cases "acts (peer_pcs (coordinator x) ! t)")
      case True
      then show ?thesis using thread_goes_on [of t x] t(1) D(3) by fastforce
    next
      case wait: False
      then obtain status where p: "peer_pcs (coordinator x) ! t = Receiving status" using t(2) by (auto simp: acts_iff)
      show ?thesis
      proof (cases "taken (links x ! t) < length (outbox (coordinator x) ! t)")
        case True
        then show ?thesis by (rule slave_can_go_on [OF inv t(1)])
      next
        case False
        moreover have "length (outbox (coordinator x) ! t) = (if status = PRECOMMIT_SENT then 1 else 2)"
          unfolding sent_expected [OF D(1) t(1)] p by (cases status) simp_all
        ultimately have "answers_read (links x ! t) < length (peer_answers (links x ! t))"
          using D(5,6) [OF t(1)] inv t(1) by (cases status) (auto simp: p reliable_inv_def link_inv_def answers_to_def
              replies_acknowledged awaiting_verdict_def split: slave_end.splits)
        then show ?thesis using thread_hears [of t x status, OF _ p refl] t(1) D(3) by fastforce
      qed
    qed
  qed
qed

interpretation reliable: terminating_system "transaction_step (user_of op) (request_line op)"
    "\<lambda>x. transaction_ok op b st psts \<and> reliable_inv op b st psts x" transaction_over transaction_order
  for op b st psts
  by unfold_locales (use reliable_step_safe transaction_goes_on in \<open>auto 0 4 simp del: in_measures\<close>)

lemma reliable_outcome:
  assumes ok: "transaction_ok op b st psts" and inv: "reliable_inv op b st psts x" and over: "transaction_over x"
  shows "commit_answer op (coordinator x) = fst (board_spec op b)"
    and "node_ok (snd (board_spec op b)) (master_store (coordinator x))"
    and "i < length psts \<Longrightarrow> \<exists>pst. slave_end (links x ! i) = Served pst \<and> node_ok (snd (board_spec op b)) pst"
proof -
  have tinv: "transaction_inv op b st psts x" and unh: "unhindered (coordinator x)"
    using inv by (simp_all add: reliable_inv_def)
  have n: "0 < length psts" and commit: "commit_ok op b st" using ok by (simp_all add: transaction_ok_def)
  have fin: "all_finished (coordinator x)" using over by (simp add: transaction_over_def)
  obtain un st' where run: "master_operation (user_of op) (request_line op) st = ret (fst (board_spec op b), un, st')"
    "\<not> contains ERROR (fst (board_spec op b))"
    by (rule master_performs [OF commit])
  have performed: "masterOperationCompletionMessage (stats (coordinator x)) \<noteq> []"
    using unhindered_end(1) [OF transaction_invD(1) [OF tinv] fin unh n run] master_operation_nonempty [OF run(1)] by simp
  then show "commit_answer op (coordinator x) = fst (board_spec op b)"
    "node_ok (snd (board_spec op b)) (master_store (coordinator x))"
    using master_outcome [OF tinv ok] by simp_all
  show "\<exists>pst. slave_end (links x ! i) = Served pst \<and> node_ok (snd (board_spec op b)) pst" if i: "i < length psts"
  proof -
    obtain pst where pst: "slave_end (links x ! i) = Served pst"
      using over i transaction_invD(2) [OF tinv] by (auto simp: transaction_over_def list_all_length)
    moreover have "taken (links x ! i) = 3" using inv i pst by (simp add: reliable_inv_def)
    ultimately show ?thesis
      using peer_node_ok [OF tinv ok i, of pst] performed by (simp add: peer_store_def)
  qed
qed

section \<open>With failures\<close>

definition ending_step :: "bytes \<Rightarrow> bytes \<Rightarrow> transaction \<Rightarrow> transaction run \<Rightarrow> bool" where
  \<comment> \<open>the regular steps and the failures\<close>
  "ending_step user command x r \<longleftrightarrow>
     transaction_step user command x r \<or> (\<exists>y. r = ret y \<and> failure_step user command x y)"

definition ending_inv :: "operation \<Rightarrow> board \<Rightarrow> store \<Rightarrow> store list \<Rightarrow> transaction \<Rightarrow> bool" where
  "ending_inv op b st psts x \<longleftrightarrow> transaction_inv op b st psts x \<and> no_recv_failed (coordinator x)"

definition sessions_over :: "transaction \<Rightarrow> bool" where
  "sessions_over x \<longleftrightarrow> all_finished (coordinator x) \<and> list_all (\<lambda>l. peer_store l \<noteq> None) (links x)"

lemma no_recv_failed_broadcast [simp]: "no_recv_failed (broadcast_peers s) = no_recv_failed s"
  by (auto simp: no_recv_failed_def)

lemma no_recv_failed_stats [simp]:
  "no_recv_failed (s\<lparr>stats := x\<rparr>) = no_recv_failed s" "no_recv_failed (s\<lparr>master_store := st\<rparr>) = no_recv_failed s"
  by (simp_all add: no_recv_failed_def)

lemma advance_no_recv_failed:
  "advance user command t s = ret s' \<Longrightarrow> no_recv_failed s \<Longrightarrow> no_recv_failed s'"
  by (cases "peer_pcs s ! t")
     (auto simp: advance_def connect_succeeds_def ready_test_def ready_decide_def commit_test_def commit_decide_def
        operate_def confirm_def Let_def bind_run_ret_iff intro!: no_recv_failed_goto split: if_splits)

lemma receive_no_recv_failed:
  assumes "receive t e s = ret s'" "at_pc s t (Receiving status)" "classify_response status e \<noteq> ret On_Error" "no_recv_failed s"
  shows "no_recv_failed s'"
proof -
  obtain r where r: "classify_response status e = ret r" "s' = react t status r s"
    using assms(1,2) by (auto simp: receive_def at_pc_def bind_run_ret_iff)
  then show ?thesis
    using assms(3,4)
    by (cases r) (auto simp: on_ready_def ready_test_def on_commit_success_def commit_test_def on_commit_unsuccess_def
        on_lost_def Let_def intro!: no_recv_failed_goto)
qed

lemma session_ends_less:
  assumes inv: "transaction_inv op b st psts x" and t: "t < length psts"
    and e: "e = Poll_Timeout \<or> e = delivered []" and run: "session_turn e (links x ! t) = ret l"
  shows "(x\<lparr>links := (links x)[t := l]\<rparr>, x) \<in> transaction_order"
proof (rule links_rank_less)
  note D = transaction_invD [OF inv]
  show "t < length (links x)" using t D(2) by simp
  obtain c where c: "slave_end (links x ! t) = In_Session c"
    using run by (auto simp: session_turn_def split: slave_end.splits)
  have "taken (links x ! t) < 3" using D(5) [OF t] c by (auto simp: link_inv_def)
  moreover have "\<exists>y. slave_end l = Served y"
    using run e c by (auto simp: session_turn_def sync_turn_def recv_nonblock_def recv_nodata_def bind_run_ret_iff)
  ultimately show "link_rank (slave_end l) (taken l) < link_rank (slave_end (links x ! t)) (taken (links x ! t))"
    using c by auto
qed

lemma failure_step_safe:
  assumes step: "failure_step (user_of op) (request_line op) x y"
    and ok: "transaction_ok op b st psts" and inv: "ending_inv op b st psts x"
  shows "ending_inv op b st psts y \<and> (y, x) \<in> transaction_order"
proof -
  have tinv: "transaction_inv op b st psts x" and fine: "no_recv_failed (coordinator x)"
    using inv by (simp_all add: ending_inv_def)
  note D = transaction_invD [OF tinv]
  have lost: "no_recv_failed s \<and> (x\<lparr>coordinator := s\<rparr>, x) \<in> transaction_order"
    if r: "receive t e (coordinator x) = ret s" and t: "t < length (peer_pcs (coordinator x))"
      and e: "e = Poll_Timeout \<or> e = delivered []" for t e s
  proof -
    from r t obtain status where at: "at_pc (coordinator x) t (Receiving status)"
      by (auto simp: receive_def at_pc_def split: peer_pc.splits)
    have "classify_response status e = ret On_Lost"
      using e by (auto simp: classify_response_def recv_nonblock_def)
    with receive_progress [OF r at] receive_no_recv_failed [OF r at] fine show ?thesis by auto
  qed
  have "no_recv_failed (coordinator y) \<and> (y, x) \<in> transaction_order"
    using step
  proof cases
    case (peer_refuses t)
    have "no_recv_failed (connect_fails t (coordinator x))"
      using fine by (auto simp: connect_fails_def intro: no_recv_failed_goto)
    with peer_refuses connect_fails_progress [OF peer_refuses(2)] show ?thesis by auto
  next
    case (thread_times_out t s)
    then show ?thesis using lost by (simp del: in_measures)
  next
    case (thread_sees_close t l pst s)
    then show ?thesis using lost by (simp del: in_measures)
  next
    case (slave_gives_up t l l')
    with session_ends_less [OF tinv, of t Poll_Timeout] fine D(2) show ?thesis by (simp del: in_measures)
  next
    case (slave_sees_close t l o' l')
    with session_ends_less [OF tinv, of t "delivered []"] fine D(2) show ?thesis by (simp del: in_measures)
  qed
  then show ?thesis using failure_step_inv [OF step ok tinv] by (simp add: ending_inv_def del: in_measures)
qed

lemma ending_step_safe:
  assumes step: "ending_step (user_of op) (request_line op) x r"
    and ok: "transaction_ok op b st psts" and inv: "ending_inv op b st psts x"
  shows "\<exists>y. r = ret y \<and> ending_inv op b st psts y \<and> (y, x) \<in> transaction_order"
  using step unfolding ending_step_def
proof (elim disjE exE conjE)
  fix y
  assume "failure_step (user_of op) (request_line op) x y" "r = ret y"
  then show ?thesis using failure_step_safe [OF _ ok inv] by blast
next
  assume step: "transaction_step (user_of op) (request_line op) x r"
  have tinv: "transaction_inv op b st psts x" and fine: "no_recv_failed (coordinator x)"
    using inv by (simp_all add: ending_inv_def)
  obtain y where y: "r = ret y" "transaction_inv op b st psts y"
    using transaction_step_safe [OF step ok tinv] by blast
  have "no_recv_failed (coordinator y)"
    using step ok tinv
  proof (cases rule: transaction_step_cases)
    case (thread t s)
    then show ?thesis using y(1) advance_no_recv_failed [OF thread(2) fine] by simp
  next
    case (answer t s status e l)
    then show ?thesis using y(1) receive_no_recv_failed [OF answer(2,5) _ fine] by (simp split: if_splits)
  qed (use y(1) fine in simp)
  with y transaction_step_order [OF step [unfolded y(1)] ok tinv] show ?thesis
    by (simp add: ending_inv_def del: in_measures)
qed

lemma ending_step_exists:
  assumes ok: "transaction_ok op b st psts" and inv: "ending_inv op b st psts x" and over: "\<not> sessions_over x"
  shows "\<exists>r. ending_step (user_of op) (request_line op) x r"
proof -
  have tinv: "transaction_inv op b st psts x" and fine: "no_recv_failed (coordinator x)"
    using inv by (simp_all add: ending_inv_def)
  note D = transaction_invD [OF tinv]
  show ?thesis
  proof (cases "all_finished (coordinator x)")
    case True
    then obtain t where t: "t < length psts" "peer_store (links x ! t) = None"
      using over D(2) by (auto simp: sessions_over_def list_all_length)
    then obtain c where c: "slave_end (links x ! t) = In_Session c" by (auto simp: peer_store_def split: slave_end.splits)
    have pst: "node_ok b (psts ! t)" and commit: "commit_ok op b st"
      using ok t by (simp_all add: transaction_ok_def list_all_length)
    obtain l where "session_turn Poll_Timeout (links x ! t) = ret l"
      using session_can_end [OF commit pst D(5) [OF t(1)] c] by blast
    from slave_gives_up [OF _ refl this] t(1) D(2) show ?thesis unfolding ending_step_def by auto
  next
    case False
    then obtain t where t: "t < length psts" "\<not> blocked (peer_pcs (coordinator x) ! t)"
      using some_thread_awake [OF D(1) _ fine] D(3) by metis
    show ?thesis
    proof (cases "acts (peer_pcs (coordinator x) ! t)")
      case True
      then show ?thesis using thread_goes_on [of t x] t(1) D(3) unfolding ending_step_def by fastforce
    next
      case False
      then obtain status where "peer_pcs (coordinator x) ! t = Receiving status" using t(2) by (auto simp: acts_iff)
      then have "receive t Poll_Timeout (coordinator x) = ret (on_lost t status (coordinator x))"
        by (simp add: receive_def classify_timeout)
      from thread_times_out [OF _ this] t(1) D(3) show ?thesis unfolding ending_step_def by auto
    qed
  qed
qed

interpretation ending: terminating_system "ending_step (user_of op) (request_line op)"
    "\<lambda>x. transaction_ok op b st psts \<and> ending_inv op b st psts x" sessions_over transaction_order
  for op b st psts
  by unfold_locales (use ending_step_safe ending_step_exists in \<open>auto 0 4 simp del: in_measures\<close>)

section \<open>Properties\<close>

text \<open>C4: a transaction over a network that loses nothing is always carried out. The threads of the master
  and the sessions of the peers take their steps in any order; on every run, after finitely many of
  them, none of which crashes or waits for ever, all threads have finished, the client is told what
  the board answers, and the master and every peer hold the new board with their locks released.\<close>

theorem reliable_commit_succeeds:
  assumes "\<not> reads op" "valid_command op st = ret (True, e)" "group_ok (length b) op" "slash_free b"
    and "\<forall>s \<in> set (st # psts). represents s b \<and> available s \<and> access_control s = initial_access"
    and "psts \<noteq> []" "length psts < 2 ^ 64"
  shows "inevitably (transaction_step (user_of op) (request_line op))
    (\<lambda>x. all_finished (coordinator x) \<and> commit_answer op (coordinator x) = fst (board_spec op b) \<and>
       represents (master_store (coordinator x)) (snd (board_spec op b)) \<and>
       access_control (master_store (coordinator x)) = initial_access \<and>
       (\<forall>i < length psts. \<exists>pst. slave_end (links x ! i) = Served pst \<and>
          represents pst (snd (board_spec op b)) \<and> access_control pst = initial_access))
    (transaction_start st psts)"
proof -
  have ok: "transaction_ok op b st psts"
    using assms by (auto simp: transaction_ok_def commit_ok_def node_ok_def list_all_iff)
  have "reliable_inv op b st psts (transaction_start st psts)"
    by (simp add: reliable_inv_def transaction_start_inv) (auto simp: transaction_start_def unhindered_def)
  then have "inevitably (transaction_step (user_of op) (request_line op))
      (\<lambda>x. (transaction_ok op b st psts \<and> reliable_inv op b st psts x) \<and> transaction_over x)
      (transaction_start st psts)"
    using ok by (intro reliable.reaches_goal) simp
  then show ?thesis
  proof (rule inevitably_mono)
    fix x assume x: "(transaction_ok op b st psts \<and> reliable_inv op b st psts x) \<and> transaction_over x"
    then have "reliable_inv op b st psts x" "transaction_over x" by simp_all
    note out = reliable_outcome [OF ok this]
    show "all_finished (coordinator x) \<and> commit_answer op (coordinator x) = fst (board_spec op b) \<and>
       represents (master_store (coordinator x)) (snd (board_spec op b)) \<and>
       access_control (master_store (coordinator x)) = initial_access \<and>
       (\<forall>i < length psts. \<exists>pst. slave_end (links x ! i) = Served pst \<and>
          represents pst (snd (board_spec op b)) \<and> access_control pst = initial_access)"
      using x out(1,2) out(3) unfolding node_ok_def transaction_over_def by blast
  qed
qed

theorem reliable_commit_succeeds_witness:
  "inevitably (transaction_step ''ann'' (request_line (Write ''ann'' ''hi'')))
     (\<lambda>x. \<forall>i < 2. \<exists>pst. slave_end (links x ! i) = Served pst \<and> represents pst [(''ann'', ''hi'')])
     (transaction_start (example_node []) [example_node [], example_node []])"
proof -
  let ?op = "Write ''ann'' ''hi''" and ?st = "example_node []"
  have "group_ok (length []) ?op"
    using short_entry_fits [of 0] by (simp add: group_ok_def command_ok_def wire_ok_def word_def)
  moreover have "\<forall>s \<in> set (?st # [?st, ?st]). represents s [] \<and> available s \<and> access_control s = initial_access"
    using example_start by simp
  ultimately have "inevitably (transaction_step (user_of ?op) (request_line ?op))
    (\<lambda>x. all_finished (coordinator x) \<and> commit_answer ?op (coordinator x) = fst (board_spec ?op []) \<and>
       represents (master_store (coordinator x)) (snd (board_spec ?op [])) \<and>
       access_control (master_store (coordinator x)) = initial_access \<and>
       (\<forall>i < length [?st, ?st]. \<exists>pst. slave_end (links x ! i) = Served pst \<and>
          represents pst (snd (board_spec ?op [])) \<and> access_control pst = initial_access))
    (transaction_start ?st [?st, ?st])"
    by (intro reliable_commit_succeeds) (simp_all add: reads_def valid_command_def slash_free_def)
  then have "inevitably (transaction_step (user_of ?op) (request_line ?op))
     (\<lambda>x. \<forall>i < 2. \<exists>pst. slave_end (links x ! i) = Served pst \<and> represents pst [(''ann'', ''hi'')])
     (transaction_start ?st [?st, ?st])"
    by (rule inevitably_mono) (simp add: numeral_2_eq_2, blast)
  then show ?thesis by simp
qed

text \<open>C5: a transaction always ends, and ends well, even when connections are refused, reads time out and
  peers hang up. On every run, after finitely many steps, none of which crashes or waits for ever,
  the threads of the master have finished and no session is left; all locks are free again, and
  either the client has the answer of the board and the master holds the new board, or it has
  been refused and no node has changed.\<close>

theorem transaction_always_ends:
  assumes "\<not> reads op" "valid_command op st = ret (True, e)" "group_ok (length b) op" "slash_free b"
    and "\<forall>s \<in> set (st # psts). represents s b \<and> available s \<and> access_control s = initial_access"
    and "psts \<noteq> []" "length psts < 2 ^ 64"
  shows "inevitably (ending_step (user_of op) (request_line op))
    (\<lambda>x. all_finished (coordinator x) \<and>
       (commit_answer op (coordinator x) = fst (board_spec op b) \<and>
          represents (master_store (coordinator x)) (snd (board_spec op b)) \<or>
        commit_answer op (coordinator x) = failed_answer op \<and> master_store (coordinator x) = st \<and>
          (\<forall>i < length psts. peer_store (links x ! i) = Some (psts ! i))) \<and>
       access_control (master_store (coordinator x)) = initial_access \<and>
       (\<forall>i < length psts. \<exists>y. peer_store (links x ! i) = Some y \<and> access_control y = initial_access))
    (transaction_start st psts)"
proof -
  have ok: "transaction_ok op b st psts"
    using assms by (auto simp: transaction_ok_def commit_ok_def node_ok_def list_all_iff)
  have "ending_inv op b st psts (transaction_start st psts)"
    by (simp add: ending_inv_def transaction_start_inv) (auto simp: transaction_start_def no_recv_failed_def)
  then have "inevitably (ending_step (user_of op) (request_line op))
      (\<lambda>x. (transaction_ok op b st psts \<and> ending_inv op b st psts x) \<and> sessions_over x)
      (transaction_start st psts)"
    using ok by (intro ending.reaches_goal) simp
  then show ?thesis
  proof (rule inevitably_mono)
    fix x assume x: "(transaction_ok op b st psts \<and> ending_inv op b st psts x) \<and> sessions_over x"
    then have inv: "transaction_inv op b st psts x" and fin: "all_finished (coordinator x)"
      by (simp_all add: ending_inv_def sessions_over_def)
    have some: "\<exists>y. peer_store (links x ! i) = Some y" if "i < length psts" for i
      using x that transaction_invD(2) [OF inv] by (auto simp: sessions_over_def list_all_length)
    have peers: "\<exists>y. peer_store (links x ! i) = Some y \<and> access_control y = initial_access" if i: "i < length psts" for i
      using some [OF i] peer_node_ok [OF inv ok i] by (auto simp: node_ok_def split: if_splits)
    note master = master_outcome [OF inv ok]
    show "all_finished (coordinator x) \<and>
       (commit_answer op (coordinator x) = fst (board_spec op b) \<and>
          represents (master_store (coordinator x)) (snd (board_spec op b)) \<or>
        commit_answer op (coordinator x) = failed_answer op \<and> master_store (coordinator x) = st \<and>
          (\<forall>i < length psts. peer_store (links x ! i) = Some (psts ! i))) \<and>
       access_control (master_store (coordinator x)) = initial_access \<and>
       (\<forall>i < length psts. \<exists>y. peer_store (links x ! i) = Some y \<and> access_control y = initial_access)"
    proof (cases "masterOperationCompletionMessage (stats (coordinator x)) = []")
      case True
      then have "master_store (coordinator x) = st"
        using transaction_invD(1) [OF inv] by (simp add: master_inv_def operation_inv_def)
      moreover have "peer_store (links x ! i) = Some (psts ! i)" if i: "i < length psts" for i
        using some [OF i] peer_outcome [OF inv ok i] True by auto
      ultimately show ?thesis using True master fin peers by (auto simp: node_ok_def)
    next
      case False
      then show ?thesis using master fin peers by (auto simp: node_ok_def)
    qed
  qed
qed

theorem transaction_always_ends_witness:
  "inevitably (ending_step ''ann'' (request_line (Write ''ann'' ''hi'')))
     (\<lambda>x. all_finished (coordinator x) \<and> (\<forall>i < 2. \<exists>y. peer_store (links x ! i) = Some y))
     (transaction_start (example_node []) [example_node [], example_node []])"
proof -
  let ?op = "Write ''ann'' ''hi''" and ?st = "example_node []"
  have "group_ok (length []) ?op"
    using short_entry_fits [of 0] by (simp add: group_ok_def command_ok_def wire_ok_def word_def)
  moreover have "\<forall>s \<in> set (?st # [?st, ?st]). represents s [] \<and> available s \<and> access_control s = initial_access"
    using example_start by simp
  ultimately have "inevitably (ending_step (user_of ?op) (request_line ?op))
     (\<lambda>x. all_finished (coordinator x) \<and> (\<forall>i < 2. \<exists>y. peer_store (links x ! i) = Some y))
     (transaction_start ?st [?st, ?st])"
    by (intro inevitably_mono [OF transaction_always_ends [of ?op ?st "[]" "[]" "[?st, ?st]"]])
       (simp_all add: reads_def valid_command_def slash_free_def, simp add: numeral_2_eq_2, blast)
  then show ?thesis by simp
qed

end
