(* ===== verification/Crash_Recovery.thy ===== *)
theory Crash_Recovery
  imports Board_Spec Configuration
begin

text \<open>
  The server is killed at any moment, while its threads are at work on the board file
  (\<open>file-operations.cpp\<close>), and started again on the same disk (\<open>main.cpp\<close>). The threads take the
  steps of \<open>Concurrent_Board\<close>; all that is left of them is the disk. A message is appended by one
  \<open>write\<close>; the in-place rewriting of a REPLACE, several system calls, is one step there, and a kill
  inside of it is the subject of \<open>Interrupted_Replace\<close>.
\<close>

section \<open>What is on the disk\<close>

lemma spec_run_length: "spec_run h b = Some b' \<Longrightarrow> length b' \<le> length b + length h"
proof (induction h b rule: spec_run.induct)
  case (2 op r h b)
  then show ?case using board_spec_length [of op b] by (auto split: if_splits)
qed simp

definition half_written :: "board_system \<Rightarrow> (bytes \<times> bytes) set" where
  \<comment> \<open>messages that have been appended to the file but are not counted and not answered yet\<close>
  "half_written s = {(u, m). \<exists>t < length (jobs s). \<exists>k. jobs s ! t = Appended u m k}"

definition board_text :: "board \<Rightarrow> bytes" where
  "board_text b = lines_text (board_lines b)"

lemma board_text_snoc:
  assumes "good_board b" "good_entry (u, m)" "length (line_of (int (length b)) u m) < 254"
  shows "board_text b @ message_line (int (length b)) u m = board_text (b @ [(u, m)])" "good_board (b @ [(u, m)])"
  using assms by (simp_all add: board_text_def board_lines_snoc message_line_fits good_board_snoc)

lemma disk_after_kill:
  assumes run: "reach (board_init n st) board_step s" "access_control st = initial_access"
    and st: "represents st b" "available st"
    and ok: "list_all (\<lambda>e. command_ok k (fst (snd e))) (history s)"
      "\<forall>(u, m) \<in> half_written s. command_ok k (Write u m)" "length b + length (history s) \<le> k"
  obtains b' where "spec_run (map snd (history s)) b = Some b'" "good_board b'" "available (board s)"
    "content (board_file (board s)) = board_text b' \<or>
     (\<exists>u m. (u, m) \<in> half_written s \<and> good_board (b' @ [(u, m)]) \<and>
        content (board_file (board s)) = board_text (b' @ [(u, m)]))"
proof -
  have inv: "board_inv n st s" by (rule board_inv_reach [OF run])
  then have "replay (map snd (history s)) st = ret (settled s)" by (simp add: board_inv_def explained_def)
  from replay_spec [OF this st run(2), of k] ok(1,3) obtain b' where
    b': "spec_run (map snd (history s)) b = Some b'" "represents (settled s) b'" "available (settled s)"
    by (auto simp: list_all_iff)
  have "length b' \<le> k" using spec_run_length [OF b'(1)] ok(3) by simp
  have "content (board_file (board s)) = board_text b' \<or>
     (\<exists>u m. (u, m) \<in> half_written s \<and> good_board (b' @ [(u, m)]) \<and>
        content (board_file (board s)) = board_text (b' @ [(u, m)]))"
  proof (cases "find appended (jobs s)")
    case None
    then have "settled s = board s" by (simp add: settled_def)
    then show ?thesis using b'(2) by (simp add: represents_def board_text_def)
  next
    case (Some j)
    then obtain t where t: "t < length (jobs s)" "jobs s ! t = j" "appended j" by (auto simp: find_Some_iff)
    then obtain u m i where j: "j = Appended u m i" by (cases j) auto
    with t(2) have at: "jobs s ! t = Appended u m i" by simp
    then have half: "(u, m) \<in> half_written s" using t(1) at by (auto simp: half_written_def)
    have "job_ok (board s) (pcs (lock s) ! t) (Appended u m i)"
      using inv t(1) at by (metis board_inv_def jobs_ok_def)
    then have split: "content (board_file (board s)) =
        take i (content (board_file (board s))) @ message_line (message_number (board s)) u m"
      by simp
    have "settled s = edit_board (take i) (board s)" using Some j by (simp add: settled_def)
    then have "take i (content (board_file (board s))) = board_text b'" "message_number (board s) = int (length b')"
      "good_board b'"
      using b'(2) by (simp_all add: represents_def board_text_def edit_board_def)
    moreover have "good_entry (u, m)" "length (line_of (int (length b')) u m) < 254"
      using ok(2) half \<open>length b' \<le> k\<close> by (auto simp: command_ok_def)
    ultimately show ?thesis using split half board_text_snoc by metis
  qed
  moreover have "available (board s)"
    using b'(3) by (auto simp: available_def settled_def settle_def edit_board_def split: option.splits job.splits)
  ultimately show thesis using that b' by (simp add: represents_def)
qed

lemma answers_took_effect:
  assumes "reach (board_init n st) board_step s" "access_control st = initial_access"
  shows "set (answers s) \<subseteq> set (history s)"
proof
  fix e
  assume e: "e \<in> set (answers s)"
  have "of_thread (fst e) (history s) = of_thread (fst e) (answers s) @ pending (fst e) (jobs s)"
    using board_inv_reach [OF assms] by (simp add: board_inv_def answered_def)
  moreover have "e \<in> set (of_thread (fst e) (answers s))" using e by (simp add: of_thread_def)
  ultimately have "e \<in> set (of_thread (fst e) (history s))" by simp
  then show "e \<in> set (history s)" by (simp add: of_thread_def)
qed

section \<open>Properties\<close>



end
