(* ===== verification/Interrupted_Replace.thy ===== *)
theory Interrupted_Replace
  imports Crash_Recovery
begin

text \<open>
  The in-place rewriting of \<open>optimalReplaceAlgorithm\<close> (\<open>file-operations.cpp\<close>) one system call at a
  time: what is on the disk when the process is killed in the middle of a REPLACE, which
  \<open>Crash_Recovery\<close> leaves out.
\<close>

section \<open>The contents of the file after each write\<close>

function backward_states :: "int \<Rightarrow> bytes \<Rightarrow> nat \<Rightarrow> nat \<Rightarrow> bytes list" where
  \<comment> \<open>the loop \<open>shift_backward\<close>\<close>
  "backward_states fileSizeAfterReplacement f rd currentWriterPosition =
     (if int currentWriterPosition < fileSizeAfterReplacement then
        let got = pread f rd 1;
            readOutput = (if got = [] then NUL else hd got);
            f' = pwrite f currentWriterPosition [readOutput]
        in f' # backward_states fileSizeAfterReplacement f' (rd + length got) (currentWriterPosition + 1)
      else [])"
  by pat_completeness auto
termination
  by (relation "measure (\<lambda>(n, f, rd, wr). nat (n - int wr))") auto

declare backward_states.simps [simp del]

function forward_states :: "nat \<Rightarrow> bytes \<Rightarrow> nat \<Rightarrow> int \<Rightarrow> nat \<Rightarrow> bytes list" where
  \<comment> \<open>the loop \<open>shift_forward\<close>\<close>
  "forward_states temp f rd currentReaderPosition wr =
     (if int temp \<le> currentReaderPosition then
        let got = pread f rd 1;
            readOutput = (if got = [] then NUL else hd got);
            f' = pwrite f wr [readOutput];
            (currentReaderPosition', rd') = lseek f' (rd + length got) (-2) SEEK_CUR;
            (_, wr') = lseek f' (wr + 1) (-2) SEEK_CUR
        in f' # forward_states temp f' rd' currentReaderPosition' wr'
      else [])"
  by pat_completeness auto
termination
  by (relation "measure (\<lambda>(temp, f, rd, cur, wr). if cur < 0 then 0 else Suc rd)")
     (auto simp: lseek_def pread_def Let_def split: if_splits)

declare forward_states.simps [simp del]

definition rewrite_states :: "bytes \<Rightarrow> nat \<Rightarrow> nat \<Rightarrow> bytes \<Rightarrow> bytes list" where
  \<comment> \<open>\<open>rewrite_line\<close>, with what every \<open>write\<close> and the \<open>ftruncate\<close> leave in the file\<close>
  "rewrite_states f totalBytesBeforeLineToReplace lengthOfLineToBeReplaced lineToStore =
     (if lengthOfLineToBeReplaced = length lineToStore then
        [pwrite f totalBytesBeforeLineToReplace lineToStore]
      else
        let differenceInLength = int (length lineToStore) - int lengthOfLineToBeReplaced in
        if differenceInLength < 0 then
          let rd = totalBytesBeforeLineToReplace + lengthOfLineToBeReplaced;
              f1 = pwrite f totalBytesBeforeLineToReplace lineToStore;
              currentWriterPosition = totalBytesBeforeLineToReplace + length lineToStore;
              fileSizeAfterReplacement = int (length f1) + differenceInLength;
              gs = f1 # backward_states fileSizeAfterReplacement f1 rd currentWriterPosition
          in gs @ [ftruncate (last gs) fileSizeAfterReplacement]
        else
          let (currentReaderPosition, rd) = lseek f 0 (-1) SEEK_END;
              (_, wr) = lseek f 0 (differenceInLength - 1) SEEK_END;
              temp = totalBytesBeforeLineToReplace + lengthOfLineToBeReplaced;
              gs = forward_states temp f rd currentReaderPosition wr
          in gs @ [pwrite (last (f # gs)) totalBytesBeforeLineToReplace lineToStore])"

definition replace_states :: "disk_file \<Rightarrow> bytes \<Rightarrow> int \<Rightarrow> bytes \<Rightarrow> bytes list run" where
  \<comment> \<open>\<open>optimalReplaceAlgorithm\<close>; without write access nothing is written\<close>
  "replace_states f newUser messageNumberToReplace new_message =
     (let lineToStore =
        snprintf 4096 (to_string messageNumberToReplace @ [SLASH] @ cstr newUser @ [SLASH] @
                       cstr new_message @ [LF])
      in bind_run (obtainLengthOfLineToBeReplaced f messageNumberToReplace 0)
        (\<lambda>(lengthOfLineToBeReplaced, totalBytesBeforeLineToReplace).
          if writable f then
            ret (rewrite_states (content f) (nat totalBytesBeforeLineToReplace)
                   (nat lengthOfLineToBeReplaced) lineToStore)
          else if int (length lineToStore) < lengthOfLineToBeReplaced
          then crash Uninitialised_Read
          else ret []))"

text \<open>The last of them is the result of the operation.\<close>

lemma last_cons: "last [x] = x" "last (x # y # ys) = last (y # ys)"
  by simp_all

lemma last_backward_states: "last (f # backward_states n f rd wr) = shift_backward n f rd wr"
proof (induction n f rd wr rule: shift_backward.induct)
  case (1 n f rd wr)
  show ?case
  proof (cases "int wr < n")
    case True
    note step = 1 [OF True refl refl refl]
    show ?thesis
      by (subst backward_states.simps, subst shift_backward.simps)
         (simp only: True if_True Let_def last_cons step [unfolded Let_def])
  qed (simp add: backward_states.simps shift_backward.simps)
qed

lemma last_forward_states: "last (f # forward_states temp f rd cur wr) = shift_forward temp f rd cur wr"
proof (induction temp f rd cur wr rule: shift_forward.induct)
  case (1 temp f rd cur wr)
  show ?case
  proof (cases "int temp \<le> cur")
    case True
    note step = 1 [OF True refl refl refl refl prod.collapse refl prod.collapse]
    show ?thesis
      by (subst forward_states.simps, subst shift_forward.simps)
         (simp only: True if_True Let_def case_prod_beta last_cons step [unfolded Let_def])
  qed (simp add: forward_states.simps shift_forward.simps)
qed

lemma last_rewrite_states: "last (rewrite_states f off len line) = rewrite_line f off len line"
  using last_backward_states last_forward_states
  by (simp add: rewrite_states_def rewrite_line_def Let_def split: prod.split)

lemma rewrite_states_nonempty: "rewrite_states f off len line \<noteq> []"
  by (simp add: rewrite_states_def Let_def split: prod.split)

lemma replace_states_end:
  "optimalReplaceAlgorithm f u n m =
   bind_run (replace_states f u n m) (\<lambda>gs. ret (f\<lparr>content := last (content f # gs)\<rparr>))"
  by (simp add: optimalReplaceAlgorithm_def replace_states_def Let_def bind_run_assoc last_rewrite_states
      rewrite_states_nonempty if_distrib [of "\<lambda>r. bind_run r k" for k] case_prod_unfold cong: if_cong)

section \<open>What they are\<close>

lemma backward_states_are:
  "wr \<le> rd \<Longrightarrow> rd + k = length f \<Longrightarrow>
   backward_states (int (wr + k)) f rd wr =
     map (\<lambda>i. take wr f @ take (Suc i) (drop rd f) @ drop (wr + Suc i) f) [0..<k]"
proof (induction k arbitrary: f rd wr)
  case 0
  then show ?case by (simp add: backward_states.simps)
next
  case (Suc k)
  let ?f' = "pwrite f wr [f ! rd]"
  have f': "?f' = take wr f @ [f ! rd] @ drop (Suc wr) f"
    using Suc.prems by (subst pwrite_inside) auto
  have "backward_states (int (wr + Suc k)) f rd wr =
      ?f' # backward_states (int (Suc wr + k)) ?f' (Suc rd) (Suc wr)"
    using Suc.prems by (subst backward_states.simps) (simp add: pread_one [simplified] Let_def)
  also have "backward_states (int (Suc wr + k)) ?f' (Suc rd) (Suc wr) =
      map (\<lambda>i. take (Suc wr) ?f' @ take (Suc i) (drop (Suc rd) ?f') @ drop (Suc wr + Suc i) ?f') [0..<k]"
    using Suc.prems by (intro Suc.IH) (auto simp: file_simps)
  also have "\<dots> = map (\<lambda>i. take wr f @ take (Suc (Suc i)) (drop rd f) @ drop (wr + Suc (Suc i)) f) [0..<k]"
    using Suc.prems drop_as_Cons [of rd f] by (simp add: f' Suc_diff_le ac_simps)
  also have "?f' # \<dots> =
      map (\<lambda>i. take wr f @ take (Suc i) (drop rd f) @ drop (wr + Suc i) f) (0 # map Suc [0..<k])"
    using Suc.prems drop_as_Cons [of rd f] by (simp add: f')
  also have "0 # map Suc [0..<k] = [0..<Suc k]"
    by (simp add: map_Suc_upt upt_conv_Cons del: upt_Suc)
  finally show ?case .
qed

lemma forward_states_are:
  "temp + m \<le> length f \<Longrightarrow> 0 < d \<Longrightarrow>
   (if m = 0 then cur < int temp else cur = int rd \<and> Suc rd = temp + m \<and> wr = rd + d) \<Longrightarrow>
   forward_states temp f rd cur wr =
     map (\<lambda>j. pwrite f (temp + d + j) (drop j (take m (drop temp f)))) (rev [0..<m])"
proof (induction m arbitrary: f rd cur wr)
  case 0
  then show ?case by (simp add: forward_states.simps)
next
  case (Suc m)
  then have rd: "rd = temp + m" "cur = int rd" "wr = temp + m + d" and lt: "temp + m < length f"
    by auto
  let ?c = "f ! (temp + m)"
  let ?f' = "pwrite f (temp + m + d) [?c]"
  let ?cur' = "if temp + m = 0 then -1 else int (temp + m - 1)"
  have snoc: "take (Suc m) (drop temp f) = take m (drop temp f) @ [?c]"
    using lt by (simp add: take_Suc_conv_app_nth)
  have "forward_states temp f rd cur wr =
      ?f' # forward_states temp ?f' (if temp + m = 0 then 1 else temp + m - 1) ?cur' (temp + m + d - 1)"
    using Suc.prems(2) lt unfolding rd
    by (subst forward_states.simps) (auto simp: pread_one [simplified] lseek_back2 Let_def)
  also have "forward_states temp ?f' (if temp + m = 0 then 1 else temp + m - 1) ?cur' (temp + m + d - 1) =
      map (\<lambda>j. pwrite ?f' (temp + d + j) (drop j (take m (drop temp ?f')))) (rev [0..<m])"
    using Suc.prems(1,2) by (intro Suc.IH) (auto simp: file_simps)
  also have "take m (drop temp ?f') = take m (drop temp f)"
    using Suc.prems(1,2) by (intro nth_equalityI) (auto simp: file_simps)
  also have "map (\<lambda>j. pwrite ?f' (temp + d + j) (drop j (take m (drop temp f)))) (rev [0..<m]) =
      map (\<lambda>j. pwrite f (temp + d + j) (drop j (take (Suc m) (drop temp f)))) (rev [0..<m])"
  proof (rule map_cong [OF refl])
    fix j assume "j \<in> set (rev [0..<m])"
    then have j: "j < m" by simp
    have "length (drop j (take m (drop temp f))) = m - j" using lt by simp
    then have "temp + m + d = temp + d + j + length (drop j (take m (drop temp f)))" using j by simp
    then show "pwrite ?f' (temp + d + j) (drop j (take m (drop temp f))) =
        pwrite f (temp + d + j) (drop j (take (Suc m) (drop temp f)))"
      using pwrite_before [of f "temp + d + j" "drop j (take m (drop temp f))" "[?c]"] j lt
      by (simp add: snoc ac_simps)
  qed
  also have "?f' # \<dots> =
      map (\<lambda>j. pwrite f (temp + d + j) (drop j (take (Suc m) (drop temp f)))) (rev [0..<Suc m])"
    using lt by (simp add: snoc ac_simps)
  finally show ?case .
qed

lemma rewrite_states_same:
  "off + len \<le> length f \<Longrightarrow> len = length line \<Longrightarrow> rewrite_states f off len line = [splice f off len line]"
  by (simp add: rewrite_states_def pwrite_inside splice_def)

lemma rewrite_states_shorter:
  assumes "off + len \<le> length f" "line \<noteq> []" "length line < len"
  shows "rewrite_states f off len line =
    map (\<lambda>k. take off f @ line @ take k (drop (off + len) f) @ drop (off + length line + k) f)
      [0..<Suc (length f - (off + len))] @ [splice f off len line]"
proof -
  let ?f1 = "pwrite f off line" and ?k = "length f - (off + len)"
  let ?states = "backward_states (int (off + length line + ?k)) ?f1 (off + len) (off + length line)"
  let ?at = "\<lambda>k. take off f @ line @ take k (drop (off + len) f) @ drop (off + length line + k) f"
  have f1: "?f1 = ?at 0" using assms by (subst pwrite_inside) auto
  then have len1: "length ?f1 = length f" using assms by simp
  have size: "int (length ?f1) + (int (length line) - int len) = int (off + length line + ?k)"
    using assms len1 by simp
  have "?states = map (\<lambda>i. take (off + length line) ?f1 @ take (Suc i) (drop (off + len) ?f1) @
      drop (off + length line + Suc i) ?f1) [0..<?k]"
    using assms len1 by (intro backward_states_are) auto
  also have "\<dots> = map ?at (map Suc [0..<?k])"
    using assms by (simp add: f1 ac_simps)
  finally have "?f1 # ?states = map ?at (0 # map Suc [0..<?k])" by (simp add: f1)
  also have "0 # map Suc [0..<?k] = [0..<Suc ?k]" by (simp add: map_Suc_upt upt_conv_Cons del: upt_Suc)
  finally have states: "?f1 # ?states = map ?at [0..<Suc ?k]" .
  have "rewrite_states f off len line = (?f1 # ?states) @ [last (rewrite_states f off len line)]"
    unfolding size [symmetric] using assms(3) by (simp add: rewrite_states_def Let_def)
  then show ?thesis unfolding last_rewrite_states rewrite_line_splice [OF assms(1,2)] states .
qed

lemma rewrite_states_longer:
  assumes "off + len \<le> length f" "len < length line"
  shows "rewrite_states f off len line =
    map (\<lambda>j. pwrite f (off + length line + j) (drop (off + len + j) f)) (rev [0..<length f - (off + len)]) @
    [splice f off len line]"
proof -
  let ?d = "length line - len" and ?temp = "off + len" and ?m = "length f - (off + len)"
  obtain cur rd where cr: "lseek f 0 (-1) SEEK_END = (cur, rd)" by force
  define wr where "wr = length f + ?d - 1"
  have wr: "lseek f 0 (int (length line) - int len - 1) SEEK_END = (int wr, wr)" "Suc wr = length f + ?d"
    using assms(2) by (auto simp: lseek_def Let_def wr_def)
  have "forward_states ?temp f rd cur wr =
      map (\<lambda>j. pwrite f (?temp + ?d + j) (drop j (take ?m (drop ?temp f)))) (rev [0..<?m])"
    using assms cr wr(2) by (intro forward_states_are) (auto simp: lseek_def Let_def split: if_splits)
  also have "\<dots> = map (\<lambda>j. pwrite f (off + length line + j) (drop (?temp + j) f)) (rev [0..<?m])"
    using assms(2) by (simp add: ac_simps)
  finally have states: "forward_states ?temp f rd cur wr = \<dots>" .
  have "rewrite_states f off len line =
      forward_states ?temp f rd cur wr @ [last (rewrite_states f off len line)]"
    using assms(2) by (simp add: rewrite_states_def Let_def wr(1) cr)
  moreover have "line \<noteq> []" using assms(2) by auto
  ultimately show ?thesis unfolding last_rewrite_states by (simp add: rewrite_line_splice assms(1) states)
qed

section \<open>On the board\<close>

lemma board_lines_take: "n \<le> length b \<Longrightarrow> board_lines (take n b) = take n (board_lines b)"
  by (rule nth_equalityI) simp_all

lemma take_Suc_board_lines:
  "n < length b \<Longrightarrow> board_text (take (Suc n) b) = board_text (take n b) @ board_lines b ! n @ [LF]"
  by (simp add: board_text_def board_lines_take take_Suc_conv_app_nth [of n "board_lines b"] Suc_leI
      del: nth_board_lines)

lemma pwrite_over_itself:
  "d \<le> length ys \<Longrightarrow> pwrite (xs @ ys) (length xs + d) ys = xs @ take d ys @ ys"
  by (simp add: pwrite_def)

lemma replace_states_lines:
  assumes "\<And>l. l \<in> set ls \<Longrightarrow> readable_line l" "content f = lines_text ls" "readable f" "writable f"
    and "n < length ls" "length (line_of (int n) (cstr u) (cstr m)) < 4095"
  shows "replace_states f u (int n) m =
    ret (rewrite_states (lines_text ls) (length (lines_text (take n ls))) (Suc (length (ls ! n)))
      (line_of (int n) (cstr u) (cstr m) @ [LF]))"
proof -
  have "obtainLengthOfLineToBeReplaced f (int n) 0 =
      ret (int (length (ls ! n)) + 1, int (length (lines_text (take n ls))))"
    using assms obtain_length_loop_finds [of ls "replicate 256 NUL" n 0]
    by (simp add: obtainLengthOfLineToBeReplaced_def open_read_def)
  moreover have "nat (int (length (ls ! n)) + 1) = Suc (length (ls ! n))" by simp
  ultimately show ?thesis using assms(2,4,6) by (simp add: replace_states_def line_of_def)
qed

lemma rewrite_states_keep_prefix:
  assumes "off + len \<le> length f" "line \<noteq> []" "g \<in> set (rewrite_states f off len line)"
  shows "\<exists>r. g = take off f @ r"
proof -
  have pw: "\<exists>r. pwrite f p bs = take off f @ r" if "off \<le> p" for p bs
    using that assms(1) by (intro exI [of _ "drop off (pwrite f p bs)"])
      (auto intro!: nth_equalityI simp: nth_append file_simps)
  consider "len = length line" | "length line < len" | "len < length line" by linarith
  then show ?thesis
  proof cases
    case 1
    then show ?thesis using assms by (auto simp: rewrite_states_same splice_def)
  next
    case 2
    then show ?thesis using assms by (auto simp: rewrite_states_shorter splice_def simp del: upt_Suc)
  next
    case 3
    then show ?thesis using assms pw by (auto simp: rewrite_states_longer splice_def)
  qed
qed

section \<open>Properties\<close>

text \<open>C12: a REPLACE is not safe against a kill. Between its system calls the messages before the
  replaced one are in place, and a line of the same length is written at once. But while a shorter
  line is written, the file has the remains of the old line as a line of its own, and as READ counts
  lines every later message has the wrong number; and before a longer line is written, the file has
  the beginning of the following messages twice: in the example a message of bob has become one of
  a user b1.\<close>

theorem killed_replace_corrupts_the_board:
  assumes "content f = board_text b" "good_board b" "readable f" "writable f" "n < length b"
    and "length (line_of (int n) (cstr u) (cstr m)) < 4095"
  defines "old \<equiv> board_lines b ! n" and "new \<equiv> line_of (int n) (cstr u) (cstr m)"
    and "later \<equiv> drop (Suc n) (board_lines b)"
  shows "\<exists>gs. replace_states f u (int n) m = ret (gs @ [lines_text ((board_lines b)[n := new])]) \<and>
    (\<forall>g \<in> set gs. \<exists>r. g = board_text (take n b) @ r) \<and>
    (length new = length old \<longrightarrow> gs = []) \<and>
    (length new < length old \<longrightarrow> gs \<noteq> [] \<and>
       hd gs = board_text (take n b) @ lines_text (new # drop (Suc (length new)) old # later)) \<and>
    (length old < length new \<and> later \<noteq> [] \<and> length new - length old \<le> length (lines_text later) \<longrightarrow> gs \<noteq> [] \<and>
       last gs = board_text (take (Suc n) b) @ take (length new - length old) (lines_text later) @ lines_text later)"
proof -
  let ?f = "board_text b" and ?off = "length (board_text (take n b))" and ?len = "Suc (length old)"
  let ?line = "new @ [LF]"
  have split: "?f = board_text (take n b) @ (old @ [LF]) @ lines_text later"
    using lines_text_split [of n "board_lines b"] assms(5)
    by (simp add: board_text_def board_lines_take old_def later_def)
  then have fits: "?off + ?len \<le> length ?f" by simp
  have states: "replace_states f u (int n) m = ret (rewrite_states ?f ?off ?len ?line)"
    using replace_states_lines [of "board_lines b" f n u m] good_board_readable [OF assms(2)] assms(1,3-6)
    by (simp add: board_text_def board_lines_take old_def new_def)
  obtain gs where gs: "rewrite_states ?f ?off ?len ?line = gs @ [splice ?f ?off ?len ?line]"
    using rewrite_line_splice [OF fits, of ?line] last_rewrite_states [of ?f ?off ?len ?line]
    by (metis append_butlast_last_id append_is_Nil_conv list.discI rewrite_states_nonempty)
  have final: "splice ?f ?off ?len ?line = lines_text ((board_lines b)[n := new])"
    using splice_lines [of n "board_lines b" new] assms(5) by (simp add: board_text_def board_lines_take old_def)
  have prefix: "\<exists>r. g = board_text (take n b) @ r" if "g \<in> set gs" for g
    using rewrite_states_keep_prefix [OF fits, of ?line g] that by (simp add: gs) (simp add: split)
  have same: "gs = []" if "length new = length old"
    using rewrite_states_same [OF fits, of ?line] that gs by simp
  have shorter: "gs \<noteq> [] \<and> hd gs = board_text (take n b) @ lines_text (new # drop (Suc (length new)) old # later)"
    if "length new < length old"
  proof -
    have "gs = map (\<lambda>k. take ?off ?f @ ?line @ take k (drop (?off + ?len) ?f) @ drop (?off + length ?line + k) ?f)
        [0..<Suc (length ?f - (?off + ?len))]"
      using rewrite_states_shorter [OF fits, of ?line] that gs by simp
    then show ?thesis using that by (simp add: upt_conv_Cons del: upt_Suc) (simp add: split)
  qed
  have longer: "gs \<noteq> [] \<and> last gs = board_text (take (Suc n) b) @
      take (length new - length old) (lines_text later) @ lines_text later"
    if "length old < length new" "later \<noteq> []" "length new - length old \<le> length (lines_text later)"
  proof -
    have "gs = map (\<lambda>j. pwrite ?f (?off + length ?line + j) (drop (?off + ?len + j) ?f))
        (rev [0..<length ?f - (?off + ?len)])"
      using rewrite_states_longer [OF fits, of ?line] that(1) gs by simp
    moreover have rest: "0 < length ?f - (?off + ?len)" using that(2) by (cases later) (simp_all add: split)
    ultimately have "gs \<noteq> [] \<and> last gs = pwrite ?f (?off + length ?line) (drop (?off + ?len) ?f)"
      by (simp add: last_map last_rev upt_conv_Cons)
    moreover have "?f = board_text (take (Suc n) b) @ lines_text later"
      using split take_Suc_board_lines [OF assms(5)] by (simp add: old_def)
    moreover have "length (board_text (take (Suc n) b)) = ?off + ?len"
      using take_Suc_board_lines [OF assms(5)] by (simp add: old_def)
    moreover have "?off + length ?line = ?off + ?len + (length new - length old)" using that(1) by simp
    ultimately show ?thesis
      using pwrite_over_itself [OF that(3), of "board_text (take (Suc n) b)"] by simp
  qed
  show ?thesis
    using states gs final prefix same shorter longer by (intro exI [of _ gs]) simp
qed

theorem killed_replace_corrupts_the_board_witness:
  "\<exists>gs. replace_states \<lparr>content = board_text [(''ann'', ''hi''), (''bob'', ''yo'')], readable = True, writable = True\<rparr>
       ''eve'' 0 ''hello'' = ret (gs @ [board_text [(''eve'', ''hello''), (''bob'', ''yo'')]]) \<and>
     last gs = board_text [(''ann'', ''hi''), (''b1'', ''bob/yo'')]"
proof -
  let ?b = "[(''ann'', ''hi''), (''bob'', ''yo'')]"
  let ?f = "\<lparr>content = board_text ?b, readable = True, writable = True\<rparr>"
  have "good_board ?b" "length (line_of (int 0) (cstr ''eve'') (cstr ''hello'')) < 4095"
    by (code_simp, code_simp)
  moreover have "drop (Suc 0) (board_lines ?b) = [''1/bob/yo'']" "board_lines ?b ! 0 = ''0/ann/hi''"
    "line_of (int 0) (cstr ''eve'') (cstr ''hello'') = ''0/eve/hello''"
    by (code_simp, code_simp, code_simp)
  moreover have "lines_text ((board_lines ?b)[0 := ''0/eve/hello'']) = board_text [(''eve'', ''hello''), (''bob'', ''yo'')]"
    "board_text (take (Suc 0) ?b) @ take 3 (lines_text [''1/bob/yo'']) @ lines_text [''1/bob/yo''] =
       board_text [(''ann'', ''hi''), (''b1'', ''bob/yo'')]"
    by (code_simp, code_simp)
  ultimately show ?thesis
    using killed_replace_corrupts_the_board [of ?f ?b 0 "''eve''" "''hello''"] by auto
qed

end
