(* ===== verification/Spec2Isabelle.thy ===== *)
theory Spec2Isabelle
  imports Process_Setup Crossing_Outcome Client_Commands Message_Limits Reliable_Commit Interrupted_Replace
begin

text \<open>
  Verification of the replicated bulletin board server.

  The program (\<open>src/\<close>). A server keeps a bulletin board in a text file, one line
  \<open>number/user/message\<close> for each message. A pool of threads serves clients that send the
  commands USER, READ, WRITE, REPLACE and QUIT, one on a line (\<open>board-server.cpp\<close>). The
  operations on the file run under a readers-writer lock (\<open>file-operations.cpp\<close>). When the server
  has peers, a WRITE or REPLACE is a two-phase commit: the thread of the client starts one thread
  for each peer (\<open>peer-communication.cpp\<close>), which talks to the synchronisation server of that peer
  (\<open>sync-server.cpp\<close>); the operation is performed on the master when all slaves have performed it,
  and undone on the slaves when that fails. \<open>tcp-utils.cpp\<close> reads lines and opens connections,
  \<open>utilities.cpp\<close> holds the string helpers, the configuration file and the thread pools,
  \<open>main.cpp\<close> the start-up and the signals, \<open>logger.cpp\<close> the debugging preference.

  Theories, each with its definitions, lemmas and properties (numbered C1 to C40):

  \<^item> \<open>BB_Prelude\<close>: byte strings, faults, the result type \<open>run\<close> (None when the code waits or loops
    for ever, \<open>Inl\<close> for a fault of the process, \<open>Inr\<close> for a result), reachability, the
    locale \<open>inductive_invariant\<close>, counting in lists.
  \<^item> \<open>C_Strings\<close>: \<open>tokenize\<close>, \<open>trim\<close>, \<open>is_number\<close>, \<open>stoi\<close>, \<open>snprintf\<close>, \<open>createMessage\<close> and the
    other helpers of \<open>utilities.cpp\<close>. Codes such as 3.2 are kept in tenths (32).
  \<^item> \<open>Tcp_Utils\<close>: \<open>recv_nonblock\<close>, \<open>readlineFromSocket\<close> and the functions that open sockets. A
    socket is the list of events it will deliver: a byte, a gap in which nothing has arrived, an
    error; its end is the close of the peer. What the network answers to \<open>connect\<close> and \<open>bind\<close> is
    the record \<open>net\<close>, an argument of the functions.
  \<^item> \<open>Posix_Files\<close>: positioned reads and writes, \<open>lseek\<close> and \<open>ftruncate\<close> on the bytes of a file.
  \<^item> \<open>Line_Scanning\<close>: the locale \<open>line_scan\<close> of the four loops that read the board file line by
    line; each is interpreted where it is defined.
  \<^item> \<open>Replace_Algorithm\<close>: \<open>optimalReplaceAlgorithm\<close>, which rewrites one line in place, and its
    equivalence with replacing a segment of the file.
  \<^item> \<open>Access_Lock\<close>: the lock, its critical sections as steps of threads; mutual exclusion, no lost
    wake-up, preference of writers.
  \<^item> \<open>File_Operations\<close>: the state \<open>store\<close> of a node and the operations of \<open>file-operations.cpp\<close>; the
    undo closures are the datatype \<open>undo\<close> with the values they capture. Every operation ends when
    the lock is free.
  \<^item> \<open>Board_Refinement\<close>: the abstract board, a list of entries; the operations implement append,
    update and lookup on it, and the undo actions restore the state.
  \<^item> \<open>Commit_Contract\<close>: the locale \<open>undoable_operation\<close>, what the commit relies on; both writers are
    interpretations.
  \<^item> \<open>Sync_Server\<close>: the slave. The locale \<open>committed_command\<close> extends the contract with the command
    that names the operation and says how a session ends.
  \<^item> \<open>Peer_Communication\<close>: the master. One step is one critical section, one test outside of them,
    or the receipt of one answer; what a peer answers, when it times out and how the threads
    interleave is open. The counters are 64 bit words, as \<open>unsigned long\<close> is. The same code as
    functions of one thread (\<open>advance\<close>, \<open>receive\<close>), for the theories that supply the messages.
  \<^item> \<open>Master_Invariant\<close>: the invariant of the master, an interpretation of \<open>inductive_invariant\<close>.
  \<^item> \<open>Replication\<close>: unanimity, agreement of the verdicts, at most one execution, progress and
    termination of the master, and the agreement of the replicas with it.
  \<^item> \<open>Commit_Progress\<close>: which threads of the master can act, the measure their steps lower, and that
    a transaction in which nothing has failed can be carried out.
  \<^item> \<open>Board_Server\<close>: the session of a client. How a two-phase commit goes is the parameter
    \<open>schedule\<close>; \<open>faithful_schedule\<close> says that it follows the steps of the master until every thread
    has finished, \<open>ending_schedule\<close> that it gets there. A session ends once its input is used up.
  \<^item> \<open>Configuration\<close>: the configuration file, the command line, start-up, thread pools, \<open>SIGHUP\<close>.
  \<^item> \<open>Concurrent_Board\<close>: many threads on one board file. The operations of \<open>File_Operations\<close> are
    split at the system calls and at the steps of \<open>Access_Lock\<close>; every interleaving is shown to
    answer and to end as the operations do one after the other, which is why the other theories
    may take an operation as one step.
  \<^item> \<open>Board_Spec\<close>: the specification \<open>board_spec\<close> of the commands, an answer and a new board for each,
    and the proof that the threads of \<open>Concurrent_Board\<close> implement it in every interleaving.
  \<^item> \<open>Replicated_Board\<close>: a group of nodes with each other as peers. A step of the group is one command
    of a client on one node: the checks of \<open>board-server.cpp\<close>, all steps of the master, a session of
    the slave on every other node. The group is one board. \<open>Client_Commands\<close>: a command that the
    session of a client handles (\<open>Board_Server\<close>) is such a step, and its answer goes to the client.
  \<^item> \<open>Message_Limits\<close>: what happens outside the conditions of these theorems: messages with too few
    words, commands that do not fit into a protocol message, replicas that have fallen behind.
  \<^item> \<open>Server_Threads\<close>: the accept loops of both pools around the sessions of \<open>Board_Server\<close> and
    \<open>Sync_Server\<close>, the descriptors they accept and close, and \<open>pthread_cancel\<close> with the
    cancellation state and \<open>cleanup_handler\<close>. The locale \<open>session_invariant\<close> carries an invariant
    of a session to the thread that serves it.
  \<^item> \<open>Crossing_Commits\<close>: two nodes that are each other's peer. The steps of the master
    (\<open>Peer_Communication\<close>) and the turns of the slave (\<open>Server_Threads\<close>) share the store of a node,
    and the messages of each are what the other reads. \<open>Crossing_Outcome\<close>: the seven stages of a
    node when both commits meet, that the steps of the nodes are the moves between them, and how
    every run ends.
  \<^item> \<open>Commit_Transaction\<close>: the threads of the master and the sessions of all slaves side by side,
    coupled by the messages they have sent. Connections are refused or closed, reads time out or
    fail at any point; the invariant of each link says how far its two ends have got, and the
    replication is atomic except for slaves that lost the verdict after their commit.
    \<open>Reliable_Commit\<close>: without failures every run of a transaction carries it out, and with
    failures (reads that fail with an error apart) every run of it ends; both are interpretations of
    the locale \<open>terminating_system\<close>.
  \<^item> \<open>Crash_Recovery\<close>: the server is killed while its threads work on the file, and started again on
    what is left: the state of the disk after \<open>Concurrent_Board\<close> is the input of \<open>main\<close>.
    \<open>Interrupted_Replace\<close>: what a kill between the system calls of a REPLACE leaves in the file.
  \<^item> \<open>Process_Descriptors\<close>: the descriptor table of the daemon and of \<open>SIGQUIT\<close>, and two small
    functions. \<open>Process_Setup\<close>: process group, terminal, signal dispositions and file modes (12 bit
    words) of a started server.

  How they build on each other. The operations are one step in the protocol because
  \<open>Concurrent_Board\<close> shows that interleaving does not matter under the lock. The contract of
  \<open>Commit_Contract\<close> is all that the slave and the master know of an operation; the agreement of one
  replica with the master (\<open>replica_follows\<close>) is proved once from it in the locale, and with
  \<open>Board_Spec\<close> it gives the board of the group.

  Bounds. Buffers have the sizes of the code (255, 256 and 4096 bytes), and the conditions on
  lengths in the properties are those under which nothing is cut off. The number of peers is
  below 2 to the 64, which the size of a vector is. The message number is an unbounded integer
  (an \<open>int\<close> in the code, that a file of less than 2 to the 31 lines cannot overflow). There is no
  fuel: loops are structural, have a measure, or are partial functions whose results are proved.

  Not modelled: console output, and when a signal is delivered. What the network delivers, when a
  read times out and how threads interleave is open. In \<open>Concurrent_Board\<close> the in-place rewriting
  of a REPLACE is one step, as no other thread is inside the lock then; the clients of that theory
  work on a node without peers, with peers the operations are those of the commit. In
  \<open>Crossing_Commits\<close> each node serves one command. In \<open>Replicated_Board\<close> commands follow one another
  and nothing that is sent is lost; what crossing commands and lost verdicts do is the subject of
  \<open>Crossing_Outcome\<close>, \<open>Commit_Transaction\<close> and \<open>Replication\<close>. In \<open>Commit_Transaction\<close> one transaction
  runs, and a slave whose receive fails with an error is left out (\<open>recv_error_keeps_the_lock\<close> in
  \<open>Sync_Server\<close> says what it does). In \<open>Crash_Recovery\<close> the kill comes between two steps of
  \<open>Concurrent_Board\<close>. \<open>pthread_create\<close> succeeds for the threads of a commit. A
  step that brings the process down (an answer of one word, say) has no successor in the step
  relation of the master.

  Defects of the code that the model shows are properties too: C10, C11, C12, C27 (its
  exception), C32 (a board file that cannot be opened), C35, C36, C37, C38, C39 and C40.
\<close>

end
